(* ===== verification/Prelude.thy ===== *)
theory Prelude
  imports Main "HOL-Library.Word" "HOL-Library.Monad_Syntax"
begin

text \<open>
  Shared ground of the development.

  \<^item> The outcome of a C computation: every modelled function that can hit undefined behaviour
    (a null or dangling pointer dereference, an index outside an array, a division by zero)
    or that may not return has a result of type \<open>'a option\<close>, where \<open>None\<close> stands for that
    behaviour. C's own error returns (\<open>false\<close>, \<open>-1\<close>, \<open>NULL\<close>) are ordinary
    values inside \<open>Some\<close>. State is passed explicitly; \<open>do\<close>-blocks are those of
    \<open>Option.bind\<close>.
  \<^item> Byte buffers, little-endian loads and stores of C's integer types, \<open>memcpy\<close>,
    \<open>memset\<close> and their laws (same place, disjoint place, round trip).
  \<^item> C \<open>for\<close> loops with early exit as one combinator, and its invariant rule.

  \<open>ssize_t\<close>, \<open>time_t\<close> and \<open>int\<close> values are mathematical integers: signed overflow is
  undefined in C. Where a value goes through memory it is stored at its width, in two's
  complement. Arithmetic on \<open>size_t\<close> is written with its reduction modulo \<open>2 ^ 64\<close>.
\<close>

section \<open>Collections of facts\<close>

named_theorems mem_simps \<open>laws of loads and stores\<close>
named_theorems geometry \<open>the constants of the file system as numerals\<close>

text \<open>Intervals between numerals stay folded: a block has 512 words.\<close>

declare upto_rec_numeral [simp del]

section \<open>Bytes and buffers\<close>

type_synonym byte = "8 word"

text \<open>A buffer is addressed by C offsets; the code's bounds are checked where it indexes.\<close>

type_synonym buffer = "int \<Rightarrow> byte"

definition zero_buf :: buffer where
  "zero_buf = (\<lambda>_. 0)"

definition memset0 :: "buffer \<Rightarrow> int \<Rightarrow> int \<Rightarrow> buffer" where
  "memset0 b p n = (\<lambda>i. if p \<le> i \<and> i < p + n then 0 else b i)"

definition memcpy :: "buffer \<Rightarrow> int \<Rightarrow> buffer \<Rightarrow> int \<Rightarrow> int \<Rightarrow> buffer" where
  "memcpy dst p src q n = (\<lambda>i. if p \<le> i \<and> i < p + n then src (q + (i - p)) else dst i)"

lemma zero_buf_apply [simp]: "zero_buf i = 0"
  by (simp add: zero_buf_def)

lemma memset0_apply [mem_simps]:
  "memset0 b p n i = (if p \<le> i \<and> i < p + n then 0 else b i)"
  by (simp add: memset0_def)

lemma memset0_zero_buf [simp]: "memset0 zero_buf p n = zero_buf"
  by (rule ext) (simp add: memset0_def)

lemma memcpy_apply [mem_simps]:
  "memcpy dst p src q n i = (if p \<le> i \<and> i < p + n then src (q + (i - p)) else dst i)"
  by (simp add: memcpy_def)

subsection \<open>Little-endian integers of n bytes\<close>

primrec le_load :: "buffer \<Rightarrow> int \<Rightarrow> nat \<Rightarrow> int" where
  "le_load b p 0 = 0"
| "le_load b p (Suc n) = uint (b p) + 256 * le_load b (p + 1) n"

primrec le_store :: "buffer \<Rightarrow> int \<Rightarrow> nat \<Rightarrow> int \<Rightarrow> buffer" where
  "le_store b p 0 v = b"
| "le_store b p (Suc n) v = le_store (b(p := word_of_int v)) (p + 1) n (v div 256)"

lemma le_store_other: "q < p \<or> p + int n \<le> q \<Longrightarrow> le_store b p n v q = b q"
  by (induction n arbitrary: b p v) auto

lemma le_load_cong:
  "(\<And>i. p \<le> i \<Longrightarrow> i < p + int n \<Longrightarrow> b i = c i) \<Longrightarrow> le_load b p n = le_load c p n"
  by (induction n arbitrary: p) auto

lemma le_load_nonneg: "0 \<le> le_load b p n"
  by (induction n arbitrary: p) auto

lemma le_load_bound: "le_load b p n < 256 ^ n"
proof (induction n arbitrary: p)
  case 0
  then show ?case by simp
next
  case (Suc n)
  have "uint (b p) < 256" using uint_lt2p [of "b p"] by simp
  with Suc [of "p + 1"] show ?case by simp
qed

lemma le_load_store: "le_load (le_store b p n v) p n = v mod 256 ^ n"
proof (induction n arbitrary: b p v)
  case 0
  then show ?case by simp
next
  case (Suc n)
  have head: "le_store (b(p := word_of_int v)) (p + 1) n (v div 256) p = word_of_int v"
    by (simp add: le_store_other)
  have arith: "v mod 256 + 256 * ((v div 256) mod 256 ^ n) = v mod (256 * 256 ^ n)"
    by (simp add: zmod_zmult2_eq)
  have "uint (word_of_int v :: byte) = v mod 256"
    by (simp add: uint_word_of_int)
  with head Suc arith show ?case by simp
qed

lemma le_store_byte:
  "0 \<le> k \<Longrightarrow> k < int n \<Longrightarrow> le_store b p n v (p + k) = word_of_int (v div 256 ^ nat k)"
proof (induction n arbitrary: b p v k)
  case 0
  then show ?case by simp
next
  case (Suc n)
  show ?case
  proof (cases "k = 0")
    case True
    then show ?thesis by (simp add: le_store_other)
  next
    case False
    with Suc.prems have k: "0 \<le> k - 1" "k - 1 < int n" by auto
    have "nat k = Suc (nat (k - 1))" using False Suc.prems by simp
    with Suc.IH [OF k, of "b(p := word_of_int v)" "p + 1" "v div 256"]
    show ?thesis by (simp add: zdiv_zmult2_eq del: fun_upd_apply)
  qed
qed

lemma word_of_int_mod_256: "(word_of_int (v mod 256) :: byte) = word_of_int v"
  by (simp add: word_of_int_eq_iff take_bit_eq_mod)

lemma le_store_load: "le_store b p n (le_load b p n) = b"
proof (induction n arbitrary: p)
  case 0
  then show ?case by simp
next
  case (Suc n)
  have "uint (b p) < 256" using uint_lt2p [of "b p"] by simp
  then have d: "(uint (b p) + 256 * le_load b (p + 1) n) div 256 = le_load b (p + 1) n"
    by simp
  have "(uint (b p) + 256 * le_load b (p + 1) n) mod 256 = uint (b p)"
    using \<open>uint (b p) < 256\<close> by simp
  then have "(word_of_int (uint (b p) + 256 * le_load b (p + 1) n) :: byte) = b p"
    by (metis word_of_int_mod_256 word_of_int_uint)
  with d Suc [of "p + 1"] show ?case by simp
qed

lemma le_store_cong_outside:
  "le_store b p n v = le_store c p n v \<longleftrightarrow>
   (\<forall>i. i < p \<or> p + int n \<le> i \<longrightarrow> b i = c i)"
proof
  assume eq: "le_store b p n v = le_store c p n v"
  show "\<forall>i. i < p \<or> p + int n \<le> i \<longrightarrow> b i = c i"
    by (metis eq le_store_other)
next
  assume out: "\<forall>i. i < p \<or> p + int n \<le> i \<longrightarrow> b i = c i"
  show "le_store b p n v = le_store c p n v"
  proof
    fix i
    show "le_store b p n v i = le_store c p n v i"
    proof (cases "i < p \<or> p + int n \<le> i")
      case True
      then have "b i = c i" using out by blast
      with True show ?thesis by (simp add: le_store_other)
    next
      case False
      then have "0 \<le> i - p" "i - p < int n" by auto
      from le_store_byte [OF this, of b p v] le_store_byte [OF this, of c p v]
      show ?thesis by simp
    qed
  qed
qed

subsection \<open>C's integer types in memory\<close>

text \<open>\<open>ssize_t\<close> and \<open>time_t\<close>: 8 bytes, two's complement.\<close>

definition s64_of :: "int \<Rightarrow> int" where
  "s64_of u = (if 2 ^ 63 \<le> u then u - 2 ^ 64 else u)"

definition in_s64 :: "int \<Rightarrow> bool" where
  "in_s64 v \<longleftrightarrow> - (2 ^ 63) \<le> v \<and> v < 2 ^ 63"

definition ld_s64 :: "buffer \<Rightarrow> int \<Rightarrow> int" where
  "ld_s64 b p = s64_of (le_load b p 8)"

definition st_s64 :: "buffer \<Rightarrow> int \<Rightarrow> int \<Rightarrow> buffer" where
  "st_s64 b p v = le_store b p 8 v"

text \<open>\<open>unsigned short\<close>: 2 bytes.\<close>

definition ld_u16 :: "buffer \<Rightarrow> int \<Rightarrow> int" where
  "ld_u16 b p = le_load b p 2"

definition st_u16 :: "buffer \<Rightarrow> int \<Rightarrow> int \<Rightarrow> buffer" where
  "st_u16 b p v = le_store b p 2 v"

text \<open>\<open>mode_t\<close>: 4 bytes, read as a 32-bit word.\<close>

definition ld_u32 :: "buffer \<Rightarrow> int \<Rightarrow> 32 word" where
  "ld_u32 b p = word_of_int (le_load b p 4)"

definition st_u32 :: "buffer \<Rightarrow> int \<Rightarrow> 32 word \<Rightarrow> buffer" where
  "st_u32 b p v = le_store b p 4 (uint v)"

text \<open>\<open>bool\<close>: one byte.\<close>

definition ld_bool :: "buffer \<Rightarrow> int \<Rightarrow> bool" where
  "ld_bool b p \<longleftrightarrow> b p \<noteq> 0"

definition st_bool :: "buffer \<Rightarrow> int \<Rightarrow> bool \<Rightarrow> buffer" where
  "st_bool b p v = b(p := if v then 1 else 0)"

lemma s64_of_mod:
  assumes "in_s64 v"
  shows "s64_of (v mod 2 ^ 64) = v"
proof (cases "v < 0")
  case True
  then have "v mod 2 ^ 64 = v + 2 ^ 64"
    using assms mod_pos_pos_trivial [of "v + 2 ^ 64" "2 ^ 64"] by (simp add: in_s64_def)
  with assms show ?thesis by (simp add: s64_of_def in_s64_def)
next
  case False
  with assms have "v mod 2 ^ 64 = v" by (simp add: in_s64_def)
  with assms show ?thesis by (simp add: s64_of_def in_s64_def)
qed

lemma in_s64_ld [simp]: "in_s64 (ld_s64 b p)"
  using le_load_nonneg [of b p 8] le_load_bound [of b p 8]
  by (simp add: ld_s64_def s64_of_def in_s64_def)

lemma ld_st_s64_same [mem_simps]: "in_s64 v \<Longrightarrow> ld_s64 (st_s64 b p v) p = v"
  using s64_of_mod [of v] by (simp add: ld_s64_def st_s64_def le_load_store)

lemma ld_st_s64_other [mem_simps]:
  "p + 8 \<le> q \<or> q + 8 \<le> p \<Longrightarrow> ld_s64 (st_s64 b p v) q = ld_s64 b q"
  unfolding ld_s64_def st_s64_def
  by (rule arg_cong [where f = s64_of], rule le_load_cong) (auto simp: le_store_other)

lemma st_s64_ld [mem_simps]: "st_s64 b p (ld_s64 b p) = b"
proof -
  have *: "le_store b p 8 (s64_of u) = le_store b p 8 u" if "0 \<le> u" "u < 2 ^ 64" for u
  proof
    fix i
    show "le_store b p 8 (s64_of u) i = le_store b p 8 u i"
    proof (cases "i < p \<or> p + 8 \<le> i")
      case True
      then show ?thesis by (simp add: le_store_other)
    next
      case False
      then have k: "0 \<le> i - p" "i - p < int 8" by auto
      have "\<exists>c. s64_of u = u - 256 ^ 8 * c"
        by (auto simp: s64_of_def intro: exI [of _ 1] exI [of _ 0])
      then obtain c where c: "s64_of u = u - 256 ^ 8 * c" ..
      define m where "m = nat (i - p)"
      have m: "m < 8" using False by (auto simp: m_def)
      then have "(256 :: int) ^ 8 = 256 ^ m * (256 * 256 ^ (7 - m))"
        by (simp add: power_Suc [symmetric] power_add [symmetric] del: power_Suc)
      then have "s64_of u = u + (- (256 * (256 ^ (7 - m) * c))) * 256 ^ m"
        using c by simp
      then have "s64_of u div 256 ^ m = - (256 * (256 ^ (7 - m) * c)) + u div 256 ^ m"
        using div_mult_self1 [of "256 ^ m :: int" u "- (256 * (256 ^ (7 - m) * c))"]
        by (simp only: power_not_zero zero_neq_numeral [symmetric] not_False_eq_True simp_thms)
      then have "s64_of u div 256 ^ m = u div 256 ^ m - 256 * (256 ^ (7 - m) * c)"
        by simp
      then have "(s64_of u div 256 ^ m) mod 256 = (u div 256 ^ m) mod 256"
        by (metis mod_mult_self2 diff_add_cancel)
      then have "(word_of_int (s64_of u div 256 ^ m) :: byte) = word_of_int (u div 256 ^ m)"
        by (metis word_of_int_mod_256)
      with le_store_byte [OF k, of b p "s64_of u"] le_store_byte [OF k, of b p u]
      show ?thesis by (simp add: m_def)
    qed
  qed
  show ?thesis
    using * [OF le_load_nonneg] le_load_bound [of b p 8]
    by (simp add: ld_s64_def st_s64_def le_store_load)
qed

lemma ld_s64_cong: "(\<And>i. p \<le> i \<Longrightarrow> i < p + 8 \<Longrightarrow> b i = c i) \<Longrightarrow> ld_s64 b p = ld_s64 c p"
  unfolding ld_s64_def by (rule arg_cong [where f = s64_of], rule le_load_cong) auto

lemma st_s64_apply_other [mem_simps]: "i < p \<or> p + 8 \<le> i \<Longrightarrow> st_s64 b p v i = b i"
  by (auto simp: st_s64_def le_store_other)

lemma ld_s64_zero_buf [simp]: "ld_s64 zero_buf p = 0"
  by (simp add: ld_s64_def s64_of_def eval_nat_numeral)

lemma ld_u16_range: "0 \<le> ld_u16 b p" "ld_u16 b p < 65536"
  using le_load_nonneg [of b p 2] le_load_bound [of b p 2] by (simp_all add: ld_u16_def)

lemma ld_st_u16_same [mem_simps]: "ld_u16 (st_u16 b p v) p = v mod 65536"
  by (simp add: ld_u16_def st_u16_def le_load_store)

lemma st_u16_apply_other [mem_simps]: "i < p \<or> p + 2 \<le> i \<Longrightarrow> st_u16 b p v i = b i"
  by (auto simp: st_u16_def le_store_other)

lemma ld_u16_cong: "(\<And>i. p \<le> i \<Longrightarrow> i < p + 2 \<Longrightarrow> b i = c i) \<Longrightarrow> ld_u16 b p = ld_u16 c p"
  unfolding ld_u16_def by (rule le_load_cong) auto

lemma ld_st_u32_same [mem_simps]: "ld_u32 (st_u32 b p v) p = v"
proof -
  have "uint v mod 256 ^ 4 = uint v" using uint_lt2p [of v] by simp
  then show ?thesis by (simp add: ld_u32_def st_u32_def le_load_store)
qed

lemma st_u32_apply_other [mem_simps]: "i < p \<or> p + 4 \<le> i \<Longrightarrow> st_u32 b p v i = b i"
  by (auto simp: st_u32_def le_store_other)

lemma ld_u32_cong: "(\<And>i. p \<le> i \<Longrightarrow> i < p + 4 \<Longrightarrow> b i = c i) \<Longrightarrow> ld_u32 b p = ld_u32 c p"
  unfolding ld_u32_def by (rule arg_cong [where f = word_of_int], rule le_load_cong) auto

lemma ld_st_bool_same [mem_simps]: "ld_bool (st_bool b p v) p = v"
  by (simp add: ld_bool_def st_bool_def)

lemma st_bool_apply_other [mem_simps]: "i \<noteq> p \<Longrightarrow> st_bool b p v i = b i"
  by (simp add: st_bool_def)

section \<open>Arrays\<close>

text \<open>Access to a C array by index; outside its bounds it is undefined.\<close>

definition array_get :: "'a list \<Rightarrow> int \<Rightarrow> 'a option" where
  "array_get xs i = (if 0 \<le> i \<and> nat i < length xs then Some (xs ! nat i) else None)"

definition array_set :: "'a list \<Rightarrow> int \<Rightarrow> 'a \<Rightarrow> 'a list option" where
  "array_set xs i v = (if 0 \<le> i \<and> nat i < length xs then Some (xs[nat i := v]) else None)"

lemma array_get_in [simp]: "0 \<le> i \<Longrightarrow> i < int (length xs) \<Longrightarrow> array_get xs i = Some (xs ! nat i)"
  by (simp add: array_get_def nat_less_iff)

lemma array_set_in [simp]: "0 \<le> i \<Longrightarrow> i < int (length xs) \<Longrightarrow> array_set xs i v = Some (xs[nat i := v])"
  by (simp add: array_set_def nat_less_iff)

section \<open>Loops\<close>

text \<open>
  What one iteration of a loop body says: go on with a new loop state, leave the loop
  (\<open>break\<close>), or leave the function (\<open>return\<close> inside the loop).
\<close>

datatype ('s, 'r) ctl = Next 's | Break 's | Return 'r

text \<open>
  \<open>for(i = lo; i < hi; i++) body\<close>, over an explicit loop state. The result is the state in
  which control falls out of the loop (\<open>Inl\<close>), or the value returned from inside it
  (\<open>Inr\<close>).
\<close>

function for_loop ::
  "int \<Rightarrow> int \<Rightarrow> (int \<Rightarrow> 's \<Rightarrow> ('s, 'r) ctl option) \<Rightarrow> 's \<Rightarrow> ('s + 'r) option" where
  "for_loop i hi body s =
     (if i < hi then
        do { c \<leftarrow> body i s;
             case c of Next s' \<Rightarrow> for_loop (i + 1) hi body s'
                     | Break s' \<Rightarrow> Some (Inl s')
                     | Return r \<Rightarrow> Some (Inr r) }
      else Some (Inl s))"
  by pat_completeness auto
termination
  by (relation "measure (\<lambda>(i, hi, body, s). nat (hi - i))") auto

declare for_loop.simps [simp del]

lemma for_loop_done [simp]: "hi \<le> i \<Longrightarrow> for_loop i hi body s = Some (Inl s)"
  by (subst for_loop.simps) simp

lemma for_loop_step:
  "i < hi \<Longrightarrow> for_loop i hi body s =
     do { c \<leftarrow> body i s;
          case c of Next s' \<Rightarrow> for_loop (i + 1) hi body s'
                  | Break s' \<Rightarrow> Some (Inl s')
                  | Return r \<Rightarrow> Some (Inr r) }"
  by (subst for_loop.simps) simp

lemma for_loop_next:
  "i < hi \<Longrightarrow> body i s = Some (Next s') \<Longrightarrow> for_loop i hi body s = for_loop (i + 1) hi body s'"
  by (simp add: for_loop_step)

lemma for_loop_break:
  "i < hi \<Longrightarrow> body i s = Some (Break s') \<Longrightarrow> for_loop i hi body s = Some (Inl s')"
  by (simp add: for_loop_step)

lemma for_loop_return:
  "i < hi \<Longrightarrow> body i s = Some (Return r) \<Longrightarrow> for_loop i hi body s = Some (Inr r)"
  by (simp add: for_loop_step)

text \<open>
  Total correctness. The invariant \<open>I\<close> holds when the loop runs to its end, \<open>B\<close> after a
  \<open>break\<close>, \<open>Q\<close> of a value returned from inside.
\<close>

lemma for_loop_rule:
  assumes "I i s" and "i \<le> hi"
    and "\<And>j s. i \<le> j \<Longrightarrow> j < hi \<Longrightarrow> I j s \<Longrightarrow>
           (\<exists>s'. body j s = Some (Next s') \<and> I (j + 1) s') \<or>
           (\<exists>s'. body j s = Some (Break s') \<and> B s') \<or>
           (\<exists>r. body j s = Some (Return r) \<and> Q r)"
  shows "(\<exists>s'. for_loop i hi body s = Some (Inl s') \<and> (I hi s' \<or> B s')) \<or>
         (\<exists>r. for_loop i hi body s = Some (Inr r) \<and> Q r)"
  using assms
proof (induction "nat (hi - i)" arbitrary: i s)
  case 0
  then show ?case by simp
next
  case (Suc n)
  then have lt: "i < hi" by simp
  from Suc.prems(3) [OF order_refl lt Suc.prems(1)]
  consider s' where "body i s = Some (Next s')" "I (i + 1) s'"
    | s' where "body i s = Some (Break s')" "B s'"
    | r where "body i s = Some (Return r)" "Q r" by blast
  then show ?case
  proof cases
    case 1
    have "n = nat (hi - (i + 1))" using Suc.hyps(2) by simp
    from Suc.hyps(1) [OF this 1(2)] lt Suc.prems(3) 1(1) show ?thesis
      by (simp add: for_loop_next)
  next
    case 2
    with lt show ?thesis by (simp add: for_loop_break)
  next
    case 3
    with lt show ?thesis by (simp add: for_loop_return)
  qed
qed

text \<open>A loop that always runs to its end.\<close>

lemma for_loop_total:
  assumes "I i s" and "i \<le> hi"
    and "\<And>j s. i \<le> j \<Longrightarrow> j < hi \<Longrightarrow> I j s \<Longrightarrow> \<exists>s'. body j s = Some (Next s') \<and> I (j + 1) s'"
  shows "\<exists>s'. for_loop i hi body s = Some (Inl s') \<and> I hi s'"
  using for_loop_rule [of I i s hi body "\<lambda>_. False" "\<lambda>_. False"] assms by blast

text \<open>Iterations that leave the loop state alone can be skipped.\<close>

lemma for_loop_skip:
  assumes "i \<le> k" "k \<le> hi"
    and "\<And>j. i \<le> j \<Longrightarrow> j < k \<Longrightarrow> body j s = Some (Next s)"
  shows "for_loop i hi body s = for_loop k hi body s"
  using assms
proof (induction "nat (k - i)" arbitrary: i)
  case 0
  then show ?case by simp
next
  case (Suc n)
  then have "for_loop i hi body s = for_loop (i + 1) hi body s"
    by (simp add: for_loop_next)
  also have "\<dots> = for_loop k hi body s"
    using Suc.hyps(2) Suc.prems by (intro Suc.hyps(1)) auto
  finally show ?case .
qed

lemma for_loop_none:
  "i \<le> hi \<Longrightarrow> (\<And>j. i \<le> j \<Longrightarrow> j < hi \<Longrightarrow> body j s = Some (Next s)) \<Longrightarrow>
   for_loop i hi body s = Some (Inl s)"
  using for_loop_skip [of i hi hi body s] by simp

text \<open>A search decided by its first hit.\<close>

lemma least_int_hit:
  fixes P :: "int \<Rightarrow> bool"
  assumes "lo \<le> k" "P k"
  obtains m where "lo \<le> m" "m \<le> k" "P m" "\<And>j. lo \<le> j \<Longrightarrow> j < m \<Longrightarrow> \<not> P j"
proof -
  define n where "n = (LEAST n. P (lo + int n))"
  have ex: "P (lo + int (nat (k - lo)))" using assms by simp
  have P: "P (lo + int n)" unfolding n_def using ex by (rule LeastI)
  have "n \<le> nat (k - lo)" unfolding n_def using ex by (rule Least_le)
  moreover have "\<not> P j" if "lo \<le> j" "j < lo + int n" for j
  proof -
    have "nat (j - lo) < n" using that by linarith
    from not_less_Least [OF this [unfolded n_def]] that show ?thesis by simp
  qed
  ultimately show thesis using P assms(1) by (intro that [of "lo + int n"]) auto
qed

end
