(* ===== verification/LruCache.thy ===== *)
theory LruCache
  imports Prelude
begin

text \<open>
  The cache from path names to inode numbers (\<open>lib/lru_cache.c\<close>, \<open>include/lru_cache.h\<close>): a
  doubly linked list of nodes in order of last use and an array \<open>map\<close> of pointers into it,
  indexed by the DJB2 hash of the key modulo the capacity.

  Nodes live in an explicit heap from addresses to nodes, part of the cache record: a null or
  freed pointer has no node there, so following it gives \<open>None\<close>. \<open>malloc\<close> returns an address
  that was never used, so every use of freed memory is visible. Strings are C strings without
  their final NUL; the argument \<open>key\<close> may be \<open>NULL\<close>, as the code checks for it. The
  argument \<open>cache\<close> is the address of a static variable in every caller, so its null checks have
  no counterpart.
\<close>

section \<open>Data\<close>

record node =
  nkey :: string
  nval :: int
  prv :: "nat option"
  nxt :: "nat option"

record lru_cache =
  head :: "nat option"
  tail :: "nat option"
  csize :: int
  capacity :: int
  cmap :: "nat option list"
  heap :: "nat \<Rightarrow> node option"
  brk :: nat

text \<open>A \<open>char\<close> as the \<open>int\<close> it converts to: it is signed.\<close>

definition schar :: "char \<Rightarrow> int" where
  "schar c = (if of_char c < (128 :: int) then of_char c else of_char c - 256)"

definition djb2_hash :: "string \<Rightarrow> 64 word" where
  "djb2_hash s = foldl (\<lambda>hash c. (push_bit 5 hash + hash) + word_of_int (schar c)) 5381 s"

section \<open>Operations\<close>

definition create_cache :: "lru_cache \<Rightarrow> int \<Rightarrow> lru_cache" where
  "create_cache c cap = c\<lparr>head := None, tail := None, csize := 0, capacity := cap,
     cmap := replicate (nat cap) None\<rparr>"

text \<open>\<open>hash % cache->capacity\<close>: unsigned; a capacity of 0 traps.\<close>

definition bucket :: "lru_cache \<Rightarrow> string \<Rightarrow> int option" where
  "bucket c key =
     (if word_of_int (capacity c) = (0 :: 64 word) then None
      else Some (uint (djb2_hash key mod word_of_int (capacity c))))"

definition set_prv :: "nat option \<Rightarrow> nat option \<Rightarrow> lru_cache \<Rightarrow> lru_cache option" where
  "set_prv p v c = do {
     a \<leftarrow> p; n \<leftarrow> heap c a; Some (c\<lparr>heap := (heap c)(a \<mapsto> n\<lparr>prv := v\<rparr>)\<rparr>) }"

definition set_nxt :: "nat option \<Rightarrow> nat option \<Rightarrow> lru_cache \<Rightarrow> lru_cache option" where
  "set_nxt p v c = do {
     a \<leftarrow> p; n \<leftarrow> heap c a; Some (c\<lparr>heap := (heap c)(a \<mapsto> n\<lparr>nxt := v\<rparr>)\<rparr>) }"

text \<open>\<open>free(node->key); free(node)\<close>.\<close>

definition free_node :: "nat \<Rightarrow> lru_cache \<Rightarrow> lru_cache option" where
  "free_node a c = do { n \<leftarrow> heap c a; Some (c\<lparr>heap := (heap c)(a := None)\<rparr>) }"

partial_function (option) free_list :: "nat option \<Rightarrow> lru_cache \<Rightarrow> lru_cache option" where
  "free_list p c = (case p of None \<Rightarrow> Some c
     | Some a \<Rightarrow> do { n \<leftarrow> heap c a; c \<leftarrow> free_node a c; free_list (nxt n) c })"

definition free_cache :: "lru_cache \<Rightarrow> lru_cache option" where
  "free_cache c = free_list (head c) c"

definition delete_node :: "lru_cache \<Rightarrow> nat \<Rightarrow> lru_cache option" where
  "delete_node c a = do {
     n \<leftarrow> heap c a;
     let c = (if Some a = head c then c\<lparr>head := nxt n\<rparr>
              else if Some a = tail c then c\<lparr>tail := prv n\<rparr> else c);
     c \<leftarrow> (if prv n \<noteq> None then set_nxt (prv n) (nxt n) c else Some c);
     n \<leftarrow> heap c a;
     c \<leftarrow> (if nxt n \<noteq> None then set_prv (nxt n) (prv n) c else Some c);
     free_node a c }"

text \<open>The search loop shared by the three operations: follow \<open>next\<close> until the key is met.\<close>

partial_function (option) find_node ::
  "(nat \<Rightarrow> node option) \<Rightarrow> nat option \<Rightarrow> string \<Rightarrow> nat option option" where
  "find_node h cur key = (case cur of None \<Rightarrow> Some None
     | Some a \<Rightarrow> do {
         n \<leftarrow> h a;
         if nkey n = key then Some (Some a) else find_node h (nxt n) key })"

declare free_list.simps [code] find_node.simps [code]

text \<open>The code that moves a node to the front, the same in \<open>set_cache\<close> and \<open>get_cache\<close>.\<close>

definition move_to_front :: "lru_cache \<Rightarrow> nat \<Rightarrow> lru_cache option" where
  "move_to_front c a =
     (if Some a \<noteq> head c then do {
        n \<leftarrow> heap c a;
        c \<leftarrow> set_nxt (prv n) (nxt n) c;
        n \<leftarrow> heap c a;
        c \<leftarrow> (if Some a = tail c then Some (c\<lparr>tail := prv n\<rparr>)
             else set_prv (nxt n) (prv n) c);
        c \<leftarrow> set_prv (Some a) None c;
        c \<leftarrow> set_nxt (Some a) (head c) c;
        c \<leftarrow> set_prv (head c) (Some a) c;
        Some (c\<lparr>head := Some a\<rparr>) }
      else Some c)"

definition pop_cache :: "lru_cache \<Rightarrow> string option \<Rightarrow> (bool \<times> lru_cache) option" where
  "pop_cache c key = (case key of None \<Rightarrow> Some (True, c) | Some key \<Rightarrow> do {
     hash_index \<leftarrow> bucket c key;
     cur \<leftarrow> array_get (cmap c) hash_index;
     found \<leftarrow> find_node (heap c) cur key;
     case found of None \<Rightarrow> Some (False, c)
     | Some a \<Rightarrow> do {
         c \<leftarrow> delete_node c a;
         m \<leftarrow> array_set (cmap c) hash_index None;
         Some (True, c\<lparr>cmap := m\<rparr>) } })"

text \<open>The two parts of \<open>set_cache\<close> for a new key: a node in front, and the eviction.\<close>

definition push_front :: "lru_cache \<Rightarrow> string \<Rightarrow> int \<Rightarrow> (nat \<times> lru_cache) option" where
  "push_front c key v = do {
     let a = brk c;
     let node = \<lparr>nkey = key, nval = v, prv = None, nxt = head c\<rparr>;
     let c = c\<lparr>heap := (heap c)(a \<mapsto> node), brk := brk c + 1\<rparr>;
     c \<leftarrow> (if head c \<noteq> None then set_prv (head c) (Some a) c else Some c);
     let c = c\<lparr>head := Some a\<rparr>;
     let c = (if tail c = None then c\<lparr>tail := Some a\<rparr> else c);
     Some (a, c\<lparr>csize := csize c + 1\<rparr>) }"

definition evict :: "lru_cache \<Rightarrow> lru_cache option" where
  "evict c =
     (if csize c > capacity c then do {
        t \<leftarrow> tail c;
        c \<leftarrow> delete_node c t;
        Some (c\<lparr>csize := csize c - 1\<rparr>) }
      else Some c)"

definition set_cache :: "lru_cache \<Rightarrow> string option \<Rightarrow> int \<Rightarrow> lru_cache option" where
  "set_cache c key v = (case key of None \<Rightarrow> Some c | Some key \<Rightarrow> do {
     hash_index \<leftarrow> bucket c key;
     cur \<leftarrow> array_get (cmap c) hash_index;
     found \<leftarrow> find_node (heap c) cur key;
     case found of
       Some a \<Rightarrow> do {
         n \<leftarrow> heap c a;
         move_to_front (c\<lparr>heap := (heap c)(a \<mapsto> n\<lparr>nval := v\<rparr>)\<rparr>) a }
     | None \<Rightarrow> do {
         (a, c) \<leftarrow> push_front c key v;
         c \<leftarrow> evict c;
         m \<leftarrow> array_set (cmap c) hash_index (Some a);
         Some (c\<lparr>cmap := m\<rparr>) } })"

definition get_cache :: "lru_cache \<Rightarrow> string option \<Rightarrow> (int \<times> lru_cache) option" where
  "get_cache c key = (case key of None \<Rightarrow> Some (-1, c) | Some key \<Rightarrow> do {
     hash_index \<leftarrow> bucket c key;
     cur \<leftarrow> array_get (cmap c) hash_index;
     found \<leftarrow> find_node (heap c) cur key;
     case found of None \<Rightarrow> Some (-1, c)
     | Some a \<Rightarrow> do {
         c \<leftarrow> move_to_front c a;
         n \<leftarrow> heap c a;
         Some (nval n, c) } })"

end
