(* ===== verification/HashTable.thy ===== *)
theory HashTable
  imports LruCache
begin

text \<open>
  The string hash table of \<open>lib/hash_table.c\<close>: one cell per bucket, a value 0 means empty, a
  collision replaces what is there. \<open>get_hash\<close> is the same DJB2 code as \<open>djb2_hash\<close> of the
  cache. A cell's key is \<open>None\<close> for a null pointer; comparing with it is undefined.
\<close>

section \<open>Data and operations\<close>

record hash_table =
  hkeys :: "string option list"
  hvalues :: "int list"
  hsize :: "64 word"

definition get_hash :: "string \<Rightarrow> 64 word" where
  "get_hash s = foldl (\<lambda>hash c. (push_bit 5 hash + hash) + word_of_int (schar c)) 5381 s"

text \<open>\<open>int hash_index = hash % size\<close>: a 64-bit remainder stored in 32 bits.\<close>

definition hash_index :: "hash_table \<Rightarrow> string \<Rightarrow> int option" where
  "hash_index t key =
     (if hsize t = 0 then None
      else Some (signed_take_bit 31 (uint (get_hash key mod hsize t))))"

definition hash_find :: "hash_table \<Rightarrow> string \<Rightarrow> int option" where
  "hash_find t key = do {
     i \<leftarrow> hash_index t key;
     v \<leftarrow> array_get (hvalues t) i;
     if v \<noteq> 0 then do {
       k \<leftarrow> array_get (hkeys t) i;
       k \<leftarrow> k;
       if k = key then Some v else Some (-1) }
     else Some (-1) }"

definition hash_insert :: "hash_table \<Rightarrow> string \<Rightarrow> int \<Rightarrow> hash_table option" where
  "hash_insert t key v = do {
     i \<leftarrow> hash_index t key;
     vs \<leftarrow> array_set (hvalues t) i v;
     ks \<leftarrow> array_set (hkeys t) i (Some key);
     Some (t\<lparr>hvalues := vs, hkeys := ks\<rparr>) }"

definition hash_remove :: "hash_table \<Rightarrow> string \<Rightarrow> hash_table option" where
  "hash_remove t key = do {
     i \<leftarrow> hash_index t key;
     vs \<leftarrow> array_set (hvalues t) i 0;
     ks \<leftarrow> array_set (hkeys t) i None;
     Some (t\<lparr>hvalues := vs, hkeys := ks\<rparr>) }"

definition init_hash_table :: "64 word \<Rightarrow> hash_table" where
  "init_hash_table n = \<lparr>hkeys = replicate (unat n) None, hvalues = replicate (unat n) 0, hsize = n\<rparr>"

section \<open>What the table stands for\<close>

definition ht_ok :: "hash_table \<Rightarrow> bool" where
  "ht_ok t \<longleftrightarrow> 0 < unat (hsize t) \<and> unat (hsize t) < 2 ^ 31 \<and>
     length (hkeys t) = unat (hsize t) \<and> length (hvalues t) = unat (hsize t) \<and>
     (\<forall>i < unat (hsize t). hvalues t ! i \<noteq> 0 \<longrightarrow> hkeys t ! i \<noteq> None)"

definition ht_slot :: "hash_table \<Rightarrow> string \<Rightarrow> nat" where
  "ht_slot t key = unat (get_hash key mod hsize t)"

definition lookup :: "hash_table \<Rightarrow> string \<Rightarrow> int" where
  "lookup t key =
     (if hvalues t ! ht_slot t key \<noteq> 0 \<and> hkeys t ! ht_slot t key = Some key
      then hvalues t ! ht_slot t key else -1)"

lemma ht_slot_range: "ht_ok t \<Longrightarrow> ht_slot t key < unat (hsize t)"
proof -
  assume "ht_ok t"
  then have "0 < unat (hsize t)" unfolding ht_ok_def by blast
  then show ?thesis by (simp add: ht_slot_def unat_mod)
qed

lemma ht_slot_cells [simp]: "ht_slot (t\<lparr>hvalues := vs, hkeys := ks\<rparr>) key = ht_slot t key"
  by (simp add: ht_slot_def)

lemma hash_index_slot: "ht_ok t \<Longrightarrow> hash_index t key = Some (int (ht_slot t key))"
proof -
  assume ok: "ht_ok t"
  have "uint (get_hash key mod hsize t) = int (ht_slot t key)" by (simp add: ht_slot_def)
  moreover have "ht_slot t key < 2 ^ 31"
    using ht_slot_range [OF ok, of key] ok unfolding ht_ok_def by (meson less_trans)
  then have "int (ht_slot t key) < 2 ^ 31" by simp
  then have "signed_take_bit 31 (int (ht_slot t key)) = int (ht_slot t key)"
    by (intro signed_take_bit_int_eq_self) auto
  moreover have "hsize t \<noteq> 0" using ok by (auto simp: ht_ok_def)
  ultimately show ?thesis by (simp add: hash_index_def)
qed

lemma ht_cells:
  assumes "ht_ok t"
  shows "array_get (hvalues t) (int (ht_slot t key)) = Some (hvalues t ! ht_slot t key)"
    "array_get (hkeys t) (int (ht_slot t key)) = Some (hkeys t ! ht_slot t key)"
    "array_set (hvalues t) (int (ht_slot t key)) v = Some ((hvalues t)[ht_slot t key := v])"
    "array_set (hkeys t) (int (ht_slot t key)) k = Some ((hkeys t)[ht_slot t key := k])"
  using ht_slot_range [OF assms, of key] assms
  by (simp_all add: array_get_def array_set_def ht_ok_def)

lemma hash_find_lookup: "ht_ok t \<Longrightarrow> hash_find t key = Some (lookup t key)"
proof -
  assume ok: "ht_ok t"
  then have "hvalues t ! ht_slot t key \<noteq> 0 \<longrightarrow> (\<exists>k. hkeys t ! ht_slot t key = Some k)"
    using ht_slot_range [OF ok, of key] by (auto simp: ht_ok_def)
  then show ?thesis
    using ht_cells [OF ok] by (auto simp: hash_find_def hash_index_slot [OF ok] lookup_def)
qed

section \<open>Properties\<close>

text \<open>
  C36: after an insertion the key is found with its value (a value 0 counts as absent), a key
  of the same bucket is not found, every other key is found as before, and the table stays
  well formed.
\<close>

theorem hash_find_after_insert:
  assumes "ht_ok t"
  shows "\<exists>t'. hash_insert t k v = Some t' \<and> ht_ok t' \<and>
    (\<forall>k'. hash_find t' k' =
      (if k' = k then Some (if v \<noteq> 0 then v else -1)
       else if ht_slot t k' = ht_slot t k then Some (-1) else hash_find t k'))"
proof -
  let ?i = "ht_slot t k"
  let ?t = "t\<lparr>hvalues := (hvalues t)[?i := v], hkeys := (hkeys t)[?i := Some k]\<rparr>"
  have i: "?i < length (hvalues t)" "?i < length (hkeys t)"
    using ht_slot_range [OF assms, of k] assms by (simp_all add: ht_ok_def)
  have ok: "ht_ok ?t" using assms i by (auto simp: ht_ok_def nth_list_update)
  have "lookup ?t k' = (if k' = k then (if v \<noteq> 0 then v else -1)
      else if ht_slot t k' = ?i then -1 else lookup t k')" for k'
    using i by (auto simp: lookup_def nth_list_update)
  then have "hash_find ?t k' =
      (if k' = k then Some (if v \<noteq> 0 then v else -1)
       else if ht_slot t k' = ?i then Some (-1) else hash_find t k')" for k'
    by (simp add: hash_find_lookup [OF ok] hash_find_lookup [OF assms])
  moreover have "hash_insert t k v = Some ?t"
    by (simp add: hash_insert_def hash_index_slot [OF assms] ht_cells [OF assms])
  ultimately show ?thesis using ok by blast
qed

lemma init_hash_table_ok: "ht_ok (init_hash_table 5)"
  by (simp add: ht_ok_def init_hash_table_def)

theorem hash_find_after_insert_witness:
  "\<exists>t'. hash_insert (init_hash_table 5) ''A'' 7 = Some t' \<and> hash_find t' ''A'' = Some 7"
  using hash_find_after_insert [OF init_hash_table_ok, of "''A''" 7] by auto

end
