(* ===== verification/DiskLayer.thy ===== *)
theory DiskLayer
  imports Prelude
begin

text \<open>
  The disk layer (\<open>lib/disk_layer.c\<close>, \<open>include/disk_layer.h\<close>) in the build of the
  Makefile (\<open>-DDISK\<close>): the volume is a block device reached through \<open>open\<close>,
  \<open>lseek\<close>, \<open>read\<close> and \<open>write\<close>. What the kernel answers to those calls is a
  parameter of the model, held in the fields \<open>dev_open\<close>, \<open>dev_lseek\<close>, \<open>dev_read\<close> and
  \<open>dev_write\<close>; \<open>blocks\<close> is the content of the device, block by block. A call of \<open>read\<close>
  that delivers \<open>BLOCK_SIZE\<close> bytes delivers the block at that offset, a call of
  \<open>write\<close> that takes \<open>BLOCK_SIZE\<close> bytes stores them; a call that fails leaves the
  device as it was. Every caller passes a buffer of its own, so the null checks of the buffer
  argument never fire and have no counterpart here.
\<close>

section \<open>Geometry\<close>

definition FS_SIZE :: int where "FS_SIZE = 1073741824"
definition BLOCK_SIZE :: int where "BLOCK_SIZE = 4096"
definition BLOCK_COUNT :: int where "BLOCK_COUNT = FS_SIZE div BLOCK_SIZE"

lemma FS_SIZE_val [geometry]: "FS_SIZE = 1073741824"
  by (simp add: FS_SIZE_def)

lemma BLOCK_SIZE_val [geometry]: "BLOCK_SIZE = 4096"
  by (simp add: BLOCK_SIZE_def)

lemma BLOCK_COUNT_val [geometry]: "BLOCK_COUNT = 262144"
  by (simp add: BLOCK_COUNT_def FS_SIZE_def BLOCK_SIZE_def)

section \<open>State and operations\<close>

record disk =
  m_ptr :: int
  dev_open :: int
  dev_lseek :: "int \<Rightarrow> int \<Rightarrow> int"
  dev_read :: "int \<Rightarrow> int \<Rightarrow> int"
  dev_write :: "int \<Rightarrow> int \<Rightarrow> int"
  dev_close :: "int \<Rightarrow> int"
  blocks :: "int \<Rightarrow> buffer"

definition read_block :: "'a disk_scheme \<Rightarrow> int \<Rightarrow> buffer option" where
  "read_block d block_id =
     (if block_id < 0 \<or> block_id \<ge> BLOCK_COUNT then None
      else let offset = BLOCK_SIZE * block_id in
        if dev_lseek d (m_ptr d) offset = -1 then None
        else if dev_read d (m_ptr d) offset \<noteq> BLOCK_SIZE then None
        else Some (blocks d block_id))"

definition write_block :: "'a disk_scheme \<Rightarrow> int \<Rightarrow> buffer \<Rightarrow> bool \<times> 'a disk_scheme" where
  "write_block d block_id buff =
     (if block_id < 0 \<or> block_id \<ge> BLOCK_COUNT then (False, d)
      else let offset = BLOCK_SIZE * block_id in
        if dev_lseek d (m_ptr d) offset = -1 then (False, d)
        else if dev_write d (m_ptr d) offset \<noteq> BLOCK_SIZE then (False, d)
        else (True, d\<lparr>blocks := (blocks d)(block_id := buff)\<rparr>))"

definition alloc_memory :: "'a disk_scheme \<Rightarrow> (bool \<times> 'a disk_scheme) option" where
  "alloc_memory d =
     (let d = d\<lparr>m_ptr := dev_open d\<rparr> in
      if m_ptr d = -1 then Some (False, d)
      else do {
        r \<leftarrow> for_loop 0 BLOCK_COUNT
               (\<lambda>i d. case write_block d i zero_buf of (ok, d) \<Rightarrow>
                  if \<not> ok then Some (Return (False, d)) else Some (Next d)) d;
        case r of Inl d \<Rightarrow> Some (True, d) | Inr x \<Rightarrow> Some x })"

definition dealloc_memory :: "'a disk_scheme \<Rightarrow> bool" where
  "dealloc_memory d = (if dev_close d (m_ptr d) \<noteq> 0 then False else True)"

section \<open>Behaviour on a device that works\<close>

definition block_ok :: "int \<Rightarrow> bool" where
  "block_ok i \<longleftrightarrow> 0 \<le> i \<and> i < BLOCK_COUNT"

definition readable :: "'a disk_scheme \<Rightarrow> int \<Rightarrow> bool" where
  "readable d i \<longleftrightarrow> dev_lseek d (m_ptr d) (BLOCK_SIZE * i) \<noteq> -1 \<and>
     dev_read d (m_ptr d) (BLOCK_SIZE * i) = BLOCK_SIZE"

definition writable :: "'a disk_scheme \<Rightarrow> int \<Rightarrow> bool" where
  "writable d i \<longleftrightarrow> dev_lseek d (m_ptr d) (BLOCK_SIZE * i) \<noteq> -1 \<and>
     dev_write d (m_ptr d) (BLOCK_SIZE * i) = BLOCK_SIZE"

text \<open>The documented behaviour of a device that is present: every call on it succeeds.\<close>

definition device_works :: "'a disk_scheme \<Rightarrow> bool" where
  "device_works d \<longleftrightarrow> dev_open d \<noteq> -1 \<and>
     (\<forall>off \<ge> 0. dev_lseek d (dev_open d) off \<noteq> -1 \<and>
        dev_read d (dev_open d) off = BLOCK_SIZE \<and> dev_write d (dev_open d) off = BLOCK_SIZE)"

text \<open>The volume is open on such a device.\<close>

definition healthy :: "'a disk_scheme \<Rightarrow> bool" where
  "healthy d \<longleftrightarrow> device_works d \<and> m_ptr d = dev_open d"

lemma read_block_cases:
  "read_block d i = (if block_ok i \<and> readable d i then Some (blocks d i) else None)"
  by (auto simp: read_block_def block_ok_def readable_def Let_def)

lemma write_block_cases:
  "write_block d i b =
     (if block_ok i \<and> writable d i then (True, d\<lparr>blocks := (blocks d)(i := b)\<rparr>) else (False, d))"
  by (auto simp: write_block_def block_ok_def writable_def Let_def)

lemma healthy_readable [simp]: "healthy d \<Longrightarrow> block_ok i \<Longrightarrow> readable d i"
  by (simp add: healthy_def device_works_def readable_def block_ok_def geometry)

lemma healthy_writable [simp]: "healthy d \<Longrightarrow> block_ok i \<Longrightarrow> writable d i"
  by (simp add: healthy_def device_works_def writable_def block_ok_def geometry)

lemma read_block_healthy:
  "healthy d \<Longrightarrow> block_ok i \<Longrightarrow> read_block d i = Some (blocks d i)"
  by (simp add: read_block_cases)

lemma write_block_healthy:
  "healthy d \<Longrightarrow> block_ok i \<Longrightarrow> write_block d i b = (True, d\<lparr>blocks := (blocks d)(i := b)\<rparr>)"
  by (simp add: write_block_cases)

lemma read_block_out_of_range [simp]: "\<not> block_ok i \<Longrightarrow> read_block d i = None"
  by (simp add: read_block_cases)

lemma write_block_out_of_range [simp]: "\<not> block_ok i \<Longrightarrow> write_block d i b = (False, d)"
  by (simp add: write_block_cases)

lemma block_ok_0 [simp]: "block_ok 0"
  by (simp add: block_ok_def geometry)

lemma device_works_blocks [simp]: "device_works (d\<lparr>blocks := bs\<rparr>) = device_works d"
  by (simp add: device_works_def)

lemma healthy_blocks [simp]: "healthy (d\<lparr>blocks := bs\<rparr>) = healthy d"
  by (simp add: healthy_def)

lemma readable_blocks [simp]: "readable (d\<lparr>blocks := bs\<rparr>) i = readable d i"
  by (simp add: readable_def)

lemma writable_blocks [simp]: "writable (d\<lparr>blocks := bs\<rparr>) i = writable d i"
  by (simp add: writable_def)

section \<open>The interface the upper layers rely on\<close>

text \<open>
  What a store of numbered blocks promises: a valid address can be read and written, a write
  is seen by the reads of that address and by no other, an invalid address is refused and
  changes nothing. The block layer's access to inode blocks and the file layer's access to
  data blocks are clients of this interface.
\<close>

definition rmw ::
  "('s \<Rightarrow> int \<Rightarrow> buffer option) \<Rightarrow> ('s \<Rightarrow> int \<Rightarrow> buffer \<Rightarrow> bool \<times> 's) \<Rightarrow> 's \<Rightarrow> int \<Rightarrow>
   (buffer \<Rightarrow> buffer) \<Rightarrow> bool \<times> 's" where
  "rmw rd wr s i f = (case rd s i of None \<Rightarrow> (False, s) | Some b \<Rightarrow> wr s i (f b))"

locale block_store =
  fixes rd :: "'s \<Rightarrow> int \<Rightarrow> buffer option"
    and wr :: "'s \<Rightarrow> int \<Rightarrow> buffer \<Rightarrow> bool \<times> 's"
    and ok :: "'s \<Rightarrow> bool"
    and addr :: "int \<Rightarrow> bool"
  assumes rd_valid: "ok s \<Longrightarrow> addr i \<Longrightarrow> \<exists>b. rd s i = Some b"
    and wr_valid: "ok s \<Longrightarrow> addr i \<Longrightarrow> \<exists>s'. wr s i b = (True, s') \<and> ok s'"
    and rd_wr: "ok s \<Longrightarrow> wr s i b = (True, s') \<Longrightarrow> addr j \<Longrightarrow>
      rd s' j = (if j = i then Some b else rd s j)"
    and rd_invalid: "\<not> addr i \<Longrightarrow> rd s i = None"
    and wr_invalid: "\<not> addr i \<Longrightarrow> wr s i b = (False, s)"
begin

lemma wr_ok: "ok s \<Longrightarrow> wr s i b = (r, s') \<Longrightarrow> ok s'"
  by (cases "addr i") (use wr_valid [of s i b] wr_invalid [of i s b] in auto)

lemma wr_true_iff: "ok s \<Longrightarrow> fst (wr s i b) \<longleftrightarrow> addr i"
  by (cases "addr i") (use wr_valid [of s i b] wr_invalid [of i s b] in auto)

lemma last_write_wins:
  assumes "ok s" "wr s i b = (True, s1)" "wr s1 i c = (True, s2)" "addr j"
  shows "rd s2 j = (if j = i then Some c else rd s j)"
  using assms wr_ok [of s i b True s1] rd_wr [of s i b s1 j] rd_wr [of s1 i c s2 j] by simp

lemma writes_commute:
  assumes "ok s" "i \<noteq> k" "addr j"
    and "wr s i b = (True, s1)" "wr s1 k c = (True, s2)"
    and "wr s k c = (True, t1)" "wr t1 i b = (True, t2)"
  shows "rd s2 j = rd t2 j"
proof -
  have ok: "ok s1" "ok t1" using wr_ok assms by blast+
  from rd_wr [OF ok(1) assms(5,3)] rd_wr [OF assms(1,4,3)]
    rd_wr [OF ok(2) assms(7,3)] rd_wr [OF assms(1,6,3)] assms(2)
  show ?thesis by auto
qed

lemma rmw_valid:
  assumes "ok s" "addr i"
  obtains b s' where "rd s i = Some b" "rmw rd wr s i f = (True, s')" "ok s'"
    "\<And>j. addr j \<Longrightarrow> rd s' j = (if j = i then Some (f b) else rd s j)"
proof -
  from rd_valid [OF assms] obtain b where b: "rd s i = Some b" ..
  from wr_valid [OF assms] obtain s' where s': "wr s i (f b) = (True, s')" "ok s'" by blast
  from b s' rd_wr [OF assms(1) s'(1)] show thesis by (intro that [of b s']) (auto simp: rmw_def)
qed

lemma rmw_invalid: "\<not> addr i \<Longrightarrow> rmw rd wr s i f = (False, s)"
  by (simp add: rmw_def rd_invalid)

end

interpretation disk_store: block_store read_block write_block healthy block_ok
  by unfold_locales (auto simp: read_block_cases write_block_cases split: if_splits)

section \<open>Properties\<close>

text \<open>
  A block that was written is read back as written, and no other block changes; what the
  device refuses to read stays unreadable.
\<close>

theorem read_after_write:
  "write_block d i b = (True, d') \<Longrightarrow>
   read_block d' j = (if j = i then (if readable d i then Some b else None) else read_block d j)"
  by (auto simp: read_block_cases write_block_cases split: if_splits)

text \<open>A small volume for closed examples: a device that accepts everything, filled with 255s.\<close>

definition sample_disk :: disk where
  "sample_disk = \<lparr>m_ptr = 3, dev_open = 3, dev_lseek = (\<lambda>_ off. off),
     dev_read = (\<lambda>_ _. 4096), dev_write = (\<lambda>_ _. 4096), dev_close = (\<lambda>_. 0),
     blocks = (\<lambda>_ _. 255)\<rparr>"

lemma sample_disk_works: "device_works sample_disk" "healthy sample_disk"
  by (simp_all add: sample_disk_def device_works_def healthy_def geometry)

theorem read_after_write_witness:
  "\<exists>d'. write_block sample_disk 7 zero_buf = (True, d') \<and> read_block d' 7 = Some zero_buf"
proof -
  have w: "write_block sample_disk 7 zero_buf =
      (True, sample_disk\<lparr>blocks := (blocks sample_disk)(7 := zero_buf)\<rparr>)"
    using sample_disk_works by (simp add: write_block_cases block_ok_def geometry)
  from read_after_write [OF w, of 7] sample_disk_works w show ?thesis
    by (simp add: block_ok_def geometry)
qed

lemma alloc_loop:
  assumes "i \<le> BLOCK_COUNT" "0 \<le> i" "\<forall>j. block_ok j \<longrightarrow> writable d j"
  shows "for_loop i BLOCK_COUNT
      (\<lambda>i d. case write_block d i zero_buf of (ok, d) \<Rightarrow>
         if \<not> ok then Some (Return (False, d)) else Some (Next d)) d =
    Some (Inl (d\<lparr>blocks := (\<lambda>j. if i \<le> j \<and> j < BLOCK_COUNT then zero_buf else blocks d j)\<rparr>))"
  using assms
proof (induction "nat (BLOCK_COUNT - i)" arbitrary: i d)
  case 0
  then have "i = BLOCK_COUNT" by simp
  moreover have "(\<lambda>j. if BLOCK_COUNT \<le> j \<and> j < BLOCK_COUNT then zero_buf else blocks d j) = blocks d"
    by (rule ext) auto
  ultimately show ?case by simp
next
  case (Suc n)
  let ?d = "d\<lparr>blocks := (blocks d)(i := zero_buf)\<rparr>"
  have i: "block_ok i" "i < BLOCK_COUNT" using Suc by (auto simp: block_ok_def)
  have "(\<lambda>j. if i + 1 \<le> j \<and> j < BLOCK_COUNT then zero_buf else blocks ?d j) =
        (\<lambda>j. if i \<le> j \<and> j < BLOCK_COUNT then zero_buf else blocks d j)"
    using i by auto
  with i Suc.prems Suc.hyps(1) [of "i + 1" ?d] Suc.hyps(2) show ?case
    by (simp add: for_loop_next [where s' = ?d] write_block_cases)
qed

text \<open>
  Starting the volume on a device that works succeeds, and afterwards every block of the
  volume reads as zeros.
\<close>

theorem alloc_memory_zeroes:
  assumes "device_works d"
  shows "\<exists>d'. alloc_memory d = Some (True, d') \<and> healthy d' \<and>
    (\<forall>i. read_block d' i = (if block_ok i then Some zero_buf else None))"
proof -
  let ?d = "d\<lparr>m_ptr := dev_open d\<rparr>"
  have h: "healthy ?d" using assms by (simp add: healthy_def device_works_def)
  then have w: "\<forall>j. block_ok j \<longrightarrow> writable ?d j" by simp
  have "m_ptr ?d \<noteq> -1" using assms by (simp add: device_works_def)
  then show ?thesis
    using alloc_loop [OF _ _ w, of 0] h
    by (auto simp: alloc_memory_def Let_def read_block_cases block_ok_def geometry)
qed

theorem alloc_memory_zeroes_witness:
  "\<exists>d'. alloc_memory sample_disk = Some (True, d') \<and> healthy d' \<and>
    (\<forall>i. read_block d' i = (if block_ok i then Some zero_buf else None))"
  by (rule alloc_memory_zeroes) (rule sample_disk_works)

lemma alloc_memory_fails:
  assumes "block_ok k" "\<not> writable (d\<lparr>m_ptr := dev_open d\<rparr>) k"
  shows "\<exists>d'. alloc_memory d = Some (False, d')"
proof -
  let ?d = "d\<lparr>m_ptr := dev_open d\<rparr>"
  let ?body = "\<lambda>i d. case write_block d i zero_buf of (ok, d) \<Rightarrow>
         if \<not> ok then Some (Return (False, d)) else Some (Next d)"
  note k = assms
  let ?I = "\<lambda>i d. i \<le> k \<and> 0 \<le> i \<and> writable d = writable ?d"
  have "(\<exists>s'. for_loop 0 BLOCK_COUNT ?body ?d = Some (Inl s') \<and> (?I BLOCK_COUNT s' \<or> False)) \<or>
        (\<exists>r. for_loop 0 BLOCK_COUNT ?body ?d = Some (Inr r) \<and> \<not> fst r)"
  proof (rule for_loop_rule)
    show "?I 0 ?d" "0 \<le> BLOCK_COUNT" using k by (auto simp: block_ok_def geometry)
  next
    fix j s
    assume j: "0 \<le> j" "j < BLOCK_COUNT" and I: "?I j s"
    show "(\<exists>s'. ?body j s = Some (Next s') \<and> ?I (j + 1) s') \<or>
          (\<exists>s'. ?body j s = Some (Break s') \<and> False) \<or>
          (\<exists>r. ?body j s = Some (Return r) \<and> \<not> fst r)"
    proof (cases "writable ?d j")
      case True
      with k I have "j \<noteq> k" by auto
      with True j I show ?thesis by (auto simp: write_block_cases block_ok_def fun_eq_iff)
    next
      case False
      with j I show ?thesis by (auto simp: write_block_cases)
    qed
  qed
  then show ?thesis using k by (auto simp: alloc_memory_def Let_def block_ok_def)
qed

text \<open>
  If the device cannot be opened, or refuses to store some block, starting the volume
  reports failure; it never reports success on a volume that is not wiped.
\<close>

theorem alloc_memory_reports_failure:
  assumes "dev_open d = -1 \<or> (\<exists>i. block_ok i \<and> \<not> writable (d\<lparr>m_ptr := dev_open d\<rparr>) i)"
  shows "\<exists>d'. alloc_memory d = Some (False, d')"
proof (cases "dev_open d = -1")
  case True
  then show ?thesis by (simp add: alloc_memory_def)
next
  case False
  with assms show ?thesis using alloc_memory_fails by blast
qed

theorem alloc_memory_reports_failure_witness:
  "\<exists>d'. alloc_memory (sample_disk\<lparr>dev_write := (\<lambda>_ off. if off = 40960 then 100 else 4096)\<rparr>)
        = Some (False, d')"
  by (rule alloc_memory_reports_failure, rule disjI2, rule exI [of _ 10])
     (simp add: sample_disk_def writable_def block_ok_def geometry)

end
