(* ===== verification/BlockTypes.thy ===== *)
theory BlockTypes
  imports DiskLayer
begin

text \<open>
  The data of the block layer (\<open>include/block_layer.h\<close>): its constants, \<open>struct superBlock\<close>
  and \<open>struct iNode\<close> as records, and how the compiler lays them out in a block (x86-64: a
  \<open>ssize_t\<close> or \<open>time_t\<close> takes 8 bytes, \<open>mode_t\<close> 4, \<open>bool\<close> 1; \<open>sizeof(struct iNode)\<close>
  is 192). Padding bytes are never read by the code; storing a record leaves them alone.
  The global \<open>super_block\<close> pointer is part of the state: \<open>None\<close> while it is \<open>NULL\<close>.
\<close>

section \<open>Constants\<close>

definition ADDRESS_SIZE :: int where "ADDRESS_SIZE = 8"
definition INODE_B_COUNT :: int where "INODE_B_COUNT = BLOCK_COUNT div 10"
definition DATA_B_COUNT :: int where "DATA_B_COUNT = BLOCK_COUNT - INODE_B_COUNT - 1"
definition DIRECT_B_COUNT :: int where "DIRECT_B_COUNT = 10"
definition DBLOCKS_PER_BLOCK :: int where "DBLOCKS_PER_BLOCK = BLOCK_SIZE div ADDRESS_SIZE"
definition FREE_LIST_BLOCKS :: int where
  "FREE_LIST_BLOCKS = DATA_B_COUNT div DBLOCKS_PER_BLOCK + 1"
definition SIZEOF_INODE :: int where "SIZEOF_INODE = 192"

lemma block_geometry [geometry]:
  "ADDRESS_SIZE = 8" "INODE_B_COUNT = 26214" "DATA_B_COUNT = 235929" "DIRECT_B_COUNT = 10"
  "DBLOCKS_PER_BLOCK = 512" "FREE_LIST_BLOCKS = 461" "SIZEOF_INODE = 192"
  by (simp_all add: ADDRESS_SIZE_def INODE_B_COUNT_def DATA_B_COUNT_def DIRECT_B_COUNT_def
      DBLOCKS_PER_BLOCK_def FREE_LIST_BLOCKS_def SIZEOF_INODE_def BLOCK_COUNT_val BLOCK_SIZE_val)

section \<open>Structures\<close>

record superBlock =
  inode_count :: int
  latest_inum :: int
  inodes_per_block :: int
  free_list_head :: int

record iNode =
  direct_blocks :: "int list"
  single_indirect :: int
  double_indirect :: int
  triple_indirect :: int
  link_count :: int
  file_size :: int
  num_blocks :: int
  allocated :: bool
  user_id :: int
  group_id :: int
  mode :: "32 word"
  access_time :: int
  creation_time :: int
  modification_time :: int
  status_change_time :: int

record bstate = disk +
  super_block :: "superBlock option"

section \<open>Layout\<close>

text \<open>An array of \<open>n\<close> \<open>ssize_t\<close> values.\<close>

primrec ld_array :: "buffer \<Rightarrow> int \<Rightarrow> nat \<Rightarrow> int list" where
  "ld_array b p 0 = []"
| "ld_array b p (Suc n) = ld_s64 b p # ld_array b (p + 8) n"

primrec st_array :: "buffer \<Rightarrow> int \<Rightarrow> int list \<Rightarrow> buffer" where
  "st_array b p [] = b"
| "st_array b p (v # vs) = st_s64 (st_array b (p + 8) vs) p v"

definition put_superblock :: "buffer \<Rightarrow> superBlock \<Rightarrow> buffer" where
  "put_superblock b sb =
     st_s64 (st_s64 (st_s64 (st_s64 b 0 (inode_count sb)) 8 (latest_inum sb))
       16 (inodes_per_block sb)) 24 (free_list_head sb)"

definition get_superblock :: "buffer \<Rightarrow> superBlock" where
  "get_superblock b = \<lparr>inode_count = ld_s64 b 0, latest_inum = ld_s64 b 8,
     inodes_per_block = ld_s64 b 16, free_list_head = ld_s64 b 24\<rparr>"

definition get_inode :: "buffer \<Rightarrow> int \<Rightarrow> iNode" where
  "get_inode b p =
     \<lparr>direct_blocks = ld_array b p 10,
      single_indirect = ld_s64 b (p + 80),
      double_indirect = ld_s64 b (p + 88),
      triple_indirect = ld_s64 b (p + 96),
      link_count = ld_s64 b (p + 104),
      file_size = ld_s64 b (p + 112),
      num_blocks = ld_s64 b (p + 120),
      allocated = ld_bool b (p + 128),
      user_id = ld_s64 b (p + 136),
      group_id = ld_s64 b (p + 144),
      mode = ld_u32 b (p + 152),
      access_time = ld_s64 b (p + 160),
      creation_time = ld_s64 b (p + 168),
      modification_time = ld_s64 b (p + 176),
      status_change_time = ld_s64 b (p + 184)\<rparr>"

definition put_inode :: "buffer \<Rightarrow> int \<Rightarrow> iNode \<Rightarrow> buffer" where
  "put_inode b p i =
    (let b = st_array b p (direct_blocks i);
         b = st_s64 b (p + 80) (single_indirect i);
         b = st_s64 b (p + 88) (double_indirect i);
         b = st_s64 b (p + 96) (triple_indirect i);
         b = st_s64 b (p + 104) (link_count i);
         b = st_s64 b (p + 112) (file_size i);
         b = st_s64 b (p + 120) (num_blocks i);
         b = st_bool b (p + 128) (allocated i);
         b = st_s64 b (p + 136) (user_id i);
         b = st_s64 b (p + 144) (group_id i);
         b = st_u32 b (p + 152) (mode i);
         b = st_s64 b (p + 160) (access_time i);
         b = st_s64 b (p + 168) (creation_time i);
         b = st_s64 b (p + 176) (modification_time i)
     in st_s64 b (p + 184) (status_change_time i))"

text \<open>The values a C \<open>struct iNode\<close> can hold: ten direct slots, every number 64 bits wide.\<close>

definition wf_inode :: "iNode \<Rightarrow> bool" where
  "wf_inode i \<longleftrightarrow> length (direct_blocks i) = 10 \<and> list_all in_s64 (direct_blocks i) \<and>
     in_s64 (single_indirect i) \<and> in_s64 (double_indirect i) \<and> in_s64 (triple_indirect i) \<and>
     in_s64 (link_count i) \<and> in_s64 (file_size i) \<and> in_s64 (num_blocks i) \<and>
     in_s64 (user_id i) \<and> in_s64 (group_id i) \<and> in_s64 (access_time i) \<and>
     in_s64 (creation_time i) \<and> in_s64 (modification_time i) \<and> in_s64 (status_change_time i)"

definition wf_superblock :: "superBlock \<Rightarrow> bool" where
  "wf_superblock sb \<longleftrightarrow> in_s64 (inode_count sb) \<and> in_s64 (latest_inum sb) \<and>
     in_s64 (inodes_per_block sb) \<and> in_s64 (free_list_head sb)"

section \<open>Layout laws\<close>

lemma ld_array_length [simp]: "length (ld_array b p n) = n"
  by (induction n arbitrary: p) auto

lemma ld_array_nth: "i < n \<Longrightarrow> ld_array b p n ! i = ld_s64 b (p + 8 * int i)"
  by (induction n arbitrary: p i) (auto simp: nth_Cons algebra_simps split: nat.splits)

lemma ld_array_in_s64: "list_all in_s64 (ld_array b p n)"
  by (induction n arbitrary: p) auto

lemma ld_array_cong:
  "(\<And>i. p \<le> i \<Longrightarrow> i < p + 8 * int n \<Longrightarrow> b i = c i) \<Longrightarrow> ld_array b p n = ld_array c p n"
proof (induction n arbitrary: p)
  case 0
  then show ?case by simp
next
  case (Suc n)
  have "ld_s64 b p = ld_s64 c p" using Suc.prems by (intro ld_s64_cong) auto
  moreover have "ld_array b (p + 8) n = ld_array c (p + 8) n"
    using Suc.prems by (intro Suc.IH) auto
  ultimately show ?case by simp
qed

lemma st_array_other: "q < p \<or> p + 8 * int (length vs) \<le> q \<Longrightarrow> st_array b p vs q = b q"
  by (induction vs arbitrary: p) (auto simp: st_s64_apply_other)

lemma ld_st_array: "list_all in_s64 vs \<Longrightarrow> ld_array (st_array b p vs) p (length vs) = vs"
proof (induction vs arbitrary: p)
  case Nil
  then show ?case by simp
next
  case (Cons v vs)
  have "ld_array (st_s64 (st_array b (p + 8) vs) p v) (p + 8) (length vs) =
        ld_array (st_array b (p + 8) vs) (p + 8) (length vs)"
    by (rule ld_array_cong) (auto simp: st_s64_apply_other)
  with Cons show ?case by (simp add: ld_st_s64_same)
qed

text \<open>Loads across stores of other widths.\<close>

lemma ld_s64_st_u32 [mem_simps]:
  "p + 4 \<le> q \<or> q + 8 \<le> p \<Longrightarrow> ld_s64 (st_u32 b p v) q = ld_s64 b q"
  by (rule ld_s64_cong) (auto simp: st_u32_apply_other)

lemma ld_s64_st_bool [mem_simps]:
  "p + 1 \<le> q \<or> q + 8 \<le> p \<Longrightarrow> ld_s64 (st_bool b p v) q = ld_s64 b q"
  by (rule ld_s64_cong) (auto simp: st_bool_apply_other)

lemma ld_u32_st_s64 [mem_simps]:
  "p + 8 \<le> q \<or> q + 4 \<le> p \<Longrightarrow> ld_u32 (st_s64 b p v) q = ld_u32 b q"
  by (rule ld_u32_cong) (auto simp: st_s64_apply_other)

lemma ld_u32_st_bool [mem_simps]:
  "p + 1 \<le> q \<or> q + 4 \<le> p \<Longrightarrow> ld_u32 (st_bool b p v) q = ld_u32 b q"
  by (rule ld_u32_cong) (auto simp: st_bool_apply_other)

lemma ld_bool_st_s64 [mem_simps]:
  "p + 8 \<le> q \<or> q < p \<Longrightarrow> ld_bool (st_s64 b p v) q = ld_bool b q"
  by (auto simp: ld_bool_def st_s64_apply_other)

lemma ld_bool_st_u32 [mem_simps]:
  "p + 4 \<le> q \<or> q < p \<Longrightarrow> ld_bool (st_u32 b p v) q = ld_bool b q"
  by (auto simp: ld_bool_def st_u32_apply_other)

lemma ld_array_st_s64 [mem_simps]:
  "p + 8 \<le> q \<or> q + 8 * int n \<le> p \<Longrightarrow> ld_array (st_s64 b p v) q n = ld_array b q n"
  by (rule ld_array_cong) (auto simp: st_s64_apply_other)

lemma ld_array_st_u32 [mem_simps]:
  "p + 4 \<le> q \<or> q + 8 * int n \<le> p \<Longrightarrow> ld_array (st_u32 b p v) q n = ld_array b q n"
  by (rule ld_array_cong) (auto simp: st_u32_apply_other)

lemma ld_array_st_bool [mem_simps]:
  "p + 1 \<le> q \<or> q + 8 * int n \<le> p \<Longrightarrow> ld_array (st_bool b p v) q n = ld_array b q n"
  by (rule ld_array_cong) (auto simp: st_bool_apply_other)

lemma get_put_superblock: "wf_superblock sb \<Longrightarrow> get_superblock (put_superblock b sb) = sb"
  by (simp add: get_superblock_def put_superblock_def wf_superblock_def mem_simps)

lemma get_put_inode: "wf_inode i \<Longrightarrow> get_inode (put_inode b p i) p = i"
  using ld_st_array [of "direct_blocks i" b p]
  by (simp add: get_inode_def put_inode_def wf_inode_def mem_simps Let_def)

lemma wf_get_inode [simp]: "wf_inode (get_inode b p)"
  by (simp add: wf_inode_def get_inode_def ld_array_in_s64)

lemma put_inode_apply_other:
  "length (direct_blocks i) = 10 \<Longrightarrow> q < p \<or> p + 192 \<le> q \<Longrightarrow> put_inode b p i q = b q"
  by (auto simp: put_inode_def Let_def mem_simps st_array_other)

lemma get_inode_cong:
  "(\<And>i. p \<le> i \<Longrightarrow> i < p + 192 \<Longrightarrow> b i = c i) \<Longrightarrow> get_inode b p = get_inode c p"
  by (auto simp: get_inode_def ld_bool_def intro!: ld_array_cong ld_s64_cong ld_u32_cong)

lemma get_put_inode_other:
  "length (direct_blocks i) = 10 \<Longrightarrow> p + 192 \<le> q \<or> q + 192 \<le> p \<Longrightarrow>
   get_inode (put_inode b p i) q = get_inode b q"
  by (rule get_inode_cong) (auto simp: put_inode_apply_other)

section \<open>Writing the super block\<close>

definition write_superblock :: "'a bstate_scheme \<Rightarrow> (bool \<times> 'a bstate_scheme) option" where
  "write_superblock s = do {
     sb \<leftarrow> super_block s;
     let buff = put_superblock zero_buf sb;
     Some (case write_block s 0 buff of (ok, s) \<Rightarrow> if \<not> ok then (False, s) else (True, s)) }"

definition init_superblock :: "'a bstate_scheme \<Rightarrow> (bool \<times> 'a bstate_scheme) option" where
  "init_superblock s =
     (let ipb = BLOCK_SIZE div SIZEOF_INODE;
          sb = \<lparr>inode_count = INODE_B_COUNT * ipb, latest_inum = 3, inodes_per_block = ipb,
                free_list_head = INODE_B_COUNT + 1\<rparr>
      in write_superblock (s\<lparr>super_block := Some sb\<rparr>))"

lemma write_superblock_healthy:
  "healthy s \<Longrightarrow> super_block s = Some sb \<Longrightarrow>
   write_superblock s =
     Some (True, s\<lparr>blocks := (blocks s)(0 := put_superblock zero_buf sb)\<rparr>)"
  by (simp add: write_superblock_def write_block_healthy Let_def)

end
