(* ===== verification/FreeList.thy ===== *)
theory FreeList
  imports BlockTypes "HOL-Library.Multiset"
begin

text \<open>
  Data blocks and the free list (\<open>init_freelist\<close>, \<open>create_new_dblock\<close>, \<open>read_dblock\<close>,
  \<open>write_dblock\<close>, \<open>free_dblock\<close> of \<open>lib/block_layer.c\<close>).

  The free list is a chain of blocks linked through their word 0, starting at
  \<open>free_list_head\<close> (0: no free block); words 1 to 511 of a chain block are either 0 or the
  number of a free block. The abstraction is the set of free blocks: the chain blocks and
  the blocks they list. \<open>fl_ok\<close> says that the chain ends, that no block is free twice, that
  free blocks are data blocks and that listed blocks are filled with zeros.
\<close>

section \<open>Operations\<close>

text \<open>Loop body: number the next block in the list block being built.\<close>

definition fill_step ::
  "int \<Rightarrow> int \<times> int \<times> buffer \<Rightarrow> (int \<times> int \<times> buffer, 'r) ctl option" where
  "fill_step = (\<lambda>j (offset, block_id, buff).
     let offset = offset + ADDRESS_SIZE; block_id = block_id + 1 in
     if block_id \<ge> BLOCK_COUNT then Some (Next (offset, block_id, st_s64 buff offset 0))
     else Some (Next (offset, block_id, st_s64 buff offset block_id)))"

text \<open>Loop body: build one list block and write it.\<close>

definition freelist_step ::
  "int \<Rightarrow> int \<times> 'a bstate_scheme \<Rightarrow>
   (int \<times> 'a bstate_scheme, bool \<times> 'a bstate_scheme) ctl option" where
  "freelist_step = (\<lambda>i (block_id, s). do {
     let curr_block_id = block_id;
     r \<leftarrow> for_loop 1 DBLOCKS_PER_BLOCK fill_step (0, block_id, zero_buf);
     case r of
       Inr x \<Rightarrow> Some (Return x)
     | Inl (offset, block_id, buff) \<Rightarrow>
         let block_id = block_id + 1;
             buff = (if block_id \<ge> BLOCK_COUNT then st_s64 buff 0 0
                     else st_s64 buff 0 block_id)
         in case write_block s curr_block_id buff of (ok, s) \<Rightarrow>
              if \<not> ok then Some (Return (False, s))
              else if block_id \<ge> BLOCK_COUNT then Some (Break (block_id, s))
              else Some (Next (block_id, s)) })"

definition init_freelist :: "'a bstate_scheme \<Rightarrow> (bool \<times> 'a bstate_scheme) option" where
  "init_freelist s = do {
     sb \<leftarrow> super_block s;
     r \<leftarrow> for_loop 0 FREE_LIST_BLOCKS freelist_step (free_list_head sb, s);
     case r of Inl (block_id, s) \<Rightarrow> Some (True, s) | Inr x \<Rightarrow> Some x }"

text \<open>Loop body: take the first listed block off the list block in \<open>buff\<close>.\<close>

definition alloc_step :: "int \<Rightarrow> int \<times> buffer \<Rightarrow> (int \<times> buffer, 'r) ctl option" where
  "alloc_step = (\<lambda>i (ans, buff).
     let dblock_num = ld_s64 buff (8 * i) in
     if dblock_num \<noteq> 0 then Some (Break (dblock_num, st_s64 buff (8 * i) 0))
     else Some (Next (ans, buff)))"

definition create_new_dblock :: "'a bstate_scheme \<Rightarrow> (int \<times> 'a bstate_scheme) option" where
  "create_new_dblock s = do {
     sb \<leftarrow> super_block s;
     if free_list_head sb = 0 then Some (-1, s)
     else case read_block s (free_list_head sb) of
       None \<Rightarrow> Some (-1, s)
     | Some buff \<Rightarrow> do {
         r \<leftarrow> for_loop 1 DBLOCKS_PER_BLOCK alloc_step (0, buff);
         case r of
           Inr x \<Rightarrow> Some x
         | Inl (ans, buff) \<Rightarrow>
             let temp = free_list_head sb;
                 finish = (\<lambda>ans buff s. case write_block s temp buff of (ok, s) \<Rightarrow>
                             if \<not> ok then (-1, s) else (ans, s))
             in if ans = 0 then do {
                  let ans = free_list_head sb;
                  let s = s\<lparr>super_block := Some (sb\<lparr>free_list_head := ld_s64 buff 0\<rparr>)\<rparr>;
                  let buff = st_s64 buff 0 0;
                  (ok, s) \<leftarrow> write_superblock s;
                  if \<not> ok then Some (-1, s) else Some (finish ans buff s) }
                else Some (finish ans buff s) } }"

definition read_dblock :: "'a disk_scheme \<Rightarrow> int \<Rightarrow> buffer option" where
  "read_dblock s dblock_num =
     (if dblock_num \<le> INODE_B_COUNT \<or> dblock_num > BLOCK_COUNT then None
      else read_block s dblock_num)"

definition write_dblock :: "'a disk_scheme \<Rightarrow> int \<Rightarrow> buffer \<Rightarrow> bool \<times> 'a disk_scheme" where
  "write_dblock s dblock_num buff =
     (if dblock_num \<le> INODE_B_COUNT \<or> dblock_num > BLOCK_COUNT then (False, s)
      else write_block s dblock_num buff)"

text \<open>Loop body: enter the block in the first empty slot of the list block in \<open>buff\<close>.\<close>

definition release_step ::
  "int \<Rightarrow> int \<Rightarrow> int \<times> buffer \<Rightarrow> (int \<times> buffer, 'r) ctl option" where
  "release_step dblock_num = (\<lambda>i (ans, buff).
     if ld_s64 buff (8 * i) = 0 then Some (Break (1, st_s64 buff (8 * i) dblock_num))
     else Some (Next (ans, buff)))"

definition free_dblock :: "'a bstate_scheme \<Rightarrow> int \<Rightarrow> (bool \<times> 'a bstate_scheme) option" where
  "free_dblock s dblock_num =
     (if dblock_num \<le> INODE_B_COUNT \<or> dblock_num > BLOCK_COUNT then Some (False, s)
      else do {
        let s = snd (write_block s dblock_num zero_buf);
        sb \<leftarrow> super_block s;
        (ok, s) \<leftarrow> (if free_list_head sb = 0
                   then write_superblock (s\<lparr>super_block := Some (sb\<lparr>free_list_head := dblock_num\<rparr>)\<rparr>)
                   else Some (True, s));
        if \<not> ok then Some (False, s)
        else do {
          sb \<leftarrow> super_block s;
          case read_block s (free_list_head sb) of
            None \<Rightarrow> Some (False, s)
          | Some buff \<Rightarrow> do {
              r \<leftarrow> for_loop 1 DBLOCKS_PER_BLOCK (release_step dblock_num) (0, buff);
              case r of
                Inr x \<Rightarrow> Some x
              | Inl (ans, buff) \<Rightarrow>
                  if ans = 0 then do {
                    let temp = free_list_head sb;
                    let s = s\<lparr>super_block := Some (sb\<lparr>free_list_head := dblock_num\<rparr>)\<rparr>;
                    (ok, s) \<leftarrow> write_superblock s;
                    if \<not> ok then Some (False, s)
                    else let buff = st_s64 zero_buf 0 temp in
                      case write_block s dblock_num buff of (ok, s) \<Rightarrow>
                        if \<not> ok then Some (False, s) else Some (True, s) }
                  else case write_block s (free_list_head sb) buff of (ok, s) \<Rightarrow>
                         if \<not> ok then Some (False, s) else Some (True, s) } } })"

section \<open>The abstraction\<close>

definition data_block :: "int \<Rightarrow> bool" where
  "data_block n \<longleftrightarrow> INODE_B_COUNT < n \<and> n < BLOCK_COUNT"

definition zeroed :: "buffer \<Rightarrow> bool" where
  "zeroed b \<longleftrightarrow> (\<forall>i. 0 \<le> i \<and> i < BLOCK_SIZE \<longrightarrow> b i = 0)"

definition entries :: "buffer \<Rightarrow> int list" where
  "entries b = filter (\<lambda>v. v \<noteq> 0) (map (\<lambda>i. ld_s64 b (8 * i)) [1..511])"

primrec fl_chain :: "(int \<Rightarrow> buffer) \<Rightarrow> int \<Rightarrow> int list \<Rightarrow> bool" where
  "fl_chain bs h [] \<longleftrightarrow> h = 0"
| "fl_chain bs h (x # xs) \<longleftrightarrow> h = x \<and> x \<noteq> 0 \<and> fl_chain bs (ld_s64 (bs x) 0) xs"

definition fl_blocks :: "(int \<Rightarrow> buffer) \<Rightarrow> int list \<Rightarrow> int list" where
  "fl_blocks bs xs = concat (map (\<lambda>x. x # entries (bs x)) xs)"

definition fl_ok :: "(int \<Rightarrow> buffer) \<Rightarrow> int \<Rightarrow> int list \<Rightarrow> bool" where
  "fl_ok bs h xs \<longleftrightarrow> fl_chain bs h xs \<and> distinct (fl_blocks bs xs) \<and>
     (\<forall>n \<in> set (fl_blocks bs xs). data_block n) \<and>
     (\<forall>x \<in> set xs. \<forall>e \<in> set (entries (bs x)). zeroed (bs e))"

definition free_set :: "'a bstate_scheme \<Rightarrow> int set" where
  "free_set s = {n. \<exists>sb xs. super_block s = Some sb \<and>
     fl_chain (blocks s) (free_list_head sb) xs \<and> n \<in> set (fl_blocks (blocks s) xs)}"

definition fl_inv :: "'a bstate_scheme \<Rightarrow> bool" where
  "fl_inv s \<longleftrightarrow> healthy s \<and>
     (\<exists>sb xs. super_block s = Some sb \<and> fl_ok (blocks s) (free_list_head sb) xs)"

section \<open>Laws of the abstraction\<close>

lemma data_block_ok: "data_block n \<Longrightarrow> block_ok n"
  by (simp add: data_block_def block_ok_def geometry)

lemma data_block_nonzero: "data_block n \<Longrightarrow> n \<noteq> 0"
  by (auto simp: data_block_def geometry)

lemma not_data_block_0 [simp]: "\<not> data_block 0"
  by (simp add: data_block_def geometry)

lemma data_block_in_s64: "data_block n \<Longrightarrow> in_s64 n"
  by (simp add: data_block_def in_s64_def geometry)

lemma zeroed_zero_buf [simp]: "zeroed zero_buf"
  by (simp add: zeroed_def)

lemma fl_blocks_Nil [simp]: "fl_blocks bs [] = []"
  by (simp add: fl_blocks_def)

lemma fl_blocks_Cons [simp]: "fl_blocks bs (x # xs) = x # entries (bs x) @ fl_blocks bs xs"
  by (simp add: fl_blocks_def)

lemma nodes_subset: "set xs \<subseteq> set (fl_blocks bs xs)"
  by (induction xs) auto

lemma fl_chain_unique: "fl_chain bs h xs \<Longrightarrow> fl_chain bs h ys \<Longrightarrow> xs = ys"
proof (induction xs arbitrary: h ys)
  case Nil
  then show ?case by (cases ys) auto
next
  case (Cons x xs)
  then show ?case by (cases ys) auto
qed

lemma fl_chain_cong: "(\<And>x. x \<in> set xs \<Longrightarrow> bs x = cs x) \<Longrightarrow> fl_chain bs h xs = fl_chain cs h xs"
  by (induction xs arbitrary: h) auto

lemma fl_blocks_cong: "(\<And>x. x \<in> set xs \<Longrightarrow> bs x = cs x) \<Longrightarrow> fl_blocks bs xs = fl_blocks cs xs"
  by (induction xs) auto

lemma free_set_eq:
  "super_block s = Some sb \<Longrightarrow> fl_chain (blocks s) (free_list_head sb) xs \<Longrightarrow>
   free_set s = set (fl_blocks (blocks s) xs)"
  by (auto simp: free_set_def dest: fl_chain_unique)

lemma fl_invE:
  assumes "fl_inv s"
  obtains sb xs where "healthy s" "super_block s = Some sb"
    "fl_ok (blocks s) (free_list_head sb) xs" "free_set s = set (fl_blocks (blocks s) xs)"
  using assms free_set_eq unfolding fl_inv_def fl_ok_def by blast

lemma fl_inv_data_block: "fl_inv s \<Longrightarrow> n \<in> free_set s \<Longrightarrow> data_block n"
  by (elim fl_invE) (auto simp: fl_ok_def)

lemma fl_inv_finite: "fl_inv s \<Longrightarrow> finite (free_set s)"
  by (elim fl_invE) simp

lemma entries_split:
  assumes "1 \<le> i" "i \<le> 511"
  shows "entries b = filter (\<lambda>v. v \<noteq> 0) (map (\<lambda>i. ld_s64 b (8 * i)) [1..i - 1]) @
           (if ld_s64 b (8 * i) \<noteq> 0 then [ld_s64 b (8 * i)] else []) @
           filter (\<lambda>v. v \<noteq> 0) (map (\<lambda>i. ld_s64 b (8 * i)) [i + 1..511])"
  using upto_split3 [OF assms] by (simp add: entries_def)

lemma entries_st:
  assumes "1 \<le> i" "i \<le> 511" "in_s64 v"
  shows "entries (st_s64 b (8 * i) v) =
           filter (\<lambda>v. v \<noteq> 0) (map (\<lambda>i. ld_s64 b (8 * i)) [1..i - 1]) @
           (if v \<noteq> 0 then [v] else []) @
           filter (\<lambda>v. v \<noteq> 0) (map (\<lambda>i. ld_s64 b (8 * i)) [i + 1..511])"
proof -
  have other: "map (\<lambda>i. ld_s64 (st_s64 b (8 * i') v) (8 * i)) [m..n] =
      map (\<lambda>i. ld_s64 b (8 * i)) [m..n]" if "\<And>j. m \<le> j \<Longrightarrow> j \<le> n \<Longrightarrow> j \<noteq> i'" for i' m n
    using that by (intro map_cong) (fastforce intro!: ld_st_s64_other)+
  show ?thesis
    using assms by (subst entries_split [OF assms(1,2)]) (simp add: other ld_st_s64_same)
qed

lemma entries_st_0: "entries (st_s64 b 0 v) = entries b"
proof -
  have "map (\<lambda>i. ld_s64 (st_s64 b 0 v) (8 * i)) [1..511] = map (\<lambda>i. ld_s64 b (8 * i)) [1..511]"
    by (intro map_cong) (auto intro!: ld_st_s64_other)
  then show ?thesis by (simp only: entries_def)
qed

lemma in_entries: "v \<in> set (entries b) \<longleftrightarrow> v \<noteq> 0 \<and> (\<exists>i. 1 \<le> i \<and> i \<le> 511 \<and> v = ld_s64 b (8 * i))"
  by (auto simp: entries_def)

lemma entries_zero_buf [simp]: "entries zero_buf = []"
  by (auto simp: entries_def)

lemma zeroed_entries: "zeroed b \<Longrightarrow> entries b = []"
proof -
  assume z: "zeroed b"
  have "ld_s64 b (8 * i) = ld_s64 zero_buf (8 * i)" if "1 \<le> i" "i \<le> 511" for i
    using z that by (intro ld_s64_cong) (auto simp: zeroed_def geometry)
  then show ?thesis by (auto simp: entries_def)
qed

text \<open>A chain block that lists nothing and links nowhere holds zeros only.\<close>

lemma ld_s64_0_bytes: "ld_s64 b p = 0 \<Longrightarrow> p \<le> i \<Longrightarrow> i < p + 8 \<Longrightarrow> b i = 0"
  using le_store_byte [of "i - p" 8 b p 0] st_s64_ld [of b p] by (simp add: st_s64_def)

lemma zeroed_node:
  assumes "entries b = []" "ld_s64 b 0 = 0"
  shows "zeroed b"
  unfolding zeroed_def
proof (intro allI impI)
  fix i :: int
  assume i: "0 \<le> i \<and> i < BLOCK_SIZE"
  define k where "k = i div 8"
  have k: "8 * k \<le> i" "i < 8 * k + 8" "0 \<le> k" "k \<le> 511"
    using i by (auto simp: k_def geometry)
  have "ld_s64 b (8 * k) = 0"
    using assms k(3,4) by (cases "k = 0") (auto simp: entries_def filter_empty_conv)
  then show "b i = 0" using k by (intro ld_s64_0_bytes [of b "8 * k"]) auto
qed

section \<open>Allocation\<close>

lemma alloc_search_empty:
  "entries b = [] \<Longrightarrow> for_loop 1 DBLOCKS_PER_BLOCK alloc_step (0, b) = Some (Inl (0, b))"
  by (rule for_loop_none) (auto simp: alloc_step_def entries_def filter_empty_conv geometry)

lemma alloc_search_found:
  assumes "entries b \<noteq> []"
  obtains i where "1 \<le> i" "i \<le> 511" "ld_s64 b (8 * i) \<noteq> 0"
    "for_loop 1 DBLOCKS_PER_BLOCK alloc_step (0, b) =
       Some (Inl (ld_s64 b (8 * i), st_s64 b (8 * i) 0))"
    "entries b = ld_s64 b (8 * i) # entries (st_s64 b (8 * i) 0)"
proof -
  from assms obtain k where k: "1 \<le> k" "k \<le> 511" "ld_s64 b (8 * k) \<noteq> 0"
    by (auto simp: entries_def filter_empty_conv)
  from least_int_hit [of 1 k "\<lambda>i. ld_s64 b (8 * i) \<noteq> 0", OF k(1,3)] obtain i where
    i: "1 \<le> i" "i \<le> k" "ld_s64 b (8 * i) \<noteq> 0" "\<And>j. 1 \<le> j \<Longrightarrow> j < i \<Longrightarrow> ld_s64 b (8 * j) = 0"
    by metis
  have "for_loop 1 DBLOCKS_PER_BLOCK alloc_step (0, b) =
      for_loop i DBLOCKS_PER_BLOCK alloc_step (0, b)"
    using i k by (intro for_loop_skip) (auto simp: alloc_step_def geometry)
  also have "\<dots> = Some (Inl (ld_s64 b (8 * i), st_s64 b (8 * i) 0))"
    using i k by (intro for_loop_break) (auto simp: alloc_step_def geometry)
  finally have loop: "for_loop 1 DBLOCKS_PER_BLOCK alloc_step (0, b) =
      Some (Inl (ld_s64 b (8 * i), st_s64 b (8 * i) 0))" .
  have nil: "filter (\<lambda>v. v \<noteq> 0) (map (\<lambda>i. ld_s64 b (8 * i)) [1..i - 1]) = []"
    using i(4) by (auto simp: filter_empty_conv)
  have "entries b = ld_s64 b (8 * i) # entries (st_s64 b (8 * i) 0)"
    using i k by (simp add: entries_split [of i b] entries_st [of i 0] nil in_s64_def)
  with i k loop show thesis by (intro that [of i]) auto
qed

lemma create_new_dblock_empty:
  "super_block s = Some sb \<Longrightarrow> free_list_head sb = 0 \<Longrightarrow> create_new_dblock s = Some (-1, s)"
  by (simp add: create_new_dblock_def)

text \<open>The two ways a block is handed out.\<close>

lemma create_new_dblock_entry:
  assumes "healthy s" "super_block s = Some sb" "free_list_head sb = x" "data_block x"
    and "entries (blocks s x) = v # vs"
  obtains b' where "create_new_dblock s = Some (v, s\<lparr>blocks := (blocks s)(x := b')\<rparr>)"
    "entries b' = vs" "ld_s64 b' 0 = ld_s64 (blocks s x) 0"
proof -
  from assms(5) have "entries (blocks s x) \<noteq> []" by simp
  then obtain i where i: "1 \<le> i" "i \<le> 511" "ld_s64 (blocks s x) (8 * i) \<noteq> 0"
    "for_loop 1 DBLOCKS_PER_BLOCK alloc_step (0, blocks s x) =
       Some (Inl (ld_s64 (blocks s x) (8 * i), st_s64 (blocks s x) (8 * i) 0)
         :: (int \<times> buffer) + (int \<times> 'a bstate_scheme))"
    "entries (blocks s x) = ld_s64 (blocks s x) (8 * i) # entries (st_s64 (blocks s x) (8 * i) 0)"
    by (rule alloc_search_found)
  have x: "x \<noteq> 0" "block_ok x" using assms(4) by (auto simp: data_block_ok)
  have "create_new_dblock s = Some (v, s\<lparr>blocks := (blocks s)(x := st_s64 (blocks s x) (8 * i) 0)\<rparr>)"
    using assms i x
    by (simp add: create_new_dblock_def read_block_healthy
        write_block_healthy Let_def)
  moreover have "ld_s64 (st_s64 (blocks s x) (8 * i) 0) 0 = ld_s64 (blocks s x) 0"
    using i(1) by (intro ld_st_s64_other) auto
  ultimately show thesis using assms(5) i(5)
    by (intro that [of "st_s64 (blocks s x) (8 * i) 0"]) auto
qed

lemma create_new_dblock_node:
  assumes "healthy s" "super_block s = Some sb" "free_list_head sb = x" "data_block x"
    and "entries (blocks s x) = []"
  defines "sb' \<equiv> sb\<lparr>free_list_head := ld_s64 (blocks s x) 0\<rparr>"
  shows "create_new_dblock s = Some (x, s\<lparr>super_block := Some sb',
    blocks := (blocks s)(0 := put_superblock zero_buf sb', x := st_s64 (blocks s x) 0 0)\<rparr>)"
proof -
  have x: "x \<noteq> 0" "block_ok x" using assms(4) by (auto simp: data_block_ok)
  have "healthy (s\<lparr>super_block := q\<rparr>)" for q
    using assms(1) by (simp add: healthy_def device_works_def)
  then show ?thesis
    using assms x alloc_search_empty [OF assms(5), where 'a = "int \<times> 'a bstate_scheme"]
    by (simp add: create_new_dblock_def read_block_healthy
        write_block_healthy write_superblock_healthy Let_def fun_upd_twist)
qed

lemma healthy_super_block [simp]: "healthy (s\<lparr>super_block := q\<rparr>) = healthy s"
  by (simp add: healthy_def device_works_def)

lemma fl_chain_Cons_data:
  "fl_ok bs h (x # xs) \<Longrightarrow> h = x \<and> data_block x \<and> fl_chain bs (ld_s64 (bs x) 0) xs \<and>
     x \<notin> set (fl_blocks bs xs) \<and> x \<notin> set (entries (bs x)) \<and>
     set (entries (bs x)) \<inter> set (fl_blocks bs xs) = {}"
  by (auto simp: fl_ok_def)

text \<open>
  How the abstraction moves: the first chain block changes what it lists, it leaves the chain,
  or a new block is put in front. Each law only asks that the rest of the free blocks keep
  their contents.
\<close>

lemma fl_ok_cong:
  assumes "fl_ok bs h xs" "\<And>b. b \<in> set (fl_blocks bs xs) \<Longrightarrow> cs b = bs b"
  shows "fl_ok cs h xs" "fl_blocks cs xs = fl_blocks bs xs"
proof -
  have eq: "cs y = bs y" if "y \<in> set xs" for y
    using that nodes_subset assms(2) by blast
  then have c: "fl_chain cs k xs = fl_chain bs k xs" for k by (simp add: fl_chain_cong [of xs cs bs])
  show b: "fl_blocks cs xs = fl_blocks bs xs" using eq by (simp add: fl_blocks_cong [of xs cs bs])
  have "zeroed (cs e)" if "y \<in> set xs" "e \<in> set (entries (cs y))" for y e
  proof -
    have "e \<in> set (fl_blocks bs xs)" using that eq by (auto simp: fl_blocks_def)
    moreover have "zeroed (bs e)" using assms(1) that eq by (auto simp: fl_ok_def)
    ultimately show ?thesis using assms(2) by simp
  qed
  with assms(1) b c show "fl_ok cs h xs" by (simp add: fl_ok_def)
qed

lemma fl_ok_nonzero: "fl_ok bs h xs \<Longrightarrow> 0 \<notin> set (fl_blocks bs xs)"
  by (auto simp: fl_ok_def)

lemma fl_ok_Cons:
  "fl_ok bs h (x # xs) \<longleftrightarrow>
     h = x \<and> data_block x \<and> fl_ok bs (ld_s64 (bs x) 0) xs \<and> distinct (entries (bs x)) \<and>
     x \<notin> set (entries (bs x)) \<and> x \<notin> set (fl_blocks bs xs) \<and>
     set (entries (bs x)) \<inter> set (fl_blocks bs xs) = {} \<and>
     (\<forall>e \<in> set (entries (bs x)). data_block e \<and> zeroed (bs e))"
  by (auto simp: fl_ok_def data_block_nonzero)

lemma fl_ok_set_node:
  assumes "fl_ok bs h (x # xs)" "cs x = b'" "\<And>b. b \<in> set (fl_blocks bs xs) \<Longrightarrow> cs b = bs b"
    and "ld_s64 b' 0 = ld_s64 (bs x) 0" "distinct (entries b')"
    and "x \<notin> set (entries b')" "set (entries b') \<inter> set (fl_blocks bs xs) = {}"
    and "\<forall>e \<in> set (entries b'). data_block e \<and> zeroed (cs e)"
  shows "fl_ok cs h (x # xs)" "fl_blocks cs (x # xs) = x # entries b' @ fl_blocks bs xs"
proof -
  from assms(1) have "fl_ok bs (ld_s64 (bs x) 0) xs" by (simp add: fl_ok_Cons)
  note R = fl_ok_cong [OF this, of cs, OF assms(3)]
  then show "fl_blocks cs (x # xs) = x # entries b' @ fl_blocks bs xs" using assms(2) by simp
  show "fl_ok cs h (x # xs)" using assms R by (simp add: fl_ok_Cons)
qed

lemma fl_ok_pop:
  assumes "fl_ok bs h (x # xs)" "\<And>b. b \<in> set (fl_blocks bs xs) \<Longrightarrow> cs b = bs b"
  shows "fl_ok cs (ld_s64 (bs x) 0) xs" "fl_blocks cs xs = fl_blocks bs xs"
proof -
  from assms(1) have "fl_ok bs (ld_s64 (bs x) 0) xs" by (simp add: fl_ok_Cons)
  from fl_ok_cong [OF this, of cs, OF assms(2)]
  show "fl_ok cs (ld_s64 (bs x) 0) xs" "fl_blocks cs xs = fl_blocks bs xs" by auto
qed

lemma fl_ok_push:
  assumes "fl_ok bs h xs" "\<And>b. b \<in> set (fl_blocks bs xs) \<Longrightarrow> cs b = bs b"
    and "data_block n" "n \<notin> set (fl_blocks bs xs)" "entries (cs n) = []" "ld_s64 (cs n) 0 = h"
  shows "fl_ok cs n (n # xs)" "fl_blocks cs (n # xs) = n # fl_blocks bs xs"
  using fl_ok_cong [OF assms(1), of cs, OF assms(2)] assms(3-) by (simp_all add: fl_ok_Cons)

lemma create_new_dblock_spec:
  assumes "healthy s" "super_block s = Some sb" "fl_ok (blocks s) (free_list_head sb) xs"
    and "xs \<noteq> []"
  obtains n h bs' xs' where
    "create_new_dblock s =
       Some (n, s\<lparr>super_block := Some (sb\<lparr>free_list_head := h\<rparr>), blocks := bs'\<rparr>)"
    "fl_ok bs' h xs'" "n \<notin> set (fl_blocks bs' xs')" "zeroed (bs' n)"
    "set (fl_blocks (blocks s) xs) = insert n (set (fl_blocks bs' xs'))"
    "\<And>b. b \<noteq> 0 \<Longrightarrow> b \<notin> set (fl_blocks (blocks s) xs) \<Longrightarrow> bs' b = blocks s b"
proof -
  from assms(4) obtain x ys where xs: "xs = x # ys" by (cases xs) auto
  note ok = assms(3) [unfolded xs]
  note D = ok [unfolded fl_ok_Cons]
  show thesis
  proof (cases "entries (blocks s x)")
    case (Cons v vs)
    obtain b' where b': "create_new_dblock s = Some (v, s\<lparr>blocks := (blocks s)(x := b')\<rparr>)"
      "entries b' = vs" "ld_s64 b' 0 = ld_s64 (blocks s x) 0"
      using create_new_dblock_entry [OF assms(1,2) _ _ Cons] D by auto
    obtain cs where cs: "cs = (blocks s)(x := b')" by simp
    then have cx: "cs x = b'" and co: "\<And>b. b \<noteq> x \<Longrightarrow> cs b = blocks s b" by auto
    have agree: "cs b = blocks s b" if "b \<in> set (fl_blocks (blocks s) ys)" for b
      using that D co by metis
    have new: "distinct (entries b')" "x \<notin> set (entries b')"
      "set (entries b') \<inter> set (fl_blocks (blocks s) ys) = {}"
      using D b'(2) Cons by auto
    have "\<forall>e \<in> set (entries b'). data_block e \<and> zeroed (cs e)"
      using D b'(2) Cons new(2) co by (metis list.set_intros(2))
    note F = fl_ok_set_node [where cs = cs, OF ok cx agree b'(3) new this]
    then have "fl_ok cs x xs" "fl_blocks cs xs = x # vs @ fl_blocks (blocks s) ys"
      using D b'(2) by (simp_all add: xs)
    moreover have "s\<lparr>super_block := Some (sb\<lparr>free_list_head := x\<rparr>), blocks := cs\<rparr> = s\<lparr>blocks := cs\<rparr>"
      using D assms(2) by simp
    ultimately show thesis
      using b'(1) D Cons by (intro that [where n = v and h = x and bs' = cs and xs' = xs]) (auto simp: xs cs)
  next
    case Nil
    let ?h = "ld_s64 (blocks s x) 0"
    let ?sb = "sb\<lparr>free_list_head := ?h\<rparr>"
    obtain cs where cs: "cs = (blocks s)(0 := put_superblock zero_buf ?sb, x := st_s64 (blocks s x) 0 0)"
      by simp
    have "b \<noteq> 0" if "b \<in> set (fl_blocks (blocks s) ys)" for b
      using that fl_ok_nonzero [OF ok] by auto
    then have agree: "cs b = blocks s b" if "b \<in> set (fl_blocks (blocks s) ys)" for b
      using that D by (auto simp: cs)
    note F = fl_ok_pop [where cs = cs, OF ok agree]
    moreover have "zeroed (cs x)"
      using Nil by (intro zeroed_node) (simp_all add: cs entries_st_0 ld_st_s64_same in_s64_def)
    ultimately show thesis
      using create_new_dblock_node [OF assms(1,2) _ _ Nil] D Nil
      by (intro that [where n = x and h = ?h and bs' = cs and xs' = ys]) (auto simp: xs cs)
  qed
qed

section \<open>Release\<close>

lemma release_search_full:
  "(\<And>i. 1 \<le> i \<Longrightarrow> i \<le> 511 \<Longrightarrow> ld_s64 b (8 * i) \<noteq> 0) \<Longrightarrow>
   for_loop 1 DBLOCKS_PER_BLOCK (release_step n) (0, b) = Some (Inl (0, b))"
  by (rule for_loop_none) (auto simp: release_step_def geometry)

lemma release_search_found:
  assumes "1 \<le> k" "k \<le> 511" "ld_s64 b (8 * k) = 0" "in_s64 n" "n \<noteq> 0"
  obtains i A C where "1 \<le> i" "i \<le> k"
    "for_loop 1 DBLOCKS_PER_BLOCK (release_step n) (0, b) = Some (Inl (1, st_s64 b (8 * i) n))"
    "entries b = A @ C" "entries (st_s64 b (8 * i) n) = A @ n # C"
proof -
  from least_int_hit [of 1 k "\<lambda>i. ld_s64 b (8 * i) = 0", OF assms(1,3)] obtain i where
    i: "1 \<le> i" "i \<le> k" "ld_s64 b (8 * i) = 0" "\<And>j. 1 \<le> j \<Longrightarrow> j < i \<Longrightarrow> ld_s64 b (8 * j) \<noteq> 0"
    by metis
  have "for_loop 1 DBLOCKS_PER_BLOCK (release_step n) (0, b) =
      for_loop i DBLOCKS_PER_BLOCK (release_step n) (0, b)"
    using i assms by (intro for_loop_skip) (auto simp: release_step_def geometry)
  also have "\<dots> = Some (Inl (1, st_s64 b (8 * i) n))"
    using i assms by (intro for_loop_break) (auto simp: release_step_def geometry)
  finally show thesis
    using i assms entries_split [of i b] entries_st [of i n b] by (intro that [of i]) auto
qed

lemma free_dblock_out_of_range [simp]:
  "n \<le> INODE_B_COUNT \<or> n > BLOCK_COUNT \<Longrightarrow> free_dblock s n = Some (False, s)"
  by (auto simp: free_dblock_def)

text \<open>The block goes into a free slot of the first list block, or becomes the first list block.\<close>

lemma free_dblock_slot:
  assumes "healthy s" "super_block s = Some sb" "free_list_head sb = x" "data_block x"
    and "data_block n" "n \<noteq> x" "1 \<le> k" "k \<le> 511" "ld_s64 (blocks s x) (8 * k) = 0"
  obtains b' A C where "free_dblock s n = Some (True, s\<lparr>blocks := (blocks s)(n := zero_buf, x := b')\<rparr>)"
    "entries (blocks s x) = A @ C" "entries b' = A @ n # C" "ld_s64 b' 0 = ld_s64 (blocks s x) 0"
proof -
  have n: "in_s64 n" "n \<noteq> 0" using assms(5) by (auto simp: data_block_in_s64)
  obtain i A C where i: "1 \<le> i"
    "for_loop 1 DBLOCKS_PER_BLOCK (release_step n) (0, blocks s x) =
       Some (Inl (1, st_s64 (blocks s x) (8 * i) n) :: (int \<times> buffer) + (bool \<times> 'a bstate_scheme))"
    "entries (blocks s x) = A @ C" "entries (st_s64 (blocks s x) (8 * i) n) = A @ n # C"
    using release_search_found [OF assms(7-9) n] by metis
  have "free_dblock s n =
      Some (True, s\<lparr>blocks := (blocks s)(n := zero_buf, x := st_s64 (blocks s x) (8 * i) n)\<rparr>)"
    using assms i(2) by (simp add: free_dblock_def data_block_def [of n] data_block_ok
        data_block_nonzero write_block_healthy read_block_healthy)
  moreover have "ld_s64 (st_s64 (blocks s x) (8 * i) n) 0 = ld_s64 (blocks s x) 0"
    using i(1) by (intro ld_st_s64_other) auto
  ultimately show thesis using i
    by (intro that [where b' = "st_s64 (blocks s x) (8 * i) n" and A = A and C = C]) auto
qed

lemma free_dblock_new_node:
  assumes "healthy s" "super_block s = Some sb" "free_list_head sb = x" "data_block x"
    and "data_block n" "n \<noteq> x" "\<And>k. 1 \<le> k \<Longrightarrow> k \<le> 511 \<Longrightarrow> ld_s64 (blocks s x) (8 * k) \<noteq> 0"
  defines "sb' \<equiv> sb\<lparr>free_list_head := n\<rparr>"
  shows "free_dblock s n = Some (True, s\<lparr>super_block := Some sb',
    blocks := (blocks s)(0 := put_superblock zero_buf sb', n := st_s64 zero_buf 0 x)\<rparr>)"
  using assms(1-6)
  by (simp add: assms(8) free_dblock_def Let_def release_search_full [OF assms(7)] data_block_def [of n] data_block_ok data_block_nonzero
      write_block_healthy read_block_healthy write_superblock_healthy fun_upd_twist)

lemma free_dblock_spec:
  assumes "healthy s" "super_block s = Some sb" "fl_ok (blocks s) (free_list_head sb) xs"
    and "xs \<noteq> []" "data_block n" "n \<notin> set (fl_blocks (blocks s) xs)"
  obtains h bs' xs' where
    "free_dblock s n = Some (True, s\<lparr>super_block := Some (sb\<lparr>free_list_head := h\<rparr>), blocks := bs'\<rparr>)"
    "fl_ok bs' h xs'" "set (fl_blocks bs' xs') = insert n (set (fl_blocks (blocks s) xs))"
    "\<And>b. b \<noteq> 0 \<Longrightarrow> b \<notin> set (fl_blocks (blocks s) xs) \<Longrightarrow> b \<noteq> n \<Longrightarrow> bs' b = blocks s b"
proof -
  from assms(4) obtain x ys where xs: "xs = x # ys" by (cases xs) auto
  note ok = assms(3) [unfolded xs]
  note D = ok [unfolded fl_ok_Cons]
  have nx: "n \<noteq> x" and nE: "n \<notin> set (entries (blocks s x))" and ny: "n \<notin> set (fl_blocks (blocks s) ys)"
    using assms(6) by (auto simp: xs)
  show thesis
  proof (cases "\<exists>k. 1 \<le> k \<and> k \<le> 511 \<and> ld_s64 (blocks s x) (8 * k) = 0")
    case True
    then obtain k where k: "1 \<le> k" "k \<le> 511" "ld_s64 (blocks s x) (8 * k) = 0" by blast
    have hd: "free_list_head sb = x" "data_block x" using D by auto
    obtain b' A C where b': "free_dblock s n = Some (True, s\<lparr>blocks := (blocks s)(n := zero_buf, x := b')\<rparr>)"
      "entries (blocks s x) = A @ C" "entries b' = A @ n # C" "ld_s64 b' 0 = ld_s64 (blocks s x) 0"
      using free_dblock_slot [OF assms(1,2) hd assms(5) nx k] by metis
    obtain cs where cs: "cs = (blocks s)(n := zero_buf, x := b')" by simp
    then have cx: "cs x = b'" and cn: "cs n = zero_buf"
      and co: "\<And>b. b \<noteq> x \<Longrightarrow> b \<noteq> n \<Longrightarrow> cs b = blocks s b" using nx by auto
    have agree: "cs b = blocks s b" if "b \<in> set (fl_blocks (blocks s) ys)" for b
      using that D ny co by metis
    have new: "distinct (entries b')" "x \<notin> set (entries b')"
      "set (entries b') \<inter> set (fl_blocks (blocks s) ys) = {}"
      using D b'(2,3) nE nx ny by auto
    have "data_block e \<and> zeroed (cs e)" if e: "e \<in> set (entries b')" for e
    proof (cases "e = n")
      case True
      with cn assms(5) show ?thesis by simp
    next
      case False
      have "e \<noteq> x" using e new(2) by metis
      then have "e \<in> set (entries (blocks s x))" "cs e = blocks s e"
        using e b'(2,3) False co by auto
      with D show ?thesis by simp
    qed
    then have "\<forall>e \<in> set (entries b'). data_block e \<and> zeroed (cs e)" by blast
    note F = fl_ok_set_node [where cs = cs, OF ok cx agree b'(4) new this]
    have "s\<lparr>super_block := Some (sb\<lparr>free_list_head := x\<rparr>), blocks := cs\<rparr> = s\<lparr>blocks := cs\<rparr>"
      using hd assms(2) by simp
    with F b' hd co show thesis
      by (intro that [where h = x and bs' = cs and xs' = xs]) (auto simp: xs cs)
  next
    case False
    then have full: "\<And>k. 1 \<le> k \<Longrightarrow> k \<le> 511 \<Longrightarrow> ld_s64 (blocks s x) (8 * k) \<noteq> 0" by blast
    have hd: "free_list_head sb = x" "data_block x" using D by auto
    obtain cs where cs: "cs = (blocks s)(0 := put_superblock zero_buf (sb\<lparr>free_list_head := n\<rparr>),
        n := st_s64 zero_buf 0 x)" by simp
    have n0: "n \<noteq> 0" using assms(5) by auto
    have agree: "cs b = blocks s b" if "b \<in> set (fl_blocks (blocks s) xs)" for b
      using that fl_ok_nonzero [OF assms(3)] assms(6) by (auto simp: cs)
    have node: "entries (cs n) = []" "ld_s64 (cs n) 0 = free_list_head sb"
      using hd by (simp_all add: cs entries_st_0 ld_st_s64_same data_block_in_s64)
    note F = fl_ok_push [where cs = cs, OF assms(3) agree assms(5,6) node]
    with free_dblock_new_node [OF assms(1,2) hd assms(5) nx full] n0 show thesis
      by (intro that [where h = n and bs' = cs and xs' = "n # xs"]) (auto simp: cs)
  qed
qed

end
