(* ===== verification/InodeTable.thy ===== *)
theory InodeTable
  imports FreeList
begin

text \<open>
  The inode list (\<open>init_inode_list\<close>, \<open>is_valid_inum\<close>, \<open>inode_num_to_block_id\<close>,
  \<open>inode_num_to_offset\<close>, \<open>create_new_inode\<close>, \<open>read_inode\<close>, \<open>write_inode\<close> of
  \<open>lib/block_layer.c\<close>). Blocks 1 to \<open>INODE_B_COUNT\<close> hold 21 inodes each.

  \<open>init_inode_list\<close> copies a local struct of which it sets only some fields; what the others
  hold (\<open>user_id\<close>, \<open>group_id\<close>, \<open>mode\<close>, the times) is whatever was on the stack, the
  parameter \<open>junk\<close>. \<open>create_new_inode\<close> may search forever, so its search is a
  \<open>partial_function\<close> whose value is \<open>None\<close> when it does not return.
\<close>

section \<open>Operations\<close>

definition is_valid_inum :: "'a bstate_scheme \<Rightarrow> int \<Rightarrow> bool option" where
  "is_valid_inum s inode_num = do {
     sb \<leftarrow> super_block s;
     Some (inode_num > 0 \<and> inode_num < inode_count sb) }"

text \<open>Division by \<open>inodes_per_block\<close> traps when it is 0; the operands are never negative.\<close>

definition inode_num_to_block_id :: "'a bstate_scheme \<Rightarrow> int \<Rightarrow> int option" where
  "inode_num_to_block_id s inode_num = do {
     sb \<leftarrow> super_block s;
     if inodes_per_block sb = 0 then None else Some (1 + inode_num div inodes_per_block sb) }"

definition inode_num_to_offset :: "'a bstate_scheme \<Rightarrow> int \<Rightarrow> int option" where
  "inode_num_to_offset s inode_num = do {
     sb \<leftarrow> super_block s;
     if inodes_per_block sb = 0 then None else Some (inode_num mod inodes_per_block sb) }"

text \<open>The struct copied into every slot of the inode list.\<close>

definition blank_inode :: "iNode \<Rightarrow> iNode" where
  "blank_inode junk = junk\<lparr>direct_blocks := replicate 10 0, single_indirect := 0,
     double_indirect := 0, triple_indirect := 0, link_count := 0, file_size := 0,
     num_blocks := 0, allocated := False\<rparr>"

text \<open>Loop body: fill one slot of the inode block being built.\<close>

definition slot_step :: "iNode \<Rightarrow> int \<Rightarrow> int \<times> buffer \<Rightarrow> (int \<times> buffer, 'r) ctl option" where
  "slot_step inode = (\<lambda>i (offset, buff).
     Some (Next (offset + SIZEOF_INODE, put_inode buff offset inode)))"

text \<open>Loop body: build one inode block and write it.\<close>

definition inode_block_step ::
  "iNode \<Rightarrow> int \<Rightarrow> int \<Rightarrow> 'a bstate_scheme \<Rightarrow>
   ('a bstate_scheme, bool \<times> 'a bstate_scheme) ctl option" where
  "inode_block_step inode ipb = (\<lambda>block_id s. do {
     r \<leftarrow> for_loop 0 ipb (slot_step inode) (0, zero_buf);
     case r of
       Inr x \<Rightarrow> Some (Return x)
     | Inl (offset, buff) \<Rightarrow>
         case write_block s block_id buff of (ok, s) \<Rightarrow>
           if \<not> ok then Some (Return (False, s)) else Some (Next s) })"

definition init_inode_list ::
  "iNode \<Rightarrow> 'a bstate_scheme \<Rightarrow> (bool \<times> 'a bstate_scheme) option" where
  "init_inode_list junk s = do {
     sb \<leftarrow> super_block s;
     r \<leftarrow> for_loop 1 (INODE_B_COUNT + 1)
            (inode_block_step (blank_inode junk) (inodes_per_block sb)) s;
     case r of Inl s \<Rightarrow> Some (True, s) | Inr x \<Rightarrow> Some x }"

text \<open>
  Loop body: look at slot \<open>offset\<close> of the inode block in \<open>buff\<close>; the loop state is
  \<open>visit_count\<close>. A free slot ends the search.
\<close>

definition scan_step :: "buffer \<Rightarrow> int \<Rightarrow> int \<Rightarrow> (int, int) ctl option" where
  "scan_step buff = (\<lambda>offset visit_count.
     let visit_count = visit_count + 1 in
     if \<not> allocated (get_inode buff (offset * SIZEOF_INODE))
     then Some (Return visit_count) else Some (Next visit_count))"

text \<open>
  The search of \<open>create_new_inode\<close>. The flag \<open>allocated\<close> is set in the local copy of the
  block only, which is then dropped; \<open>return false\<close> after a failed read returns 0.
\<close>

partial_function (option) inode_scan ::
  "superBlock \<Rightarrow> 'a bstate_scheme \<Rightarrow> int \<Rightarrow> int \<Rightarrow> int \<Rightarrow> (int \<times> 'a bstate_scheme) option" where
  "inode_scan sb s block_id offset visit_count =
     (if visit_count = inode_count sb then Some (-1, s)
      else case read_block s block_id of
        None \<Rightarrow> Some (0, s)
      | Some buff \<Rightarrow> do {
          r \<leftarrow> for_loop offset (inodes_per_block sb) (scan_step buff) visit_count;
          case r of
            Inr visit_count \<Rightarrow>
              Some (latest_inum sb,
                s\<lparr>super_block := Some (sb\<lparr>latest_inum := latest_inum sb + visit_count\<rparr>)\<rparr>)
          | Inl visit_count \<Rightarrow>
              inode_scan sb s (block_id mod INODE_B_COUNT + 1) 0 visit_count })"

definition create_new_inode :: "'a bstate_scheme \<Rightarrow> (int \<times> 'a bstate_scheme) option" where
  "create_new_inode s = do {
     sb \<leftarrow> super_block s;
     valid \<leftarrow> is_valid_inum s (latest_inum sb);
     if \<not> valid then Some (-1, s)
     else do {
       block_id \<leftarrow> inode_num_to_block_id s (latest_inum sb);
       offset \<leftarrow> inode_num_to_offset s (latest_inum sb);
       inode_scan sb s block_id offset 0 } }"

definition read_inode :: "'a bstate_scheme \<Rightarrow> int \<Rightarrow> iNode option option" where
  "read_inode s inode_num = do {
     valid \<leftarrow> is_valid_inum s inode_num;
     if \<not> valid then Some None
     else do {
       block_id \<leftarrow> inode_num_to_block_id s inode_num;
       offset \<leftarrow> inode_num_to_offset s inode_num;
       case read_block s block_id of
         None \<Rightarrow> Some None
       | Some buff \<Rightarrow> Some (Some (get_inode buff (offset * SIZEOF_INODE))) } }"

definition write_inode ::
  "'a bstate_scheme \<Rightarrow> int \<Rightarrow> iNode \<Rightarrow> (bool \<times> 'a bstate_scheme) option" where
  "write_inode s inode_num inode = do {
     valid \<leftarrow> is_valid_inum s inode_num;
     if \<not> valid then Some (False, s)
     else do {
       block_id \<leftarrow> inode_num_to_block_id s inode_num;
       offset \<leftarrow> inode_num_to_offset s inode_num;
       case read_block s block_id of
         None \<Rightarrow> Some (False, s)
       | Some buff \<Rightarrow>
           let buff = put_inode buff (offset * SIZEOF_INODE) inode in
           (case write_block s block_id buff of (ok, s) \<Rightarrow>
              if \<not> ok then Some (False, s) else Some (True, s)) } }"

section \<open>The inode table\<close>

text \<open>The super block of a volume made by \<open>init_superblock\<close>, wherever its pointers are.\<close>

definition sb_ok :: "'a bstate_scheme \<Rightarrow> bool" where
  "sb_ok s \<longleftrightarrow> (\<exists>sb. super_block s = Some sb \<and> inode_count sb = INODE_B_COUNT * 21 \<and>
     inodes_per_block sb = 21)"

definition inum_ok :: "int \<Rightarrow> bool" where
  "inum_ok n \<longleftrightarrow> 0 < n \<and> n < INODE_B_COUNT * 21"

text \<open>Where an inode lives, and the table of all inodes as the device holds it.\<close>

definition inode_block :: "int \<Rightarrow> int" where
  "inode_block n = 1 + n div 21"

definition inode_slot :: "int \<Rightarrow> int" where
  "inode_slot n = n mod 21 * 192"

definition inode_at :: "'a disk_scheme \<Rightarrow> int \<Rightarrow> iNode" where
  "inode_at s n = get_inode (blocks s (inode_block n)) (inode_slot n)"

lemma inode_block_range:
  "0 \<le> n \<Longrightarrow> n < INODE_B_COUNT * 21 \<Longrightarrow> 1 \<le> inode_block n \<and> inode_block n \<le> INODE_B_COUNT"
  by (auto simp: inode_block_def geometry)

lemma inode_block_ok: "inum_ok n \<Longrightarrow> block_ok (inode_block n)"
  using inode_block_range [of n] by (auto simp: inum_ok_def block_ok_def geometry)

lemma inode_block_not_data: "inum_ok n \<Longrightarrow> \<not> data_block (inode_block n) \<and> inode_block n \<noteq> 0"
  using inode_block_range [of n] by (auto simp: inum_ok_def data_block_def)

text \<open>Two inodes share no byte.\<close>

lemma inode_slots_disjoint:
  assumes "n \<noteq> m" "inode_block n = inode_block m" "0 \<le> n" "0 \<le> m"
  shows "inode_slot n + 192 \<le> inode_slot m \<or> inode_slot m + 192 \<le> inode_slot n"
proof -
  have "n mod 21 \<noteq> m mod 21"
    using assms by (metis add_left_cancel inode_block_def mult_div_mod_eq)
  then show ?thesis by (auto simp: inode_slot_def)
qed

lemma is_valid_inum_ok: "sb_ok s \<Longrightarrow> is_valid_inum s n = Some (inum_ok n)"
  by (auto simp: sb_ok_def is_valid_inum_def inum_ok_def)

lemma inode_num_to_block_id_ok: "sb_ok s \<Longrightarrow> inode_num_to_block_id s n = Some (inode_block n)"
  by (auto simp: sb_ok_def inode_num_to_block_id_def inode_block_def)

lemma inode_num_to_offset_ok: "sb_ok s \<Longrightarrow> inode_num_to_offset s n = Some (n mod 21)"
  by (auto simp: sb_ok_def inode_num_to_offset_def)

lemma read_inode_ok: "healthy s \<Longrightarrow> sb_ok s \<Longrightarrow> inum_ok n \<Longrightarrow> read_inode s n = Some (Some (inode_at s n))"
  by (simp add: read_inode_def is_valid_inum_ok inode_num_to_block_id_ok inode_num_to_offset_ok
      read_block_healthy inode_block_ok inode_at_def inode_slot_def geometry)

lemma read_inode_invalid: "sb_ok s \<Longrightarrow> \<not> inum_ok n \<Longrightarrow> read_inode s n = Some None"
  by (simp add: read_inode_def is_valid_inum_ok)

lemma write_inode_invalid: "sb_ok s \<Longrightarrow> \<not> inum_ok n \<Longrightarrow> write_inode s n i = Some (False, s)"
  by (simp add: write_inode_def is_valid_inum_ok)

text \<open>Writing an inode is a read-modify-write of its block through the block store interface.\<close>

lemma write_inode_rmw:
  "sb_ok s \<Longrightarrow> inum_ok n \<Longrightarrow>
   write_inode s n i = Some (rmw read_block write_block s (inode_block n) (\<lambda>b. put_inode b (inode_slot n) i))"
  by (auto simp: write_inode_def is_valid_inum_ok inode_num_to_block_id_ok inode_num_to_offset_ok
      inode_slot_def geometry rmw_def Let_def split: option.splits prod.splits)

lemma write_inode_ok:
  "healthy s \<Longrightarrow> sb_ok s \<Longrightarrow> inum_ok n \<Longrightarrow> write_inode s n i =
   Some (True, s\<lparr>blocks := (blocks s)(inode_block n := put_inode (blocks s (inode_block n)) (inode_slot n) i)\<rparr>)"
  by (simp add: write_inode_rmw rmw_def read_block_healthy write_block_healthy inode_block_ok)

lemma sb_ok_blocks [simp]: "sb_ok (s\<lparr>blocks := bs\<rparr>) = sb_ok s"
  by (simp add: sb_ok_def)

lemma sb_ok_latest [simp]:
  "super_block s = Some sb \<Longrightarrow> sb_ok (s\<lparr>super_block := Some (sb\<lparr>latest_inum := l\<rparr>)\<rparr>) = sb_ok s"
  "super_block s = Some sb \<Longrightarrow> sb_ok (s\<lparr>super_block := Some (sb\<lparr>free_list_head := l\<rparr>)\<rparr>) = sb_ok s"
  by (auto simp: sb_ok_def)

section \<open>The inode store interface\<close>

text \<open>
  What the file layer relies on: every valid inode can be read, writing one makes it read back
  as written and changes no other inode and no data block, invalid numbers are refused.
\<close>

locale inode_store =
  fixes get :: "'s \<Rightarrow> int \<Rightarrow> iNode option option"
    and put :: "'s \<Rightarrow> int \<Rightarrow> iNode \<Rightarrow> (bool \<times> 's) option"
    and ok :: "'s \<Rightarrow> bool"
    and content :: "'s \<Rightarrow> int \<Rightarrow> buffer"
  assumes get_valid: "ok s \<Longrightarrow> inum_ok n \<Longrightarrow> \<exists>i. get s n = Some (Some i) \<and> wf_inode i"
    and put_valid: "ok s \<Longrightarrow> inum_ok n \<Longrightarrow> wf_inode i \<Longrightarrow>
      \<exists>s'. put s n i = Some (True, s') \<and> ok s' \<and>
        (\<forall>m. get s' m = (if m = n then Some (Some i) else get s m)) \<and>
        (\<forall>b. data_block b \<longrightarrow> content s' b = content s b)"
    and get_invalid: "ok s \<Longrightarrow> \<not> inum_ok n \<Longrightarrow> get s n = Some None"
    and put_invalid: "ok s \<Longrightarrow> \<not> inum_ok n \<Longrightarrow> put s n i = Some (False, s)"
begin

text \<open>The file layer's idiom: read an inode, change it, write it back.\<close>

lemma update_inode:
  assumes "ok s" "inum_ok n" "\<And>i. wf_inode i \<Longrightarrow> wf_inode (f i)"
  obtains i s' where "get s n = Some (Some i)" "wf_inode i" "put s n (f i) = Some (True, s')" "ok s'"
    "\<And>m. get s' m = (if m = n then Some (Some (f i)) else get s m)"
    "\<And>b. data_block b \<Longrightarrow> content s' b = content s b"
proof -
  from get_valid [OF assms(1,2)] obtain i where i: "get s n = Some (Some i)" "wf_inode i" by blast
  from put_valid [OF assms(1,2) assms(3) [OF i(2)]] i show thesis by (metis that)
qed

lemma put_put:
  assumes "ok s" "inum_ok n" "wf_inode i" "wf_inode j"
  shows "\<exists>s1 s2. put s n i = Some (True, s1) \<and> put s1 n j = Some (True, s2) \<and>
    (\<forall>m. get s2 m = (if m = n then Some (Some j) else get s m))"
  using put_valid [OF assms(1-3)] put_valid [OF _ assms(2,4)] by (metis (no_types, lifting))

end

lemma inode_at_other_block: "inode_block n \<noteq> k \<Longrightarrow> inode_at (s\<lparr>blocks := (blocks s)(k := b)\<rparr>) n = inode_at s n"
  by (simp add: inode_at_def)

lemma inode_at_write_same:
  "wf_inode i \<Longrightarrow> inode_at (s\<lparr>blocks := (blocks s)(inode_block n := put_inode (blocks s (inode_block n)) (inode_slot n) i)\<rparr>) n = i"
  by (simp add: inode_at_def get_put_inode)

lemma inode_at_write_other:
  assumes "wf_inode i" "n \<noteq> m" "0 \<le> n" "0 \<le> m"
  shows "inode_at (s\<lparr>blocks := (blocks s)(inode_block n := put_inode (blocks s (inode_block n)) (inode_slot n) i)\<rparr>) m
    = inode_at s m"
proof (cases "inode_block m = inode_block n")
  case True
  with inode_slots_disjoint [OF assms(2) True [symmetric] assms(3,4)] assms(1)
  show ?thesis by (simp add: inode_at_def get_put_inode_other wf_inode_def)
next
  case False
  then show ?thesis by (simp add: inode_at_other_block)
qed

interpretation inodes: inode_store read_inode write_inode "\<lambda>s. healthy s \<and> sb_ok s" blocks
proof unfold_locales
  fix s :: "'a bstate_scheme" and n i
  assume ok: "healthy s \<and> sb_ok s" and n: "inum_ok n" and wf: "wf_inode i"
  let ?s = "s\<lparr>blocks := (blocks s)(inode_block n := put_inode (blocks s (inode_block n)) (inode_slot n) i)\<rparr>"
  have "read_inode ?s m = (if m = n then Some (Some i) else read_inode s m)" for m
  proof (cases "inum_ok m")
    case True
    with ok n wf inode_at_write_same [OF wf, of s n] inode_at_write_other [OF wf, of n m s]
    show ?thesis by (auto simp: read_inode_ok inum_ok_def)
  next
    case False
    with ok n show ?thesis by (auto simp: read_inode_invalid)
  qed
  moreover have "write_inode s n i = Some (True, ?s)" using ok n by (simp add: write_inode_ok)
  ultimately show "\<exists>s'. write_inode s n i = Some (True, s') \<and> (healthy s' \<and> sb_ok s') \<and>
      (\<forall>m. read_inode s' m = (if m = n then Some (Some i) else read_inode s m)) \<and>
      (\<forall>b. data_block b \<longrightarrow> blocks s' b = blocks s b)"
    using ok inode_block_not_data [OF n] by (intro exI [of _ ?s]) auto
qed (auto simp: read_inode_ok read_inode_invalid write_inode_invalid inode_at_def)

text \<open>Inode blocks are no data blocks: the free list does not notice.\<close>

lemma fl_inv_frame:
  assumes "fl_inv s" "\<And>b. data_block b \<Longrightarrow> bs b = blocks s b"
  shows "fl_inv (s\<lparr>blocks := bs\<rparr>)" "free_set (s\<lparr>blocks := bs\<rparr>) = free_set s"
proof -
  from assms(1) obtain sb xs where s: "healthy s" "super_block s = Some sb"
    "fl_ok (blocks s) (free_list_head sb) xs" "free_set s = set (fl_blocks (blocks s) xs)"
    by (rule fl_invE)
  have "bs b = blocks s b" if "b \<in> set (fl_blocks (blocks s) xs)" for b
    using assms(2) that s(3) by (auto simp: fl_ok_def)
  note F = fl_ok_cong [where cs = bs, OF s(3) this]
  then show "fl_inv (s\<lparr>blocks := bs\<rparr>)" using s by (auto simp: fl_inv_def)
  show "free_set (s\<lparr>blocks := bs\<rparr>) = free_set s"
    using free_set_eq [of "s\<lparr>blocks := bs\<rparr>" sb xs] F s by (auto simp: fl_ok_def)
qed

lemma fl_inv_latest:
  fixes l :: int
  assumes "fl_inv s" "super_block s = Some sb"
  defines "t \<equiv> s\<lparr>super_block := Some (sb\<lparr>latest_inum := l\<rparr>)\<rparr>"
  shows "fl_inv t" "free_set t = free_set s"
proof -
  from assms(1,2) obtain xs where s: "healthy s"
    "fl_ok (blocks s) (free_list_head sb) xs" "free_set s = set (fl_blocks (blocks s) xs)"
    by (metis fl_invE option.inject)
  then show "fl_inv t" by (auto simp: fl_inv_def t_def)
  show "free_set t = free_set s"
    using free_set_eq [of t "sb\<lparr>latest_inum := l\<rparr>" xs] s by (simp add: t_def fl_ok_def)
qed

end
