(* ===== verification/Allocator.thy ===== *)
theory Allocator
  imports FreeList
begin

text \<open>
  The contract of the data block allocator, as a locale with the laws its users need; its
  interpretation on the model of \<open>create_new_dblock\<close> and \<open>free_dblock\<close>; reading and writing
  data blocks as a block store; and the properties of the free list the contract gives.
\<close>

section \<open>The allocator interface\<close>

text \<open>
  What the users of data blocks rely on: an allocation hands out a free block filled with
  zeros and nothing else changes, a release makes the block free again, and a volume without
  free blocks refuses. The release law needs some block to be free already: the code breaks
  it otherwise (\<open>free_on_full_volume_allocates_twice\<close> below).
\<close>

primrec alloc_many :: "('s \<Rightarrow> (int \<times> 's) option) \<Rightarrow> nat \<Rightarrow> 's \<Rightarrow> (int list \<times> 's) option" where
  "alloc_many al 0 s = Some ([], s)"
| "alloc_many al (Suc k) s = do {
     (n, s) \<leftarrow> al s;
     (ns, s) \<leftarrow> alloc_many al k s;
     Some (n # ns, s) }"

primrec release_all :: "('s \<Rightarrow> int \<Rightarrow> (bool \<times> 's) option) \<Rightarrow> int list \<Rightarrow> 's \<Rightarrow> (bool \<times> 's) option" where
  "release_all rel [] s = Some (True, s)"
| "release_all rel (n # ns) s = do {
     (ok, s) \<leftarrow> rel s n;
     if \<not> ok then Some (False, s) else release_all rel ns s }"

locale block_allocator =
  fixes inv :: "'s \<Rightarrow> bool"
    and free :: "'s \<Rightarrow> int set"
    and content :: "'s \<Rightarrow> int \<Rightarrow> buffer"
    and alloc :: "'s \<Rightarrow> (int \<times> 's) option"
    and release :: "'s \<Rightarrow> int \<Rightarrow> (bool \<times> 's) option"
  assumes free_finite: "inv s \<Longrightarrow> finite (free s)"
    and free_data: "inv s \<Longrightarrow> n \<in> free s \<Longrightarrow> data_block n"
    and alloc_full: "inv s \<Longrightarrow> free s = {} \<Longrightarrow> alloc s = Some (-1, s)"
    and alloc_one: "inv s \<Longrightarrow> free s \<noteq> {} \<Longrightarrow>
      \<exists>n s'. alloc s = Some (n, s') \<and> inv s' \<and> n \<in> free s \<and> free s' = free s - {n} \<and>
        zeroed (content s' n) \<and>
        (\<forall>b. b \<noteq> 0 \<longrightarrow> b \<notin> free s \<longrightarrow> content s' b = content s b)"
    and release_one: "inv s \<Longrightarrow> free s \<noteq> {} \<Longrightarrow> data_block n \<Longrightarrow> n \<notin> free s \<Longrightarrow>
      \<exists>s'. release s n = Some (True, s') \<and> inv s' \<and> free s' = insert n (free s) \<and>
        (\<forall>b. b \<noteq> 0 \<longrightarrow> b \<notin> free s \<longrightarrow> b \<noteq> n \<longrightarrow> content s' b = content s b)"
begin

lemma alloc_total: "inv s \<Longrightarrow> \<exists>n s'. alloc s = Some (n, s') \<and> inv s'"
  using alloc_full alloc_one by (cases "free s = {}") blast+

text \<open>Releasing distinct blocks in use makes exactly them free.\<close>

lemma release_all_distinct:
  assumes "inv s" "free s \<noteq> {}" "distinct ns" "\<And>n. n \<in> set ns \<Longrightarrow> data_block n \<and> n \<notin> free s"
  obtains s' where "release_all release ns s = Some (True, s')" "inv s'" "free s' = free s \<union> set ns"
    "\<And>b. b \<noteq> 0 \<Longrightarrow> b \<notin> free s \<Longrightarrow> b \<notin> set ns \<Longrightarrow> content s' b = content s b"
  using assms
proof (induction ns arbitrary: s thesis)
  case Nil
  then show ?case by simp
next
  case (Cons n ns)
  from release_one [OF Cons.prems(2,3), of n] Cons.prems(5) obtain t where
    t: "release s n = Some (True, t)" "inv t" "free t = insert n (free s)"
      "\<And>b. b \<noteq> 0 \<Longrightarrow> b \<notin> free s \<Longrightarrow> b \<noteq> n \<Longrightarrow> content t b = content s b" by fastforce
  show ?case
  proof (rule Cons.IH [OF _ t(2)])
    fix s'
    assume s': "release_all release ns t = Some (True, s')" "inv s'" "free s' = free t \<union> set ns"
      "\<And>b. b \<noteq> 0 \<Longrightarrow> b \<notin> free t \<Longrightarrow> b \<notin> set ns \<Longrightarrow> content s' b = content t b"
    show thesis
      by (rule Cons.prems(1) [of s']) (use t s' in auto)
  qed (use t(3) Cons.prems(4,5) in auto)
qed

lemma alloc_success_iff: "inv s \<Longrightarrow> alloc s = Some (n, s') \<Longrightarrow> 0 < n \<longleftrightarrow> free s \<noteq> {}"
  using alloc_full [of s] alloc_one [of s] free_data [of s n]
  by (cases "free s = {}") (auto simp: data_block_def geometry)

text \<open>As many allocations as there are free blocks succeed, with distinct results.\<close>

lemma alloc_many_distinct:
  assumes "inv s" "k \<le> card (free s)"
  shows "\<exists>ns s'. alloc_many alloc k s = Some (ns, s') \<and> inv s' \<and> length ns = k \<and> distinct ns \<and>
    set ns \<subseteq> free s \<and> free s' = free s - set ns \<and>
    (\<forall>n \<in> set ns. zeroed (content s' n)) \<and>
    (\<forall>b. b \<noteq> 0 \<longrightarrow> b \<notin> free s \<longrightarrow> content s' b = content s b)"
  using assms
proof (induction k arbitrary: s)
  case 0
  then show ?case by simp
next
  case (Suc k)
  have "free s \<noteq> {}" using Suc.prems by auto
  from alloc_one [OF Suc.prems(1) this] obtain n t where
    n: "alloc s = Some (n, t)" "inv t" "n \<in> free s" "free t = free s - {n}"
      "zeroed (content t n)" "\<forall>b. b \<noteq> 0 \<longrightarrow> b \<notin> free s \<longrightarrow> content t b = content s b"
    by metis
  have "k \<le> card (free t)"
    using Suc.prems n(3,4) free_finite [OF Suc.prems(1)] by (simp add: card_Diff_singleton)
  from Suc.IH [OF n(2) this] obtain ns s' where
    ns: "alloc_many alloc k t = Some (ns, s')" "inv s'" "length ns = k" "distinct ns"
      "set ns \<subseteq> free t" "free s' = free t - set ns" "\<forall>n \<in> set ns. zeroed (content s' n)"
      "\<forall>b. b \<noteq> 0 \<longrightarrow> b \<notin> free t \<longrightarrow> content s' b = content t b" by metis
  have "n \<noteq> 0" using free_data [OF Suc.prems(1) n(3)] by auto
  then have "content s' n = content t n" using ns(8) n(4) by simp
  with n ns show ?case by (intro exI [of _ "n # ns"] exI [of _ s']) auto
qed

text \<open>Exhausting the volume: one allocation more than there are free blocks fails.\<close>

lemma alloc_exhausts:
  assumes "inv s" "alloc_many alloc (card (free s)) s = Some (ns, s')"
  shows "alloc s' = Some (-1, s')" "set ns = free s"
proof -
  from alloc_many_distinct [OF assms(1) order_refl] assms(2)
  have s': "inv s'" "length ns = card (free s)" "distinct ns" "set ns \<subseteq> free s"
    "free s' = free s - set ns" by auto
  then show "set ns = free s"
    by (metis card_subset_eq distinct_card free_finite [OF assms(1)])
  with s' show "alloc s' = Some (-1, s')" by (simp add: alloc_full)
qed

lemma release_alloc_free:
  assumes "inv s" "free s \<noteq> {}" "alloc s = Some (n, t)" "free t \<noteq> {}"
  shows "\<exists>s'. release t n = Some (True, s') \<and> inv s' \<and> free s' = free s"
  using alloc_one [OF assms(1,2)] assms(3,4) release_one [of t n] free_data [OF assms(1), of n]
  by (auto simp: insert_absorb)

end

lemma free_set_update:
  "super_block s = Some sb \<Longrightarrow> fl_ok bs h xs \<Longrightarrow>
   free_set (s\<lparr>super_block := Some (sb\<lparr>free_list_head := h\<rparr>), blocks := bs\<rparr>) = set (fl_blocks bs xs)"
  using free_set_eq [of "s\<lparr>super_block := Some (sb\<lparr>free_list_head := h\<rparr>), blocks := bs\<rparr>"
      "sb\<lparr>free_list_head := h\<rparr>" xs] by (simp add: fl_ok_def)

lemma free_set_empty_iff:
  "super_block s = Some sb \<Longrightarrow> fl_ok (blocks s) (free_list_head sb) xs \<Longrightarrow> free_set s = {} \<longleftrightarrow> xs = []"
  using free_set_eq [of s sb xs] by (cases xs) (auto simp: fl_ok_def)

interpretation dblocks: block_allocator fl_inv free_set blocks create_new_dblock free_dblock
proof unfold_locales
  fix s :: "'a bstate_scheme"
  assume inv: "fl_inv s"
  show "finite (free_set s)" using inv by (rule fl_inv_finite)
next
  fix s :: "'a bstate_scheme" and n
  assume "fl_inv s" "n \<in> free_set s"
  then show "data_block n" by (rule fl_inv_data_block)
next
  fix s :: "'a bstate_scheme"
  assume inv: "fl_inv s" and empty: "free_set s = {}"
  from inv obtain sb xs where "super_block s = Some sb" "fl_ok (blocks s) (free_list_head sb) xs"
    by (rule fl_invE)
  then show "create_new_dblock s = Some (-1, s)"
    using empty free_set_empty_iff [of s sb xs]
    by (intro create_new_dblock_empty) (auto simp: fl_ok_def)
next
  fix s :: "'a bstate_scheme"
  assume inv: "fl_inv s" and ne: "free_set s \<noteq> {}"
  from inv obtain sb xs where s: "healthy s" "super_block s = Some sb"
    "fl_ok (blocks s) (free_list_head sb) xs" "free_set s = set (fl_blocks (blocks s) xs)"
    by (rule fl_invE)
  then have "xs \<noteq> []" using ne by auto
  from create_new_dblock_spec [OF s(1-3) this] obtain n h bs' xs' where n:
    "create_new_dblock s =
       Some (n, s\<lparr>super_block := Some (sb\<lparr>free_list_head := h\<rparr>), blocks := bs'\<rparr>)"
    "fl_ok bs' h xs'" "n \<notin> set (fl_blocks bs' xs')" "zeroed (bs' n)"
    "set (fl_blocks (blocks s) xs) = insert n (set (fl_blocks bs' xs'))"
    "\<And>b. b \<noteq> 0 \<Longrightarrow> b \<notin> set (fl_blocks (blocks s) xs) \<Longrightarrow> bs' b = blocks s b" by metis
  let ?s = "s\<lparr>super_block := Some (sb\<lparr>free_list_head := h\<rparr>), blocks := bs'\<rparr>"
  have "fl_inv ?s" using s(1) n(2) by (auto simp: fl_inv_def)
  moreover have "free_set ?s = free_set s - {n}"
    using free_set_update [OF s(2) n(2)] s(4) n(3,5) by auto
  ultimately show "\<exists>n s'. create_new_dblock s = Some (n, s') \<and> fl_inv s' \<and> n \<in> free_set s \<and>
      free_set s' = free_set s - {n} \<and> zeroed (blocks s' n) \<and>
      (\<forall>b. b \<noteq> 0 \<longrightarrow> b \<notin> free_set s \<longrightarrow> blocks s' b = blocks s b)"
    using n s(4) by (intro exI [of _ n] exI [of _ ?s]) auto
next
  fix s :: "'a bstate_scheme" and n
  assume inv: "fl_inv s" and ne: "free_set s \<noteq> {}" and d: "data_block n" and nf: "n \<notin> free_set s"
  from inv obtain sb xs where s: "healthy s" "super_block s = Some sb"
    "fl_ok (blocks s) (free_list_head sb) xs" "free_set s = set (fl_blocks (blocks s) xs)"
    by (rule fl_invE)
  then have "xs \<noteq> []" using ne by auto
  from free_dblock_spec [OF s(1-3) this d] nf s(4) obtain h bs' xs' where n:
    "free_dblock s n = Some (True, s\<lparr>super_block := Some (sb\<lparr>free_list_head := h\<rparr>), blocks := bs'\<rparr>)"
    "fl_ok bs' h xs'" "set (fl_blocks bs' xs') = insert n (set (fl_blocks (blocks s) xs))"
    "\<And>b. b \<noteq> 0 \<Longrightarrow> b \<notin> set (fl_blocks (blocks s) xs) \<Longrightarrow> b \<noteq> n \<Longrightarrow> bs' b = blocks s b"
    by metis
  let ?s = "s\<lparr>super_block := Some (sb\<lparr>free_list_head := h\<rparr>), blocks := bs'\<rparr>"
  have "fl_inv ?s" using s(1) n(2) by (auto simp: fl_inv_def)
  moreover have "free_set ?s = insert n (free_set s)"
    using free_set_update [OF s(2) n(2)] s(4) n(3) by auto
  ultimately show "\<exists>s'. free_dblock s n = Some (True, s') \<and> fl_inv s' \<and>
      free_set s' = insert n (free_set s) \<and>
      (\<forall>b. b \<noteq> 0 \<longrightarrow> b \<notin> free_set s \<longrightarrow> b \<noteq> n \<longrightarrow> blocks s' b = blocks s b)"
    using n s(4) by (intro exI [of _ ?s]) auto
qed

lemma data_block_addr: "\<not> (n \<le> INODE_B_COUNT \<or> n > BLOCK_COUNT) \<longleftrightarrow> data_block n \<or> n = BLOCK_COUNT"
  by (auto simp: data_block_def geometry)

text \<open>Reading and writing data blocks is again a block store, on the data blocks.\<close>

lemma read_dblock_cases:
  "read_dblock s n = (if data_block n \<and> readable s n then Some (blocks s n) else None)"
  by (auto simp: read_dblock_def read_block_cases data_block_def block_ok_def geometry)

lemma write_dblock_cases:
  "write_dblock s n b = (if data_block n \<and> writable s n
     then (True, s\<lparr>blocks := (blocks s)(n := b)\<rparr>) else (False, s))"
  by (auto simp: write_dblock_def write_block_cases data_block_def block_ok_def geometry)

interpretation dblock_store: block_store read_dblock write_dblock healthy data_block
  by unfold_locales (auto simp: read_dblock_cases write_dblock_cases data_block_ok split: if_splits)

section \<open>Small volumes for closed examples\<close>

text \<open>
  Two free blocks: the list block 26215, which lists 26216. And a full volume: no list block.
\<close>

definition sample_volume :: bstate where
  "sample_volume = \<lparr>m_ptr = 3, dev_open = 3, dev_lseek = (\<lambda>_ off. off),
     dev_read = (\<lambda>_ _. 4096), dev_write = (\<lambda>_ _. 4096), dev_close = (\<lambda>_. 0),
     blocks = (\<lambda>_. zero_buf)(26215 := st_s64 zero_buf 8 26216),
     super_block = Some \<lparr>inode_count = 550494, latest_inum = 3, inodes_per_block = 21,
        free_list_head = 26215\<rparr>\<rparr>"

definition full_volume :: bstate where
  "full_volume = sample_volume\<lparr>super_block := Some \<lparr>inode_count = 550494, latest_inum = 3,
     inodes_per_block = 21, free_list_head = 0\<rparr>\<rparr>"

lemma sample_volume_healthy: "healthy sample_volume"
  by (simp add: sample_volume_def healthy_def device_works_def geometry)

lemma sample_volume_fl: "fl_inv sample_volume" "free_set sample_volume = {26215, 26216}"
proof -
  let ?sb = "\<lparr>inode_count = 550494, latest_inum = 3, inodes_per_block = 21, free_list_head = 26215\<rparr>"
  have sb: "super_block sample_volume = Some ?sb" by (simp add: sample_volume_def)
  have b: "blocks sample_volume 26215 = st_s64 zero_buf 8 26216" "blocks sample_volume 26216 = zero_buf"
    by (simp_all add: sample_volume_def)
  have e: "entries (st_s64 zero_buf 8 26216) = [26216]"
    using entries_st [of 1 26216 zero_buf] by (simp add: filter_empty_conv in_s64_def)
  have "ld_s64 (st_s64 zero_buf 8 26216) 0 = 0" by (simp add: ld_st_s64_other)
  then have ok: "fl_ok (blocks sample_volume) (free_list_head ?sb) [26215]"
    using b e by (simp add: fl_ok_Cons fl_ok_def data_block_def geometry)
  then show "fl_inv sample_volume" using sb sample_volume_healthy unfolding fl_inv_def by blast
  show "free_set sample_volume = {26215, 26216}"
    using free_set_eq [OF sb, of "[26215]"] ok b e unfolding fl_ok_def by auto
qed

section \<open>Properties\<close>

text \<open>
  C18: while a data block is free, \<open>create_new_dblock\<close> returns a free block, takes exactly that
  block off the free set, hands it out filled with zeros, leaves every block that is in use
  as it was, and keeps the free list well formed.
\<close>

theorem create_new_dblock_takes_a_free_block:
  assumes "fl_inv s" "free_set s \<noteq> {}"
  shows "\<exists>n s'. create_new_dblock s = Some (n, s') \<and> fl_inv s' \<and> n \<in> free_set s \<and>
    free_set s' = free_set s - {n} \<and> zeroed (blocks s' n) \<and>
    (\<forall>b. b \<noteq> 0 \<longrightarrow> b \<notin> free_set s \<longrightarrow> blocks s' b = blocks s b)"
  using assms by (rule dblocks.alloc_one)

theorem create_new_dblock_takes_a_free_block_witness:
  "\<exists>n s'. create_new_dblock sample_volume = Some (n, s') \<and> n \<in> {26215, 26216}"
  using create_new_dblock_takes_a_free_block [of sample_volume] sample_volume_fl by force

text \<open>
  C19: releasing a block in use puts exactly that block back into the free set, keeps the free
  list well formed and the other blocks in use as they were, as long as some block was free.
\<close>

theorem free_dblock_gives_the_block_back:
  assumes "fl_inv s" "free_set s \<noteq> {}" "data_block n" "n \<notin> free_set s"
  shows "\<exists>s'. free_dblock s n = Some (True, s') \<and> fl_inv s' \<and>
    free_set s' = insert n (free_set s) \<and>
    (\<forall>b. b \<noteq> 0 \<longrightarrow> b \<notin> free_set s \<longrightarrow> b \<noteq> n \<longrightarrow> blocks s' b = blocks s b)"
  using assms by (rule dblocks.release_one)

theorem free_dblock_gives_the_block_back_witness:
  "\<exists>s'. free_dblock sample_volume 30000 = Some (True, s') \<and> free_set s' = {26215, 26216, 30000}"
proof -
  have "data_block 30000" by (simp add: data_block_def geometry)
  from free_dblock_gives_the_block_back [OF sample_volume_fl(1) _ this] sample_volume_fl
  show ?thesis by (auto simp: insert_commute)
qed

text \<open>
  C25: allocating as often as there are free blocks returns every free block exactly once, and
  the next allocation reports that the volume is full and changes nothing.
\<close>

theorem allocations_exhaust_the_free_set:
  assumes "fl_inv s"
  shows "\<exists>ns s'. alloc_many create_new_dblock (card (free_set s)) s = Some (ns, s') \<and>
    distinct ns \<and> set ns = free_set s \<and> create_new_dblock s' = Some (-1, s')"
proof -
  from dblocks.alloc_many_distinct [OF assms order_refl] obtain ns s' where
    "alloc_many create_new_dblock (card (free_set s)) s = Some (ns, s')" "distinct ns" by blast
  with dblocks.alloc_exhausts [OF assms this(1)] show ?thesis by blast
qed

theorem allocations_exhaust_the_free_set_witness:
  "\<exists>ns s'. alloc_many create_new_dblock 2 sample_volume = Some (ns, s') \<and>
    set ns = {26215, 26216} \<and> create_new_dblock s' = Some (-1, s')"
  using allocations_exhaust_the_free_set [OF sample_volume_fl(1)] sample_volume_fl(2)
  by (auto simp: numeral_2_eq_2)

text \<open>
  C31: on a full volume the code breaks this contract. Releasing a block there makes it the
  only list block and also an entry of itself, so the next two allocations return the same
  block.
\<close>

theorem free_on_full_volume_allocates_twice:
  assumes "healthy s" "super_block s = Some sb" "free_list_head sb = 0" "data_block n"
  shows "\<exists>s1 s2 s3. free_dblock s n = Some (True, s1) \<and>
    create_new_dblock s1 = Some (n, s2) \<and> create_new_dblock s2 = Some (n, s3)"
proof -
  let ?sb = "sb\<lparr>free_list_head := n\<rparr>"
  let ?b = "st_s64 zero_buf 8 n"
  let ?bs = "(blocks s)(0 := put_superblock zero_buf ?sb, n := ?b)"
  let ?s1 = "s\<lparr>super_block := Some ?sb, blocks := ?bs\<rparr>"
  have n: "n \<noteq> 0" "in_s64 n" "block_ok n" "INODE_B_COUNT < n" "n < BLOCK_COUNT"
    using assms(4) data_block_nonzero [OF assms(4)]
    by (simp_all add: data_block_in_s64 data_block_ok) (simp_all add: data_block_def)
  have search: "for_loop 1 DBLOCKS_PER_BLOCK (release_step n) (0, zero_buf) =
      Some (Inl (1, ?b) :: (int \<times> buffer) + (bool \<times> 'a bstate_scheme))"
    by (rule for_loop_break) (auto simp: release_step_def geometry)
  have s1: "free_dblock s n = Some (True, ?s1)"
    using assms n search
    by (simp add: free_dblock_def write_block_healthy read_block_healthy write_superblock_healthy
        fun_upd_twist)
  have ent: "entries ?b = [n]"
    using entries_st [of 1 n zero_buf] n by (simp add: filter_empty_conv)
  obtain b' where s2: "create_new_dblock ?s1 = Some (n, ?s1\<lparr>blocks := ?bs(n := b')\<rparr>)" "entries b' = []"
    using create_new_dblock_entry [of ?s1 ?sb n n "[]"] assms ent by auto
  have "\<exists>s3. create_new_dblock (?s1\<lparr>blocks := ?bs(n := b')\<rparr>) = Some (n, s3)"
    using create_new_dblock_node [of "?s1\<lparr>blocks := ?bs(n := b')\<rparr>" ?sb n] assms s2(2) by auto
  with s1 s2(1) show ?thesis by blast
qed

theorem free_on_full_volume_allocates_twice_witness:
  "\<exists>s1 s2 s3. free_dblock full_volume 30000 = Some (True, s1) \<and>
    create_new_dblock s1 = Some (30000, s2) \<and> create_new_dblock s2 = Some (30000, s3)"
proof (rule free_on_full_volume_allocates_twice)
  show "healthy full_volume" using sample_volume_healthy by (simp add: full_volume_def)
  show "super_block full_volume = Some \<lparr>inode_count = 550494, latest_inum = 3,
     inodes_per_block = 21, free_list_head = 0\<rparr>" by (simp add: full_volume_def)
qed (simp_all add: data_block_def geometry)

text \<open>
  C32: the range checks of the data block operations admit the number one past the last block.
  Reading and writing it fail, but \<open>free_dblock\<close> reports success and lists the number as a
  free block, from where a later allocation returns it.
\<close>

theorem free_dblock_accepts_block_count:
  assumes "healthy s" "super_block s = Some sb" "data_block (free_list_head sb)"
    and "ld_s64 (blocks s (free_list_head sb)) (8 * k) = 0" "1 \<le> k" "k \<le> 511"
  shows "\<exists>s'. free_dblock s BLOCK_COUNT = Some (True, s') \<and> read_dblock s' BLOCK_COUNT = None \<and>
    super_block s' = super_block s \<and>
    set (entries (blocks s' (free_list_head sb))) =
      insert BLOCK_COUNT (set (entries (blocks s (free_list_head sb))))"
proof -
  let ?x = "free_list_head sb"
  have n: "in_s64 BLOCK_COUNT" "BLOCK_COUNT \<noteq> 0" by (simp_all add: in_s64_def geometry)
  obtain i A C where i:
    "for_loop 1 DBLOCKS_PER_BLOCK (release_step BLOCK_COUNT) (0, blocks s ?x) =
       Some (Inl (1, st_s64 (blocks s ?x) (8 * i) BLOCK_COUNT)
         :: (int \<times> buffer) + (bool \<times> 'a bstate_scheme))"
    "entries (blocks s ?x) = A @ C"
    "entries (st_s64 (blocks s ?x) (8 * i) BLOCK_COUNT) = A @ BLOCK_COUNT # C"
    using release_search_found [OF assms(5,6,4) n] by metis
  let ?s = "s\<lparr>blocks := (blocks s)(?x := st_s64 (blocks s ?x) (8 * i) BLOCK_COUNT)\<rparr>"
  have "\<not> block_ok BLOCK_COUNT" "\<not> BLOCK_COUNT \<le> INODE_B_COUNT"
    by (simp_all add: block_ok_def geometry)
  then have "free_dblock s BLOCK_COUNT = Some (True, ?s)" "read_dblock ?s BLOCK_COUNT = None"
    using assms(1-3) i(1) data_block_nonzero [OF assms(3)]
    by (simp_all add: free_dblock_def read_dblock_def read_block_healthy write_block_healthy
        data_block_ok)
  with i(2,3) show ?thesis by auto
qed

theorem free_dblock_accepts_block_count_witness:
  "\<exists>s'. free_dblock sample_volume 262144 = Some (True, s') \<and>
    set (entries (blocks s' 26215)) = {26216, 262144}"
proof -
  let ?sb = "\<lparr>inode_count = 550494, latest_inum = 3, inodes_per_block = 21, free_list_head = 26215\<rparr>"
  have sb: "super_block sample_volume = Some ?sb" by (simp add: sample_volume_def)
  have d: "data_block (free_list_head ?sb)" by (simp add: data_block_def geometry)
  have b: "blocks sample_volume (free_list_head ?sb) = st_s64 zero_buf 8 26216"
    by (simp add: sample_volume_def)
  have z: "ld_s64 (blocks sample_volume (free_list_head ?sb)) (8 * 2) = 0"
    unfolding b by (simp add: ld_st_s64_other)
  have "entries (st_s64 zero_buf 8 26216) = [26216]"
    using entries_st [of 1 26216 zero_buf] by (simp add: filter_empty_conv in_s64_def)
  with free_dblock_accepts_block_count [OF sample_volume_healthy sb d z] b show ?thesis
    by (auto simp: geometry insert_commute)
qed

end
