(* ===== verification/InodeAlloc.thy ===== *)
theory InodeAlloc
  imports InodeTable Allocator
begin

text \<open>
  What \<open>create_new_inode\<close> (\<open>lib/block_layer.c\<close>) does, on each of its branches: the fresh
  numbers it hands out while the slots from \<open>latest_inum\<close> on are free, the number it
  returns when it has to skip a slot, the full table on which it never returns; and the
  initial inode list.
\<close>

section \<open>The search\<close>

lemma scan_hit:
  assumes "0 \<le> off" "off < 21" "\<not> allocated (get_inode b (off * 192))"
  shows "for_loop off 21 (scan_step b) v = Some (Inr (v + 1))"
  by (rule for_loop_return) (use assms in \<open>simp_all add: scan_step_def geometry\<close>)

lemma scan_miss:
  assumes "0 \<le> off" "off \<le> 21" "\<And>k. off \<le> k \<Longrightarrow> k < 21 \<Longrightarrow> allocated (get_inode b (k * 192))"
  shows "for_loop off 21 (scan_step b) v = Some (Inl (v + (21 - off)))"
  using assms
proof (induction "nat (21 - off)" arbitrary: off v)
  case 0
  then show ?case by simp
next
  case (Suc n)
  then have "allocated (get_inode b (off * 192))" by simp
  then have "for_loop off 21 (scan_step b) v = for_loop (off + 1) 21 (scan_step b) (v + 1)"
    using Suc.hyps(2) by (intro for_loop_next) (simp_all add: scan_step_def geometry)
  also have "\<dots> = Some (Inl (v + 1 + (21 - (off + 1))))"
    using Suc by (intro Suc.hyps(1)) auto
  finally show ?case by simp
qed

lemma create_new_inode_scan:
  "sb_ok s \<Longrightarrow> super_block s = Some sb \<Longrightarrow> create_new_inode s =
     (if inum_ok (latest_inum sb)
      then inode_scan sb s (inode_block (latest_inum sb)) (latest_inum sb mod 21) 0
      else Some (-1, s))"
  by (simp add: create_new_inode_def is_valid_inum_ok inode_num_to_block_id_ok
      inode_num_to_offset_ok)

lemma inode_at_slot:
  "inode_at s n = get_inode (blocks s (inode_block n)) (n mod 21 * 192)"
  by (simp add: inode_at_def inode_slot_def)

text \<open>The usual case: the slot of \<open>latest_inum\<close> is free.\<close>

lemma create_new_inode_fresh:
  assumes "healthy s" "sb_ok s" "super_block s = Some sb" "inum_ok (latest_inum sb)"
    and "\<not> allocated (inode_at s (latest_inum sb))"
  shows "create_new_inode s =
    Some (latest_inum sb, s\<lparr>super_block := Some (sb\<lparr>latest_inum := latest_inum sb + 1\<rparr>)\<rparr>)"
proof -
  have sb: "inode_count sb \<noteq> 0" "inodes_per_block sb = 21"
    using assms(2,3) by (auto simp: sb_ok_def geometry)
  have "for_loop (latest_inum sb mod 21) 21 (scan_step (blocks s (inode_block (latest_inum sb)))) 0
      = Some (Inr 1)"
    using scan_hit [of "latest_inum sb mod 21"] assms(5) by (simp add: inode_at_slot)
  with assms sb show ?thesis
    by (subst create_new_inode_scan [OF assms(2,3)], subst inode_scan.simps)
       (simp add: read_block_healthy inode_block_ok)
qed

text \<open>The slot of \<open>latest_inum\<close> is taken and a later slot of its block is the first free one.\<close>

lemma create_new_inode_skips:
  assumes "healthy s" "sb_ok s" "super_block s = Some sb" "inum_ok (latest_inum sb)"
    and "latest_inum sb mod 21 + k < 21" "0 \<le> k" "\<not> allocated (inode_at s (latest_inum sb + k))"
    and "\<And>j. 0 \<le> j \<Longrightarrow> j < k \<Longrightarrow> allocated (inode_at s (latest_inum sb + j))"
  shows "create_new_inode s =
    Some (latest_inum sb, s\<lparr>super_block := Some (sb\<lparr>latest_inum := latest_inum sb + k + 1\<rparr>)\<rparr>)"
proof -
  let ?l = "latest_inum sb"
  let ?b = "blocks s (inode_block ?l)"
  have sb: "inode_count sb \<noteq> 0" "inodes_per_block sb = 21"
    using assms(2,3) by (auto simp: sb_ok_def geometry)
  have same: "inode_at s (?l + j) = get_inode ?b ((?l mod 21 + j) * 192)" if "0 \<le> j" "j \<le> k" for j
  proof -
    have "0 \<le> ?l mod 21" by simp
    then have "(?l + j) div 21 = ?l div 21" "(?l + j) mod 21 = ?l mod 21 + j"
      using that assms(5) by (simp_all add: div_add1_eq [of ?l j] mod_add_eq [of ?l 21 j, symmetric]
          zmod_trivial_iff zdiv_eq_0_iff)
    then show ?thesis by (simp add: inode_at_def inode_block_def inode_slot_def)
  qed
  have run: "for_loop (?l mod 21 + j) 21 (scan_step ?b) j = Some (Inr (k + 1))" if "0 \<le> j" "j \<le> k" for j
    using that
  proof (induction "nat (k - j)" arbitrary: j)
    case 0
    then show ?case
      using scan_hit [of "?l mod 21 + k" ?b k] same [of k] assms(5-7) by simp
  next
    case (Suc n)
    then have "allocated (get_inode ?b ((?l mod 21 + j) * 192))"
      using same [of j] assms(8) [of j] by simp
    then have "for_loop (?l mod 21 + j) 21 (scan_step ?b) j =
        for_loop (?l mod 21 + j + 1) 21 (scan_step ?b) (j + 1)"
      using Suc assms(5) by (intro for_loop_next) (auto simp: scan_step_def geometry)
    with Suc.hyps(1) [of "j + 1"] Suc.hyps(2) Suc.prems show ?case by (simp add: add.assoc)
  qed
  from run [of 0] assms sb show ?thesis
    by (subst create_new_inode_scan [OF assms(2,3)], subst inode_scan.simps)
       (simp add: read_block_healthy inode_block_ok add.assoc)
qed

text \<open>
  A full table: the number of slots visited is never a multiple of 21 when the search did not
  start at the first slot of a block, so it never equals \<open>inode_count\<close>.
\<close>

lemma inode_scan_diverges:
  assumes ret: "inode_scan sb s b off v = Some r"
    and "healthy s" "inode_count sb = INODE_B_COUNT * 21" "inodes_per_block sb = 21"
    and full: "\<And>b k. 1 \<le> b \<Longrightarrow> b \<le> INODE_B_COUNT \<Longrightarrow> 0 \<le> k \<Longrightarrow> k < 21 \<Longrightarrow>
      allocated (get_inode (blocks s b) (k * 192))"
    and "1 \<le> b" "b \<le> INODE_B_COUNT" "0 \<le> off" "off < 21" "v = 0 \<or> off = 0" "(v - off) mod 21 \<noteq> 0"
  shows False
proof -
  let ?P = "\<lambda>sb' s' b off v r. sb' = sb \<longrightarrow> s' = s \<longrightarrow> 1 \<le> b \<longrightarrow> b \<le> INODE_B_COUNT \<longrightarrow> 0 \<le> off \<longrightarrow>
      off < 21 \<longrightarrow> v = 0 \<or> off = 0 \<longrightarrow> (v - off) mod 21 \<noteq> 0 \<longrightarrow> False"
  have "?P sb s b off v r"
  proof (rule inode_scan.raw_induct [where P = ?P, OF _ ret], intro impI)
    fix f sb' s' b off v r
    assume IH: "\<And>sb' s' b off v r. f sb' s' b off v = Some r \<Longrightarrow> ?P sb' s' b off v r"
      and eq: "(if v = inode_count sb' then Some (-1, s')
        else case read_block s' b of
          None \<Rightarrow> Some (0, s')
        | Some buff \<Rightarrow> do {
            r \<leftarrow> for_loop off (inodes_per_block sb') (scan_step buff) v;
            case r of
              Inr v \<Rightarrow> Some (latest_inum sb', s'\<lparr>super_block := Some (sb'\<lparr>latest_inum := latest_inum sb' + v\<rparr>)\<rparr>)
            | Inl v \<Rightarrow> f sb' s' (b mod INODE_B_COUNT + 1) 0 v }) = Some r"
      and s': "sb' = sb" "s' = s"
      and b: "1 \<le> b" "b \<le> INODE_B_COUNT" and off: "0 \<le> off" "off < 21"
      and v: "v = 0 \<or> off = 0" "(v - off) mod 21 \<noteq> 0"
    have ne: "v \<noteq> inode_count sb"
      using v assms(3) by (auto simp: geometry)
    have ok: "block_ok b" using b by (auto simp: block_ok_def geometry)
    have "for_loop off 21 (scan_step (blocks s b)) v = Some (Inl (v + (21 - off)))"
      using full [OF b] off by (intro scan_miss) auto
    then have nxt: "f sb s (b mod INODE_B_COUNT + 1) 0 (v + (21 - off)) = Some r"
      using eq s' ne ok assms(2,4) by (simp add: read_block_healthy)
    have "0 \<le> b mod INODE_B_COUNT" "b mod INODE_B_COUNT < INODE_B_COUNT" by (simp_all add: geometry)
    moreover have "(v + (21 - off)) mod 21 = (v - off) mod 21"
      by (metis add.commute add_diff_eq mod_add_self1)
    ultimately show False using IH [OF nxt] v(2) by auto
  qed
  then show False using assms by simp
qed

text \<open>The search changes nothing but \<open>latest_inum\<close> in memory.\<close>

lemma inode_scan_frame:
  assumes "inode_scan sb s b off v = Some (n, s')"
  shows "(n \<in> {-1, 0} \<and> s' = s) \<or>
    (n = latest_inum sb \<and> (\<exists>l. s' = s\<lparr>super_block := Some (sb\<lparr>latest_inum := l\<rparr>)\<rparr>))"
proof -
  let ?P = "\<lambda>sb (s :: 'a bstate_scheme) b off v (r :: int \<times> 'a bstate_scheme).
    (fst r \<in> {-1, 0} \<and> snd r = s) \<or>
    (fst r = latest_inum sb \<and> (\<exists>l. snd r = s\<lparr>super_block := Some (sb\<lparr>latest_inum := l\<rparr>)\<rparr>))"
  have "?P sb s b off v (n, s')"
  proof (rule inode_scan.raw_induct [where P = ?P, OF _ assms])
    fix f sb b off v r
    fix s :: "'a bstate_scheme"
    assume IH: "\<And>sb s b off v r. f sb s b off v = Some r \<Longrightarrow> ?P sb s b off v r"
      and eq: "(if v = inode_count sb then Some (-1, s)
        else case read_block s b of
          None \<Rightarrow> Some (0, s)
        | Some buff \<Rightarrow> do {
            r \<leftarrow> for_loop off (inodes_per_block sb) (scan_step buff) v;
            case r of
              Inr v \<Rightarrow> Some (latest_inum sb, s\<lparr>super_block := Some (sb\<lparr>latest_inum := latest_inum sb + v\<rparr>)\<rparr>)
            | Inl v \<Rightarrow> f sb s (b mod INODE_B_COUNT + 1) 0 v }) = Some r"
    show "?P sb s b off v r"
    proof (cases "v = inode_count sb")
      case True
      with eq show ?thesis by auto
    next
      case ne: False
      show ?thesis
      proof (cases "read_block s b")
        case None
        with ne eq show ?thesis by auto
      next
        case (Some buff)
        with ne eq obtain c where c: "for_loop off (inodes_per_block sb) (scan_step buff) v = Some c"
          "(case c of Inr v \<Rightarrow> Some (latest_inum sb, s\<lparr>super_block := Some (sb\<lparr>latest_inum := latest_inum sb + v\<rparr>)\<rparr>)
            | Inl v \<Rightarrow> f sb s (b mod INODE_B_COUNT + 1) 0 v) = Some r"
          by (auto simp: bind_eq_Some_conv)
        show ?thesis
        proof (cases c)
          case (Inl w)
          with c(2) IH show ?thesis by simp
        next
          case (Inr w)
          with c(2) show ?thesis by auto
        qed
      qed
    qed
  qed
  then show ?thesis by simp
qed

section \<open>The initial inode list\<close>

lemma slot_loop:
  assumes "wf_inode inode"
  shows "\<exists>off b. (for_loop 0 21 (slot_step inode) (0, zero_buf) :: ((int \<times> buffer) + 'r) option) =
      Some (Inl (off, b)) \<and> (\<forall>k. 0 \<le> k \<and> k < 21 \<longrightarrow> get_inode b (k * 192) = inode)"
proof -
  let ?I = "\<lambda>j (off, b). off = j * 192 \<and> (\<forall>k. 0 \<le> k \<and> k < j \<longrightarrow> get_inode b (k * 192) = inode)"
  let ?step = "slot_step inode :: int \<Rightarrow> _ \<Rightarrow> (_, 'r) ctl option"
  have "\<exists>u. for_loop 0 21 ?step (0, zero_buf) = Some (Inl u) \<and> ?I 21 u"
  proof (rule for_loop_total)
    fix j u
    assume j: "0 \<le> j" and I: "?I j u"
    obtain off b where u: "u = (off, b)" by (cases u)
    let ?b = "put_inode b (j * 192) inode"
    have "get_inode ?b (k * 192) = inode" if k: "0 \<le> k" "k < j + 1" for k
    proof (cases "k = j")
      case True
      with assms show ?thesis by (simp add: get_put_inode)
    next
      case False
      then have "get_inode ?b (k * 192) = get_inode b (k * 192)"
        using assms k by (intro get_put_inode_other) (auto simp: wf_inode_def)
      with I u k False show ?thesis by simp
    qed
    moreover have "?step j u = Some (Next ((j + 1) * 192, ?b))"
      using I u by (simp add: slot_step_def geometry algebra_simps)
    ultimately show "\<exists>u'. ?step j u = Some (Next u') \<and> ?I (j + 1) u'" by auto
  qed auto
  then show ?thesis by auto
qed

lemma inode_block_step_ok:
  assumes "healthy s" "block_ok i" "wf_inode inode"
  obtains b where "inode_block_step inode 21 i s = Some (Next (s\<lparr>blocks := (blocks s)(i := b)\<rparr>))"
    "\<And>k. 0 \<le> k \<Longrightarrow> k < 21 \<Longrightarrow> get_inode b (k * 192) = inode"
proof -
  obtain off b where
    "for_loop 0 21 (slot_step inode) (0, zero_buf) =
       Some (Inl (off, b) :: (int \<times> buffer) + (bool \<times> 'a bstate_scheme))"
    "\<forall>k. 0 \<le> k \<and> k < 21 \<longrightarrow> get_inode b (k * 192) = inode"
    using slot_loop [OF assms(3)] by metis
  with assms show thesis
    by (intro that [of b]) (simp_all add: inode_block_step_def write_block_healthy)
qed

lemma blank_inode_wf: "wf_inode junk \<Longrightarrow> wf_inode (blank_inode junk)"
  by (simp add: wf_inode_def blank_inode_def list_all_iff in_s64_def)

lemma init_inode_list_spec:
  assumes "healthy s" "sb_ok s" "wf_inode junk"
  obtains bs where "init_inode_list junk s = Some (True, s\<lparr>blocks := bs\<rparr>)"
    "\<And>n. 0 \<le> n \<Longrightarrow> n < INODE_B_COUNT * 21 \<Longrightarrow> inode_at (s\<lparr>blocks := bs\<rparr>) n = blank_inode junk"
    "\<And>b. b < 1 \<or> b > INODE_B_COUNT \<Longrightarrow> bs b = blocks s b"
proof -
  let ?inode = "blank_inode junk"
  let ?inv = "\<lambda>i bs. (\<forall>b k. 1 \<le> b \<and> b < i \<and> 0 \<le> k \<and> k < 21 \<longrightarrow> get_inode (bs b) (k * 192) = ?inode) \<and>
      (\<forall>b. b < 1 \<or> b \<ge> i \<longrightarrow> bs b = blocks s b)"
  let ?I = "\<lambda>i t. \<exists>bs. t = s\<lparr>blocks := bs\<rparr> \<and> ?inv i bs"
  have wf: "wf_inode ?inode" using assms(3) by (rule blank_inode_wf)
  have "\<exists>t. for_loop 1 (INODE_B_COUNT + 1) (inode_block_step ?inode 21) s = Some (Inl t) \<and>
      ?I (INODE_B_COUNT + 1) t"
  proof (rule for_loop_total)
    fix i t
    assume i: "1 \<le> i" "i < INODE_B_COUNT + 1" and "?I i t"
    then obtain bs where t: "t = s\<lparr>blocks := bs\<rparr>" and inv: "?inv i bs" by blast
    have ok: "healthy t" "block_ok i" using assms(1) i by (auto simp: t block_ok_def geometry)
    obtain b where "inode_block_step ?inode 21 i t = Some (Next (t\<lparr>blocks := (blocks t)(i := b)\<rparr>))"
      "\<And>k. 0 \<le> k \<Longrightarrow> k < 21 \<Longrightarrow> get_inode b (k * 192) = ?inode"
      using inode_block_step_ok [OF ok wf] by metis
    moreover from this(2) inv i(1) have "?inv (i + 1) (bs(i := b))" by auto
    ultimately show "\<exists>t'. inode_block_step ?inode 21 i t = Some (Next t') \<and> ?I (i + 1) t'"
      by (auto simp: t)
  next
    show "?I 1 s" by (intro exI [of _ "blocks s"]) auto
  qed (simp add: geometry)
  then obtain bs where bs: "for_loop 1 (INODE_B_COUNT + 1) (inode_block_step ?inode 21) s =
      Some (Inl (s\<lparr>blocks := bs\<rparr>))" and inv: "?inv (INODE_B_COUNT + 1) bs" by blast
  have "inode_at (s\<lparr>blocks := bs\<rparr>) n = ?inode" if "0 \<le> n" "n < INODE_B_COUNT * 21" for n
    using inv inode_block_range [OF that] by (simp add: inode_at_def inode_slot_def)
  moreover have "init_inode_list junk s = Some (True, s\<lparr>blocks := bs\<rparr>)"
    using assms(2) bs by (auto simp: init_inode_list_def sb_ok_def)
  ultimately show thesis using inv by (intro that [of bs]) auto
qed

section \<open>Properties\<close>

text \<open>
  C26: an inode that was written is read back as written, every other inode and every data
  block keeps its value, and so do the free blocks.
\<close>

theorem write_inode_read_inode:
  assumes "healthy s" "sb_ok s" "inum_ok n" "wf_inode i"
  shows "\<exists>s'. write_inode s n i = Some (True, s') \<and>
    (\<forall>m. read_inode s' m = (if m = n then Some (Some i) else read_inode s m)) \<and>
    (\<forall>b. data_block b \<longrightarrow> blocks s' b = blocks s b) \<and>
    (fl_inv s \<longrightarrow> fl_inv s' \<and> free_set s' = free_set s)"
proof -
  obtain s' where s': "write_inode s n i = Some (True, s')"
    "\<forall>m. read_inode s' m = (if m = n then Some (Some i) else read_inode s m)"
    "\<forall>b. data_block b \<longrightarrow> blocks s' b = blocks s b"
    using inodes.put_valid [of s n i] assms by blast
  moreover have "s' = s\<lparr>blocks := blocks s'\<rparr>"
    using s'(1) assms by (auto simp: write_inode_ok)
  ultimately show ?thesis using fl_inv_frame [of s "blocks s'"] by metis
qed

theorem write_inode_read_inode_witness:
  "\<exists>s'. write_inode sample_volume 3 (blank_inode (inode_at sample_volume 4)) = Some (True, s') \<and>
    read_inode s' 3 = Some (Some (blank_inode (inode_at sample_volume 4))) \<and>
    free_set s' = {26215, 26216}"
proof -
  have "sb_ok sample_volume" by (simp add: sb_ok_def sample_volume_def geometry)
  moreover have "inum_ok 3" by (simp add: inum_ok_def geometry)
  moreover have "wf_inode (blank_inode (inode_at sample_volume 4))"
    by (rule blank_inode_wf) (simp add: inode_at_def)
  ultimately show ?thesis
    using write_inode_read_inode [OF sample_volume_healthy] sample_volume_fl by fastforce
qed

text \<open>
  C30: while the slots from \<open>latest_inum\<close> on are free, creating inodes hands out consecutive
  new numbers, all different, and leaves the device and the free blocks alone.
\<close>

theorem create_new_inode_hands_out_fresh_numbers:
  assumes "healthy s" "sb_ok s" "super_block s = Some sb" "0 < latest_inum sb"
    and "latest_inum sb + int k \<le> INODE_B_COUNT * 21"
    and "\<And>n. latest_inum sb \<le> n \<Longrightarrow> n < latest_inum sb + int k \<Longrightarrow> \<not> allocated (inode_at s n)"
  shows "alloc_many create_new_inode k s =
    Some ([latest_inum sb..latest_inum sb + int k - 1],
          s\<lparr>super_block := Some (sb\<lparr>latest_inum := latest_inum sb + int k\<rparr>)\<rparr>)"
  using assms
proof (induction k arbitrary: s sb)
  case 0
  then show ?case by simp
next
  case (Suc k)
  let ?l = "latest_inum sb"
  let ?sb = "sb\<lparr>latest_inum := ?l + 1\<rparr>"
  let ?s = "s\<lparr>super_block := Some ?sb\<rparr>"
  have one: "create_new_inode s = Some (?l, ?s)"
    using Suc.prems by (intro create_new_inode_fresh) (auto simp: inum_ok_def)
  have "inode_at ?s = inode_at s" by (simp add: fun_eq_iff inode_at_def)
  then have "alloc_many create_new_inode k ?s =
    Some ([latest_inum ?sb..latest_inum ?sb + int k - 1],
          ?s\<lparr>super_block := Some (?sb\<lparr>latest_inum := latest_inum ?sb + int k\<rparr>)\<rparr>)"
    using Suc.prems by (intro Suc.IH) auto
  with one show ?case by (simp add: upto_rec1 [of ?l] add.assoc)
qed

theorem create_new_inode_hands_out_fresh_numbers_witness:
  "\<exists>s'. alloc_many create_new_inode 5 sample_volume = Some ([3, 4, 5, 6, 7], s')"
proof -
  let ?sb = "\<lparr>inode_count = 550494, latest_inum = 3, inodes_per_block = 21, free_list_head = 26215\<rparr>"
  have "\<not> allocated (inode_at sample_volume n)" if "3 \<le> n" "n < 3 + int 5" for n
  proof -
    have "inode_block n \<noteq> 26215" using that by (simp add: inode_block_def)
    then show ?thesis by (simp add: sample_volume_def inode_at_def get_inode_def ld_bool_def)
  qed
  with create_new_inode_hands_out_fresh_numbers [OF sample_volume_healthy, of ?sb 5] show ?thesis
    by (simp add: sb_ok_def sample_volume_def geometry upto_rec_numeral)
qed

text \<open>
  Whatever \<open>create_new_inode\<close> returns, the device is as before: the flag that marks the
  inode as taken never reaches the disk, and reading the new inode does not show it.
\<close>

theorem create_new_inode_never_marks_the_inode:
  assumes "sb_ok s" "create_new_inode s = Some (n, s')"
  shows "blocks s' = blocks s \<and> (\<forall>m. read_inode s' m = read_inode s m)"
proof -
  from assms(1) obtain sb where sb: "super_block s = Some sb" by (auto simp: sb_ok_def)
  have "s' = s \<or> (\<exists>l. s' = s\<lparr>super_block := Some (sb\<lparr>latest_inum := l\<rparr>)\<rparr>)"
    using assms(2) unfolding create_new_inode_scan [OF assms(1) sb]
    by (cases "inum_ok (latest_inum sb)") (auto dest!: inode_scan_frame)
  moreover have "read_inode (s\<lparr>super_block := Some (sb\<lparr>latest_inum := l\<rparr>)\<rparr>) m = read_inode s m" for l m
    using sb by (simp add: read_inode_def is_valid_inum_def inode_num_to_block_id_def
        inode_num_to_offset_def read_block_cases readable_def)
  ultimately show ?thesis by auto
qed

theorem create_new_inode_never_marks_the_inode_witness:
  "\<exists>s'. create_new_inode sample_volume = Some (3, s') \<and>
    read_inode s' 3 = read_inode sample_volume 3"
proof -
  have ok: "sb_ok sample_volume" by (simp add: sb_ok_def sample_volume_def geometry)
  have "\<not> allocated (inode_at sample_volume 3)"
    by (simp add: sample_volume_def inode_at_def inode_block_def get_inode_def ld_bool_def)
  then obtain s' where s': "create_new_inode sample_volume = Some (3, s')"
    using create_new_inode_fresh [OF sample_volume_healthy ok]
    by (force simp: sample_volume_def inum_ok_def geometry)
  with create_new_inode_never_marks_the_inode [OF ok s'] show ?thesis by blast
qed

text \<open>
  When the slot of \<open>latest_inum\<close> is taken and the search ends further on in the same
  inode block, the number returned is still \<open>latest_inum\<close>: an inode that is in use.
\<close>

theorem create_new_inode_returns_a_taken_inode:
  assumes "healthy s" "sb_ok s" "super_block s = Some sb" "inum_ok (latest_inum sb)"
    and "latest_inum sb mod 21 < 20"
    and "allocated (inode_at s (latest_inum sb))" "\<not> allocated (inode_at s (latest_inum sb + 1))"
  shows "\<exists>s'. create_new_inode s = Some (latest_inum sb, s') \<and>
    read_inode s' (latest_inum sb) = Some (Some (inode_at s (latest_inum sb))) \<and>
    allocated (inode_at s (latest_inum sb))"
proof -
  have "allocated (inode_at s (latest_inum sb + j))" if "0 \<le> j" "j < 1" for j
  proof -
    have "j = 0" using that by simp
    with assms(6) show ?thesis by simp
  qed
  then have "create_new_inode s =
      Some (latest_inum sb, s\<lparr>super_block := Some (sb\<lparr>latest_inum := latest_inum sb + 1 + 1\<rparr>)\<rparr>)"
    using assms by (intro create_new_inode_skips) auto
  moreover have "inode_at (s\<lparr>super_block := q\<rparr>) = inode_at s" for q
    by (simp add: fun_eq_iff inode_at_def)
  ultimately show ?thesis using assms by (simp add: read_inode_ok)
qed

theorem create_new_inode_returns_a_taken_inode_witness:
  "\<exists>s'. create_new_inode (sample_volume\<lparr>blocks := (\<lambda>_. zero_buf)(1 := zero_buf(704 := 1))\<rparr>) =
    Some (3, s')"
proof -
  let ?s = "sample_volume\<lparr>blocks := (\<lambda>_. zero_buf)(1 := zero_buf(704 := 1))\<rparr>"
  let ?sb = "\<lparr>inode_count = 550494, latest_inum = 3, inodes_per_block = 21, free_list_head = 26215\<rparr>"
  have "healthy ?s" using sample_volume_healthy by simp
  moreover have "sb_ok ?s" "super_block ?s = Some ?sb"
    by (simp_all add: sb_ok_def sample_volume_def geometry)
  moreover have "inum_ok (latest_inum ?sb)" "latest_inum ?sb mod 21 < 20"
    by (simp_all add: inum_ok_def geometry)
  moreover have "allocated (inode_at ?s (latest_inum ?sb))"
    "\<not> allocated (inode_at ?s (latest_inum ?sb + 1))"
    by (simp_all add: inode_at_def inode_block_def inode_slot_def get_inode_def ld_bool_def)
  ultimately have "\<exists>s'. create_new_inode ?s = Some (latest_inum ?sb, s') \<and>
      read_inode s' (latest_inum ?sb) = Some (Some (inode_at ?s (latest_inum ?sb))) \<and>
      allocated (inode_at ?s (latest_inum ?sb))"
    by (rule create_new_inode_returns_a_taken_inode)
  then show ?thesis by auto
qed

text \<open>
  C33: when every inode is taken and \<open>latest_inum\<close> is not the first inode of its block,
  \<open>create_new_inode\<close> does not return at all: its counter steps over \<open>inode_count\<close>.
\<close>

theorem create_new_inode_never_returns_on_full_table:
  assumes "healthy s" "sb_ok s" "super_block s = Some sb" "inum_ok (latest_inum sb)"
    and "latest_inum sb mod 21 \<noteq> 0"
    and "\<And>n. 0 \<le> n \<Longrightarrow> n < INODE_B_COUNT * 21 \<Longrightarrow> allocated (inode_at s n)"
  shows "create_new_inode s = None"
proof (rule ccontr)
  let ?l = "latest_inum sb"
  assume "create_new_inode s \<noteq> None"
  then obtain r where r: "inode_scan sb s (inode_block ?l) (?l mod 21) 0 = Some r"
    using assms(4) by (auto simp: create_new_inode_scan [OF assms(2,3)])
  have full: "allocated (get_inode (blocks s b) (k * 192))"
    if "1 \<le> b" "b \<le> INODE_B_COUNT" "0 \<le> k" "k < 21" for b k
  proof -
    have "inode_block ((b - 1) * 21 + k) = b" "((b - 1) * 21 + k) mod 21 = k"
      using that by (simp add: inode_block_def, simp only: mod_mult_self3 mod_pos_pos_trivial)
    with assms(6) [of "(b - 1) * 21 + k"] that show ?thesis by (simp add: inode_at_slot geometry)
  qed
  have "inode_count sb = INODE_B_COUNT * 21" "inodes_per_block sb = 21"
    using assms(2,3) by (auto simp: sb_ok_def)
  moreover have "1 \<le> inode_block ?l" "inode_block ?l \<le> INODE_B_COUNT"
    using assms(4) inode_block_range [of ?l] by (auto simp: inum_ok_def)
  moreover have "(0 - ?l mod 21) mod 21 \<noteq> 0"
    using assms(5) by (simp add: mod_minus_eq zmod_zminus1_eq_if)
  ultimately show False
    using inode_scan_diverges [OF r assms(1)] full by simp
qed

theorem create_new_inode_never_returns_on_full_table_witness:
  "create_new_inode (sample_volume\<lparr>blocks := (\<lambda>_ _. 255)\<rparr>) = None"
proof -
  let ?s = "sample_volume\<lparr>blocks := (\<lambda>_ _. 255)\<rparr>"
  let ?sb = "\<lparr>inode_count = 550494, latest_inum = 3, inodes_per_block = 21, free_list_head = 26215\<rparr>"
  have "healthy ?s" using sample_volume_healthy by simp
  moreover have "sb_ok ?s" "super_block ?s = Some ?sb"
    by (simp_all add: sb_ok_def sample_volume_def geometry)
  moreover have "inum_ok (latest_inum ?sb)" "latest_inum ?sb mod 21 \<noteq> 0"
    by (simp_all add: inum_ok_def geometry)
  moreover have "allocated (inode_at ?s n)" for n
    by (simp add: inode_at_def get_inode_def ld_bool_def)
  ultimately show ?thesis by (rule create_new_inode_never_returns_on_full_table)
qed

end
