(* ===== verification/FreeListInit.thy ===== *)
theory FreeListInit
  imports Allocator
begin

text \<open>
  What \<open>init_freelist\<close> (\<open>lib/block_layer.c\<close>) builds on a volume of zeros: 461 list blocks,
  each listing the 511 blocks that follow it (fewer in the last one), linked in order. Read
  through the abstraction of theory \<open>FreeList\<close> this is the free list of all data blocks.
\<close>

section \<open>One list block\<close>

text \<open>What \<open>init_freelist\<close> stores for the number \<open>v\<close>, and in the list block \<open>x\<close>.\<close>

definition flval :: "int \<Rightarrow> int" where
  "flval v = (if v \<ge> BLOCK_COUNT then 0 else v)"

definition fl_node :: "int \<Rightarrow> buffer \<Rightarrow> bool" where
  "fl_node x b \<longleftrightarrow> (\<forall>k. 1 \<le> k \<and> k \<le> 511 \<longrightarrow> ld_s64 b (8 * k) = flval (x + k)) \<and>
     ld_s64 b 0 = flval (x + 512)"

lemma flval_in_s64: "0 \<le> v \<Longrightarrow> in_s64 (flval v)"
  by (simp add: flval_def in_s64_def geometry)

lemma fill_loop:
  assumes "0 \<le> x"
  shows "\<exists>off b. (for_loop 1 DBLOCKS_PER_BLOCK fill_step (0, x, zero_buf) ::
        ((int \<times> int \<times> buffer) + 'r) option) = Some (Inl (off, x + 511, b)) \<and>
      (\<forall>k. 1 \<le> k \<and> k \<le> 511 \<longrightarrow> ld_s64 b (8 * k) = flval (x + k))"
proof -
  let ?I = "\<lambda>j (off, bid, b). off = 8 * (j - 1) \<and> bid = x + j - 1 \<and>
      (\<forall>k. 1 \<le> k \<and> k < j \<longrightarrow> ld_s64 b (8 * k) = flval (x + k))"
  let ?step = "fill_step :: int \<Rightarrow> _ \<Rightarrow> (_, 'r) ctl option"
  have "\<exists>u. for_loop 1 DBLOCKS_PER_BLOCK ?step (0, x, zero_buf) = Some (Inl u) \<and>
      ?I DBLOCKS_PER_BLOCK u"
  proof (rule for_loop_total)
    fix j s
    assume j: "1 \<le> j" "j < DBLOCKS_PER_BLOCK" and I: "?I j s"
    obtain off bid b where s: "s = (off, bid, b)" by (cases s)
    let ?b = "st_s64 b (8 * j) (flval (x + j))"
    have "?step j s = Some (Next (8 * j, x + j, ?b))"
      using I by (simp add: s fill_step_def flval_def geometry Let_def)
    moreover have "ld_s64 ?b (8 * k) = flval (x + k)" if "1 \<le> k" "k < j + 1" for k
    proof (cases "k = j")
      case True
      then show ?thesis using assms j by (simp add: ld_st_s64_same flval_in_s64)
    next
      case False
      then have "ld_s64 ?b (8 * k) = ld_s64 b (8 * k)" using that by (intro ld_st_s64_other) auto
      then show ?thesis using I that False by (simp add: s)
    qed
    ultimately show "\<exists>s'. ?step j s = Some (Next s') \<and> ?I (j + 1) s'" by auto
  qed (auto simp: geometry)
  then obtain off bid b where
    b: "for_loop 1 DBLOCKS_PER_BLOCK ?step (0, x, zero_buf) = Some (Inl (off, bid, b))"
    and I: "?I DBLOCKS_PER_BLOCK (off, bid, b)" by auto
  have "bid = x + 511" using I by (simp add: geometry)
  moreover have "\<forall>k. 1 \<le> k \<and> k \<le> 511 \<longrightarrow> ld_s64 b (8 * k) = flval (x + k)"
    using I by (auto simp: geometry)
  ultimately show ?thesis using b by blast
qed

lemma freelist_step_node:
  assumes "healthy s" "data_block x"
  obtains b where "fl_node x b"
    "freelist_step i (x, s) =
       (if x + 512 \<ge> BLOCK_COUNT
        then Some (Break (x + 512, s\<lparr>blocks := (blocks s)(x := b)\<rparr>))
        else Some (Next (x + 512, s\<lparr>blocks := (blocks s)(x := b)\<rparr>)))"
proof -
  have x: "0 \<le> x" "block_ok x" using assms(2) by (auto simp: data_block_def block_ok_def geometry)
  from fill_loop [OF x(1)] obtain off b where
    b: "for_loop 1 DBLOCKS_PER_BLOCK fill_step (0, x, zero_buf) =
        Some (Inl (off, x + 511, b) :: _ + bool \<times> 'a bstate_scheme)"
    "\<And>k. 1 \<le> k \<Longrightarrow> k \<le> 511 \<Longrightarrow> ld_s64 b (8 * k) = flval (x + k)"
    by blast
  have "ld_s64 (st_s64 b 0 (flval (x + 512))) (8 * k) = flval (x + k)" if "1 \<le> k" "k \<le> 511" for k
    using b(2) [OF that] that by (subst ld_st_s64_other) auto
  then have "fl_node x (st_s64 b 0 (flval (x + 512)))"
    using x by (simp add: fl_node_def ld_st_s64_same flval_in_s64)
  moreover have "freelist_step i (x, s) =
       (if x + 512 \<ge> BLOCK_COUNT
        then Some (Break (x + 512, s\<lparr>blocks := (blocks s)(x := st_s64 b 0 (flval (x + 512)))\<rparr>))
        else Some (Next (x + 512, s\<lparr>blocks := (blocks s)(x := st_s64 b 0 (flval (x + 512)))\<rparr>)))"
    using assms(1) x by (simp add: freelist_step_def b(1) write_block_healthy flval_def Let_def add.commute)
  ultimately show thesis by (rule that)
qed

text \<open>The \<open>k\<close>-th list block.\<close>

definition fl_index :: "int \<Rightarrow> int" where
  "fl_index k = INODE_B_COUNT + 1 + 512 * k"

lemma fl_index_data: "0 \<le> k \<Longrightarrow> k < 461 \<Longrightarrow> data_block (fl_index k)"
  by (simp add: fl_index_def data_block_def geometry)

lemma fl_index_gap: "1 \<le> j \<Longrightarrow> j \<le> 511 \<Longrightarrow> fl_index k + j \<noteq> fl_index k'"
proof
  assume j: "1 \<le> j" "j \<le> 511" and "fl_index k + j = fl_index k'"
  then have "j = 512 * (k' - k)" by (simp add: fl_index_def algebra_simps)
  then have "512 dvd j" by simp
  with j zdvd_not_zless [of j 512] show False by simp
qed

lemma freelist_loop:
  assumes "healthy s"
  shows "\<exists>bid bs. for_loop 0 FREE_LIST_BLOCKS freelist_step (INODE_B_COUNT + 1, s) =
      Some (Inl (bid, s\<lparr>blocks := bs\<rparr>)) \<and>
      (\<forall>k. 0 \<le> k \<and> k < 461 \<longrightarrow> fl_node (fl_index k) (bs (fl_index k))) \<and>
      (\<forall>b. (\<forall>k. 0 \<le> k \<and> k < 461 \<longrightarrow> b \<noteq> fl_index k) \<longrightarrow> bs b = blocks s b)"
proof -
  let ?inv = "\<lambda>i bs. (\<forall>k. 0 \<le> k \<and> k < i \<longrightarrow> fl_node (fl_index k) (bs (fl_index k))) \<and>
      (\<forall>b. (\<forall>k. 0 \<le> k \<and> k < i \<longrightarrow> b \<noteq> fl_index k) \<longrightarrow> bs b = blocks s b)"
  let ?I = "\<lambda>i (bid, t). bid = fl_index i \<and> (\<exists>bs. t = s\<lparr>blocks := bs\<rparr> \<and> ?inv i bs)"
  let ?B = "\<lambda>(bid, t). \<exists>bs. t = s\<lparr>blocks := bs\<rparr> \<and> ?inv 461 bs"
  have "(\<exists>s'. for_loop 0 FREE_LIST_BLOCKS freelist_step (INODE_B_COUNT + 1, s) = Some (Inl s') \<and>
        (?I FREE_LIST_BLOCKS s' \<or> ?B s')) \<or>
      (\<exists>r. for_loop 0 FREE_LIST_BLOCKS freelist_step (INODE_B_COUNT + 1, s) = Some (Inr r) \<and> False)"
  proof (rule for_loop_rule)
    show "?I 0 (INODE_B_COUNT + 1, s)" by (auto simp: fl_index_def intro!: exI [of _ "blocks s"])
  next
    fix i u
    assume i: "0 \<le> i" "i < FREE_LIST_BLOCKS" and I: "?I i u"
    then obtain bs where u: "u = (fl_index i, s\<lparr>blocks := bs\<rparr>)" and inv: "?inv i bs"
      by (cases u) auto
    have d: "data_block (fl_index i)" using i by (intro fl_index_data) (auto simp: geometry)
    have "healthy (s\<lparr>blocks := bs\<rparr>)" using assms by simp
    from freelist_step_node [OF this d] obtain b where b: "fl_node (fl_index i) b"
      "freelist_step i u = (if fl_index i + 512 \<ge> BLOCK_COUNT
        then Some (Break (fl_index i + 512, s\<lparr>blocks := bs(fl_index i := b)\<rparr>))
        else Some (Next (fl_index i + 512, s\<lparr>blocks := bs(fl_index i := b)\<rparr>)))"
      unfolding u by (metis (no_types, lifting) disk.select_convs(7) disk.surjective disk.update_convs(7))
    have "fl_index k = fl_index i \<longleftrightarrow> k = i" for k by (auto simp: fl_index_def)
    then have inv': "?inv (i + 1) (bs(fl_index i := b))" using inv b(1) i by fastforce
    have nxt: "fl_index i + 512 = fl_index (i + 1)" by (simp add: fl_index_def)
    show "(\<exists>s'. freelist_step i u = Some (Next s') \<and> ?I (i + 1) s') \<or>
          (\<exists>s'. freelist_step i u = Some (Break s') \<and> ?B s') \<or>
          (\<exists>r. freelist_step i u = Some (Return r) \<and> False)"
    proof (cases "fl_index i + 512 \<ge> BLOCK_COUNT")
      case True
      then have "i + 1 = 461" using i by (simp add: fl_index_def geometry)
      with True b(2) inv' show ?thesis by (intro disjI2 disjI1) auto
    next
      case False
      with b(2) inv' nxt show ?thesis by (intro disjI1) auto
    qed
  qed (simp add: geometry)
  then show ?thesis by (auto simp: geometry)
qed

text \<open>The chain of list blocks from \<open>x\<close> on, and the run of block numbers it covers.\<close>

function nodes_from :: "int \<Rightarrow> int list" where
  "nodes_from x = (if x \<ge> BLOCK_COUNT then [] else x # nodes_from (x + 512))"
  by pat_completeness auto
termination
  by (relation "measure (\<lambda>x. nat (BLOCK_COUNT - x))") auto

declare nodes_from.simps [simp del]

lemma nodes_from_index:
  "x = fl_index k \<Longrightarrow> 0 \<le> k \<Longrightarrow> y \<in> set (nodes_from x) \<Longrightarrow> \<exists>j. k \<le> j \<and> j < 461 \<and> y = fl_index j"
proof (induction x arbitrary: k rule: nodes_from.induct)
  case (1 x)
  show ?case
  proof (cases "x \<ge> BLOCK_COUNT")
    case True
    then have "nodes_from x = []" by (simp add: nodes_from.simps [of x])
    with "1.prems" show ?thesis by simp
  next
    case False
    then have y: "y = x \<or> y \<in> set (nodes_from (x + 512))"
      using "1.prems"(3) by (simp add: nodes_from.simps [of x])
    have k: "k < 461" using False "1.prems"(1) by (simp add: fl_index_def geometry)
    show ?thesis
    proof (cases "y = x")
      case True
      with k "1.prems" show ?thesis by auto
    next
      case False
      have "x + 512 = fl_index (k + 1)" using "1.prems"(1) by (simp add: fl_index_def)
      from "1.IH" [OF \<open>\<not> x \<ge> BLOCK_COUNT\<close> this] y False "1.prems"(2)
      obtain j where "k + 1 \<le> j" "j < 461" "y = fl_index j" by auto
      then show ?thesis by (intro exI [of _ j]) auto
    qed
  qed
qed

lemma upto_append: "i - 1 \<le> j \<Longrightarrow> j \<le> k \<Longrightarrow> [i..j] @ [j + 1..k] = [i..k]"
  by (cases "j = i - 1") (auto simp: upto_split2 [of i j k])

lemma fl_node_entries:
  assumes "fl_node x b" "0 < x" "x < BLOCK_COUNT"
  shows "x # entries b = [x..min (x + 511) (BLOCK_COUNT - 1)]"
proof -
  let ?m = "min 511 (BLOCK_COUNT - 1 - x)"
  have m: "0 \<le> ?m" "?m \<le> 511" using assms by auto
  have sh: "map (\<lambda>k. x + k) [a..c] = [x + a..x + c]" for a c
    by (rule nth_equalityI) auto
  have "map (\<lambda>i. ld_s64 b (8 * i)) [1..511] = map (\<lambda>i. flval (x + i)) [1..511]"
    using assms(1) by (auto simp: fl_node_def)
  then have "entries b = filter (\<lambda>v. v \<noteq> 0) (map (\<lambda>i. flval (x + i)) [1..511])"
    by (simp only: entries_def)
  also have "[1..511] = [1..?m] @ [?m + 1..511]" using m by (intro upto_append [symmetric]) auto
  also have "filter (\<lambda>v. v \<noteq> 0) (map (\<lambda>i. flval (x + i)) \<dots>) =
      filter (\<lambda>v. v \<noteq> 0) (map (\<lambda>i. flval (x + i)) [1..?m]) @
      filter (\<lambda>v. v \<noteq> 0) (map (\<lambda>i. flval (x + i)) [?m + 1..511])"
    by (simp only: map_append filter_append)
  also have "map (\<lambda>i. flval (x + i)) [1..?m] = map (\<lambda>i. x + i) [1..?m]"
    by (auto simp: flval_def)
  also have "filter (\<lambda>v. v \<noteq> 0) (map (\<lambda>i. x + i) [1..?m]) = map (\<lambda>i. x + i) [1..?m]"
    using assms by (auto simp: filter_id_conv)
  also have "filter (\<lambda>v. v \<noteq> 0) (map (\<lambda>i. flval (x + i)) [?m + 1..511]) = []"
    by (auto simp: filter_empty_conv flval_def)
  finally have "entries b = [x + 1..x + ?m]" by (simp add: sh)
  moreover have "[x..x + ?m] = x # [x + 1..x + ?m]" using m by (subst upto.simps) auto
  moreover have "x + ?m = min (x + 511) (BLOCK_COUNT - 1)" by auto
  ultimately show ?thesis by simp
qed

lemma fresh_chain:
  assumes "\<And>y. y \<in> set (nodes_from x) \<Longrightarrow> fl_node y (bs y)" "0 < x"
  shows "fl_chain bs (flval x) (nodes_from x)"
    "fl_blocks bs (nodes_from x) = [x..BLOCK_COUNT - 1]"
proof -
  have "fl_chain bs (flval x) (nodes_from x) \<and> fl_blocks bs (nodes_from x) = [x..BLOCK_COUNT - 1]"
    using assms
  proof (induction x rule: nodes_from.induct)
    case (1 x)
    show ?case
    proof (cases "x \<ge> BLOCK_COUNT")
      case True
      then show ?thesis by (simp add: nodes_from.simps [of x] flval_def)
    next
      case False
      then have unf: "nodes_from x = x # nodes_from (x + 512)" by (simp add: nodes_from.simps [of x])
      have IH: "fl_chain bs (flval (x + 512)) (nodes_from (x + 512))"
        "fl_blocks bs (nodes_from (x + 512)) = [x + 512..BLOCK_COUNT - 1]"
        using "1.IH" [OF False] "1.prems" unf by auto
      have nd: "fl_node x (bs x)" using "1.prems"(1) unf by simp
      have "[x..min (x + 511) (BLOCK_COUNT - 1)] @ [x + 512..BLOCK_COUNT - 1] = [x..BLOCK_COUNT - 1]"
      proof (cases "x + 511 \<le> BLOCK_COUNT - 1")
        case True
        then show ?thesis using upto_append [of x "x + 511" "BLOCK_COUNT - 1"]
          by (simp add: add.commute)
      next
        case 2: False
        then show ?thesis by simp
      qed
      then have "fl_blocks bs (nodes_from x) = [x..BLOCK_COUNT - 1]"
        using fl_node_entries [OF nd] "1.prems"(2) False IH(2)
        by (simp add: unf append_Cons [symmetric] del: append_Cons)
      moreover have "fl_chain bs (flval x) (nodes_from x)"
        using IH(1) nd False "1.prems"(2) by (simp add: unf fl_node_def flval_def)
      ultimately show ?thesis by simp
    qed
  qed
  then show "fl_chain bs (flval x) (nodes_from x)"
    "fl_blocks bs (nodes_from x) = [x..BLOCK_COUNT - 1]" by auto
qed

lemma init_freelist_spec:
  assumes "healthy s" "super_block s = Some sb" "free_list_head sb = INODE_B_COUNT + 1"
    and "\<And>n. data_block n \<Longrightarrow> zeroed (blocks s n)"
  obtains bs where "init_freelist s = Some (True, s\<lparr>blocks := bs\<rparr>)"
    "fl_inv (s\<lparr>blocks := bs\<rparr>)" "free_set (s\<lparr>blocks := bs\<rparr>) = {n. data_block n}"
    "\<And>b. \<not> data_block b \<Longrightarrow> bs b = blocks s b"
proof -
  let ?xs = "nodes_from (INODE_B_COUNT + 1)"
  from freelist_loop [OF assms(1)] obtain bid bs where
    loop: "for_loop 0 FREE_LIST_BLOCKS freelist_step (INODE_B_COUNT + 1, s) =
      Some (Inl (bid, s\<lparr>blocks := bs\<rparr>))"
    and node: "\<And>k. 0 \<le> k \<Longrightarrow> k < 461 \<Longrightarrow> fl_node (fl_index k) (bs (fl_index k))"
    and other: "\<And>b. (\<forall>k. 0 \<le> k \<and> k < 461 \<longrightarrow> b \<noteq> fl_index k) \<Longrightarrow> bs b = blocks s b" by blast
  have idx: "\<exists>k. 0 \<le> k \<and> k < 461 \<and> y = fl_index k" if "y \<in> set ?xs" for y
    using nodes_from_index [of _ 0, OF _ _ that] by (auto simp: fl_index_def)
  then have nodes: "fl_node y (bs y)" if "y \<in> set ?xs" for y using that node by blast
  have "flval (INODE_B_COUNT + 1) = INODE_B_COUNT + 1" "0 < INODE_B_COUNT + 1"
    by (simp_all add: flval_def geometry)
  then have chain: "fl_chain bs (free_list_head sb) ?xs"
    "fl_blocks bs ?xs = [INODE_B_COUNT + 1..BLOCK_COUNT - 1]"
    using fresh_chain [of "INODE_B_COUNT + 1" bs, OF nodes] assms(3) by simp_all
  have zero: "zeroed (bs e)" if x: "x \<in> set ?xs" and e: "e \<in> set (entries (bs x))" for x e
  proof -
    have "e \<in> set (fl_blocks bs ?xs)" using that by (auto simp: fl_blocks_def)
    then have d: "data_block e" using chain(2) by (auto simp: data_block_def)
    from idx [OF x] obtain k where k: "x = fl_index k" by blast
    from e nodes [OF x] obtain j where j: "1 \<le> j" "j \<le> 511" "e = flval (fl_index k + j)" "e \<noteq> 0"
      unfolding in_entries fl_node_def k by metis
    then have "e = fl_index k + j" by (auto simp: flval_def split: if_splits)
    then have "e \<noteq> fl_index k'" for k' using fl_index_gap [OF j(1,2)] by simp
    then have "bs e = blocks s e" using other by blast
    with assms(4) [OF d] show ?thesis by simp
  qed
  let ?s = "s\<lparr>blocks := bs\<rparr>"
  have range: "\<forall>n \<in> set (fl_blocks bs ?xs). data_block n"
    unfolding chain(2) set_upto data_block_def by auto
  have "distinct (fl_blocks bs ?xs)" unfolding chain(2) by (rule distinct_upto)
  with chain(1) range zero have ok: "fl_ok bs (free_list_head sb) ?xs"
    unfolding fl_ok_def by blast
  then have "fl_inv ?s" using assms(1,2) unfolding fl_inv_def by auto
  moreover have "set (fl_blocks bs ?xs) = {n. data_block n}"
    unfolding chain(2) set_upto data_block_def by auto
  then have "free_set ?s = {n. data_block n}"
    using free_set_eq [of ?s sb ?xs] chain(1) assms(2) by simp
  moreover have "bs b = blocks s b" if "\<not> data_block b" for b
    using other [of b] that fl_index_data by blast
  moreover have "init_freelist s = Some (True, ?s)"
    using assms(2,3) loop by (simp add: init_freelist_def)
  ultimately show thesis by (intro that)
qed

end
