(* ===== verification/MakeFs.thy ===== *)
theory MakeFs
  imports InodeAlloc FreeListInit
begin

text \<open>
  Building a volume (\<open>make_fs\<close> of \<open>lib/block_layer.c\<close>): wipe the device, write the super
  block, the inode list and the free list. What the other components assume of a volume (a
  well formed free list, a super block with 21 inodes per block) is established here.
\<close>

section \<open>Operation\<close>

definition make_fs :: "iNode \<Rightarrow> 'a bstate_scheme \<Rightarrow> (bool \<times> 'a bstate_scheme) option" where
  "make_fs junk s = do {
     (ok, s) \<leftarrow> alloc_memory s;
     if \<not> ok then Some (False, s)
     else do {
       (ok, s) \<leftarrow> init_superblock s;
       if \<not> ok then Some (False, s)
       else do {
         (ok, s) \<leftarrow> init_inode_list junk s;
         if \<not> ok then Some (False, s)
         else do {
           (ok, s) \<leftarrow> init_freelist s;
           if \<not> ok then Some (False, s) else Some (True, s) } } } }"

text \<open>The super block \<open>init_superblock\<close> writes.\<close>

definition new_superblock :: superBlock where
  "new_superblock = \<lparr>inode_count = 550494, latest_inum = 3, inodes_per_block = 21,
     free_list_head = 26215\<rparr>"

lemma new_superblock_wf: "wf_superblock new_superblock"
  by (simp add: new_superblock_def wf_superblock_def in_s64_def)

lemma init_superblock_healthy:
  "healthy s \<Longrightarrow> init_superblock s = Some (True, s\<lparr>super_block := Some new_superblock,
     blocks := (blocks s)(0 := put_superblock zero_buf new_superblock)\<rparr>)"
  by (simp add: init_superblock_def write_superblock_healthy new_superblock_def geometry Let_def)

lemma alloc_memory_works:
  assumes "device_works d"
  obtains bs where "alloc_memory d = Some (True, d\<lparr>m_ptr := dev_open d, blocks := bs\<rparr>)"
    "\<And>i. block_ok i \<Longrightarrow> bs i = zero_buf"
proof -
  let ?d = "d\<lparr>m_ptr := dev_open d\<rparr>"
  have "healthy ?d" using assms by (simp add: healthy_def device_works_def)
  then have w: "\<forall>j. block_ok j \<longrightarrow> writable ?d j" by simp
  have "m_ptr ?d \<noteq> -1" using assms by (simp add: device_works_def)
  then show thesis
    using alloc_loop [OF _ _ w, of 0]
    by (intro that [of "\<lambda>j. if 0 \<le> j \<and> j < BLOCK_COUNT then zero_buf else blocks ?d j"])
       (auto simp: alloc_memory_def Let_def block_ok_def geometry)
qed

text \<open>The state once the volume is built, and what it holds.\<close>

definition built :: "'a bstate_scheme \<Rightarrow> (int \<Rightarrow> buffer) \<Rightarrow> 'a bstate_scheme" where
  "built s bs = s\<lparr>m_ptr := dev_open s, super_block := Some new_superblock, blocks := bs\<rparr>"

lemma make_fs_ok:
  assumes "device_works s" "wf_inode junk"
  obtains bs where "make_fs junk s = Some (True, built s bs)" "fl_inv (built s bs)"
    "free_set (built s bs) = {n. data_block n}" "sb_ok (built s bs)"
    "super_block (built s bs) = Some (get_superblock (blocks (built s bs) 0))"
    "\<And>n. inum_ok n \<Longrightarrow> inode_at (built s bs) n = blank_inode junk"
proof -
  obtain bs where a: "alloc_memory s = Some (True, s\<lparr>m_ptr := dev_open s, blocks := bs\<rparr>)"
    "\<And>i. block_ok i \<Longrightarrow> bs i = zero_buf" using alloc_memory_works [OF assms(1)] by metis
  let ?b0 = "put_superblock zero_buf new_superblock"
  define t where "t = s\<lparr>m_ptr := dev_open s, super_block := Some new_superblock, blocks := bs(0 := ?b0)\<rparr>"
  have ht: "healthy t" using assms(1) by (simp add: t_def healthy_def device_works_def)
  have sbt: "super_block t = Some new_superblock" "sb_ok t"
    by (simp_all add: t_def sb_ok_def new_superblock_def geometry)
  have h1: "healthy (s\<lparr>m_ptr := dev_open s, blocks := bs\<rparr>)"
    using assms(1) by (simp add: healthy_def device_works_def)
  have sb: "init_superblock (s\<lparr>m_ptr := dev_open s, blocks := bs\<rparr>) = Some (True, t)"
    using init_superblock_healthy [OF h1] by (simp add: t_def)
  obtain cs where c: "init_inode_list junk t = Some (True, t\<lparr>blocks := cs\<rparr>)"
    "\<And>n. 0 \<le> n \<Longrightarrow> n < INODE_B_COUNT * 21 \<Longrightarrow> inode_at (t\<lparr>blocks := cs\<rparr>) n = blank_inode junk"
    "\<And>b. b < 1 \<or> b > INODE_B_COUNT \<Longrightarrow> cs b = blocks t b"
    using init_inode_list_spec [OF ht sbt(2) assms(2)] by metis
  let ?u = "t\<lparr>blocks := cs\<rparr>"
  have z: "zeroed (blocks ?u n)" if "data_block n" for n
    using that c(3) [of n] a(2) [of n] by (simp add: t_def data_block_ok data_block_nonzero) (simp add: data_block_def)
  have u: "healthy ?u" "super_block ?u = Some new_superblock"
    "free_list_head new_superblock = INODE_B_COUNT + 1"
    using ht sbt by (simp_all add: new_superblock_def geometry)
  obtain ds where d: "init_freelist ?u = Some (True, ?u\<lparr>blocks := ds\<rparr>)"
    "fl_inv (?u\<lparr>blocks := ds\<rparr>)" "free_set (?u\<lparr>blocks := ds\<rparr>) = {n. data_block n}"
    "\<And>b. \<not> data_block b \<Longrightarrow> ds b = blocks ?u b"
    using init_freelist_spec [OF u z] by metis
  let ?v = "?u\<lparr>blocks := ds\<rparr>"
  have "inode_at ?v n = blank_inode junk" if "inum_ok n" for n
    using c(2) [of n] d(4) [of "inode_block n"] inode_block_not_data [OF that] that
    by (simp add: inode_at_def inum_ok_def)
  moreover have "super_block ?v = Some (get_superblock (blocks ?v 0))"
    using d(4) [of 0] c(3) [of 0] sbt(1) new_superblock_wf
    by (simp add: t_def get_put_superblock data_block_def geometry)
  moreover have "make_fs junk s = Some (True, ?v)"
    using a(1) sb c(1) d(1) by (simp add: make_fs_def)
  moreover have "?v = built s ds" by (simp add: built_def t_def)
  moreover have "sb_ok ?v" using sbt(2) by simp
  ultimately show thesis using that [of ds] d(2,3) by simp
qed

section \<open>Properties\<close>

text \<open>
  C21: on a device that works, building the volume succeeds and establishes what the other
  operations need: every data block is free and on a well formed free list, every inode
  number reads as an unused inode without blocks, and the super block on the device is the
  one in memory.
\<close>

theorem make_fs_builds_a_volume:
  assumes "device_works s" "wf_inode junk"
  shows "\<exists>s'. make_fs junk s = Some (True, s') \<and> fl_inv s' \<and> free_set s' = {n. data_block n} \<and>
    sb_ok s' \<and> super_block s' = Some (get_superblock (blocks s' 0)) \<and>
    (\<forall>n. inum_ok n \<longrightarrow> read_inode s' n = Some (Some (blank_inode junk)))"
proof -
  obtain bs where "make_fs junk s = Some (True, built s bs)" "fl_inv (built s bs)"
    "free_set (built s bs) = {n. data_block n}" "sb_ok (built s bs)"
    "super_block (built s bs) = Some (get_superblock (blocks (built s bs) 0))"
    "\<And>n. inum_ok n \<Longrightarrow> inode_at (built s bs) n = blank_inode junk"
    using make_fs_ok [OF assms] by metis
  then show ?thesis by (intro exI [of _ "built s bs"]) (auto simp: fl_inv_def read_inode_ok)
qed

theorem make_fs_builds_a_volume_witness:
  "\<exists>s'. make_fs (blank_inode (inode_at sample_volume 4)) sample_volume = Some (True, s') \<and>
    26300 \<in> free_set s' \<and> allocated (the (the (read_inode s' 7))) = False"
proof -
  have "device_works sample_volume" using sample_volume_healthy by (simp add: healthy_def)
  moreover have "wf_inode (blank_inode (inode_at sample_volume 4))"
    by (rule blank_inode_wf) (simp add: inode_at_def)
  moreover have "data_block 26300" "inum_ok 7" by (simp_all add: data_block_def inum_ok_def geometry)
  ultimately show ?thesis using make_fs_builds_a_volume [of sample_volume "blank_inode (inode_at sample_volume 4)"]
    by (auto simp: blank_inode_def [of "blank_inode _"])
qed

text \<open>
  A device that cannot be opened or refuses a block makes building the volume fail: it
  is never reported as built.
\<close>

theorem make_fs_reports_failure:
  assumes "dev_open s = -1 \<or> (\<exists>i. block_ok i \<and> \<not> writable (s\<lparr>m_ptr := dev_open s\<rparr>) i)"
  shows "\<exists>s'. make_fs junk s = Some (False, s')"
proof -
  have "\<exists>s'. alloc_memory s = Some (False, s')"
  proof (cases "dev_open s = -1")
    case False
    with assms obtain k where "block_ok k" "\<not> writable (s\<lparr>m_ptr := dev_open s\<rparr>) k" by blast
    then show ?thesis using alloc_memory_fails by blast
  qed (simp add: alloc_memory_def)
  then show ?thesis by (auto simp: make_fs_def)
qed

theorem make_fs_reports_failure_witness:
  "\<exists>s'. make_fs (inode_at sample_volume 4) (sample_volume\<lparr>dev_open := -1\<rparr>) = Some (False, s')"
  by (rule make_fs_reports_failure) simp

end
