(* ===== verification/FreeInode.thy ===== *)
theory FreeInode
  imports MakeFs
begin

text \<open>
  Releasing an inode and the data blocks of its file (\<open>free_dblocks_from_inode\<close>,
  \<open>free_inode\<close> of \<open>lib/block_layer.c\<close>). A file's blocks hang off its inode: ten direct
  numbers, then a block of numbers (single indirect), a block of such blocks (double), a
  block of those (triple); a number 0 ends the file. Every level is one loop body here, and
  \<open>finished\<close> (\<open>done\<close> in the code) is the code's flag that a 0 was seen. The abstraction is \<open>file_tree\<close>, the list of
  blocks that belong to the file.
\<close>

section \<open>Operations\<close>

text \<open>Loop body: release direct block \<open>i\<close>.\<close>

definition free_direct_step ::
  "iNode \<Rightarrow> int \<Rightarrow> bool \<times> 'a bstate_scheme \<Rightarrow>
   (bool \<times> 'a bstate_scheme, bool \<times> 'a bstate_scheme) ctl option" where
  "free_direct_step inode = (\<lambda>i (finished, s). do {
     n \<leftarrow> array_get (direct_blocks inode) i;
     if n = 0 then Some (Break (True, s))
     else do {
       (ok, s) \<leftarrow> free_dblock s n;
       if \<not> ok then Some (Return (False, s)) else Some (Next (finished, s)) } })"

text \<open>Loop body: release the block listed in word \<open>i\<close> of the list block in \<open>buff\<close>.\<close>

definition free_list_step ::
  "buffer \<Rightarrow> int \<Rightarrow> bool \<times> 'a bstate_scheme \<Rightarrow>
   (bool \<times> 'a bstate_scheme, bool \<times> 'a bstate_scheme) ctl option" where
  "free_list_step buff = (\<lambda>i (finished, s).
     if ld_s64 buff (8 * i) = 0 then Some (Break (True, s))
     else do {
       (ok, s) \<leftarrow> free_dblock s (ld_s64 buff (8 * i));
       if \<not> ok then Some (Return (False, s)) else Some (Next (finished, s)) })"

text \<open>
  Loop body: word \<open>i\<close> of \<open>buff\<close> names a list block; release the blocks it lists, then itself.
\<close>

definition free_single_step ::
  "buffer \<Rightarrow> int \<Rightarrow> bool \<times> 'a bstate_scheme \<Rightarrow>
   (bool \<times> 'a bstate_scheme, bool \<times> 'a bstate_scheme) ctl option" where
  "free_single_step buff = (\<lambda>i (finished, s).
     if ld_s64 buff (8 * i) = 0 then Some (Break (True, s))
     else case read_block s (ld_s64 buff (8 * i)) of
       None \<Rightarrow> Some (Return (False, s))
     | Some dblock_list_buff \<Rightarrow> do {
         r \<leftarrow> for_loop 0 DBLOCKS_PER_BLOCK (free_list_step dblock_list_buff) (finished, s);
         case r of
           Inr x \<Rightarrow> Some (Return x)
         | Inl (finished, s) \<Rightarrow> do {
             (ok, s) \<leftarrow> free_dblock s (ld_s64 buff (8 * i));
             if \<not> ok then Some (Return (False, s)) else Some (Next (finished, s)) } })"

text \<open>Loop body of the triple indirect level; the block word \<open>k\<close> names is not released.\<close>

definition free_double_step ::
  "buffer \<Rightarrow> int \<Rightarrow> bool \<times> 'a bstate_scheme \<Rightarrow>
   (bool \<times> 'a bstate_scheme, bool \<times> 'a bstate_scheme) ctl option" where
  "free_double_step buff = (\<lambda>k (finished, s).
     if ld_s64 buff (8 * k) = 0 then Some (Break (True, s))
     else case read_block s (ld_s64 buff (8 * k)) of
       None \<Rightarrow> Some (Return (False, s))
     | Some single_indirect_block_buff \<Rightarrow> do {
         r \<leftarrow> for_loop 0 DBLOCKS_PER_BLOCK (free_single_step single_indirect_block_buff) (finished, s);
         case r of
           Inr x \<Rightarrow> Some (Return x)
         | Inl (finished, s) \<Rightarrow> Some (Next (finished, s)) })"

definition free_dblocks_from_inode ::
  "'a bstate_scheme \<Rightarrow> iNode \<Rightarrow> (bool \<times> 'a bstate_scheme) option" where
  "free_dblocks_from_inode s inode = do {
     r \<leftarrow> for_loop 0 DIRECT_B_COUNT (free_direct_step inode) (False, s);
     case r of Inr x \<Rightarrow> Some x | Inl (finished, s) \<Rightarrow>
     if finished \<or> single_indirect inode = 0 then Some (True, s)
     else case read_block s (single_indirect inode) of None \<Rightarrow> Some (False, s)
     | Some dblock_list_buff \<Rightarrow> do {
     r \<leftarrow> for_loop 0 DBLOCKS_PER_BLOCK (free_list_step dblock_list_buff) (finished, s);
     case r of Inr x \<Rightarrow> Some x | Inl (finished, s) \<Rightarrow> do {
     (ok, s) \<leftarrow> free_dblock s (single_indirect inode);
     if \<not> ok then Some (False, s)
     else if finished \<or> double_indirect inode = 0 then Some (True, s)
     else case read_block s (double_indirect inode) of None \<Rightarrow> Some (False, s)
     | Some single_indirect_block_buff \<Rightarrow> do {
     r \<leftarrow> for_loop 0 DBLOCKS_PER_BLOCK (free_single_step single_indirect_block_buff) (finished, s);
     case r of Inr x \<Rightarrow> Some x | Inl (finished, s) \<Rightarrow> do {
     (ok, s) \<leftarrow> free_dblock s (double_indirect inode);
     if \<not> ok then Some (False, s)
     else if finished \<or> triple_indirect inode = 0 then Some (True, s)
     else case read_block s (triple_indirect inode) of None \<Rightarrow> Some (False, s)
     | Some double_indirect_block_buff \<Rightarrow> do {
     r \<leftarrow> for_loop 0 DBLOCKS_PER_BLOCK (free_double_step double_indirect_block_buff) (finished, s);
     case r of Inr x \<Rightarrow> Some x | Inl (finished, s) \<Rightarrow> do {
     (ok, s) \<leftarrow> free_dblock s (triple_indirect inode);
     if \<not> ok then Some (False, s) else Some (True, s) } } } } } } }"

text \<open>\<open>inode\<close> points into the block read; only its flag \<open>allocated\<close> is stored back.\<close>

definition free_inode :: "'a bstate_scheme \<Rightarrow> int \<Rightarrow> (bool \<times> 'a bstate_scheme) option" where
  "free_inode s inode_num = do {
     valid \<leftarrow> is_valid_inum s inode_num;
     if \<not> valid then Some (False, s)
     else do {
       block_id \<leftarrow> inode_num_to_block_id s inode_num;
       offset \<leftarrow> inode_num_to_offset s inode_num;
       case read_block s block_id of
         None \<Rightarrow> Some (False, s)
       | Some buff \<Rightarrow> do {
           (ok, s) \<leftarrow> free_dblocks_from_inode s (get_inode buff (offset * SIZEOF_INODE));
           if \<not> ok then Some (False, s)
           else let buff = st_bool buff (offset * SIZEOF_INODE + 128) False in
             (case write_block s block_id buff of (ok, s) \<Rightarrow>
                if \<not> ok then Some (False, s) else Some (True, s)) } } }"

section \<open>What a step can change\<close>

text \<open>
  Releasing blocks touches the device and \<open>free_list_head\<close>, nothing else: \<open>core\<close> is the state
  without these two.
\<close>

definition core :: "'a bstate_scheme \<Rightarrow> 'a bstate_scheme" where
  "core s = s\<lparr>super_block := map_option (free_list_head_update (\<lambda>_. 0)) (super_block s),
     blocks := (\<lambda>_. zero_buf)\<rparr>"

lemma core_blocks [simp]: "core (s\<lparr>blocks := bs\<rparr>) = core s"
  by (simp add: core_def)

lemma core_head [simp]:
  "super_block s = Some sb \<Longrightarrow> core (s\<lparr>super_block := Some (sb\<lparr>free_list_head := h\<rparr>)\<rparr>) = core s"
  by (simp add: core_def)

lemma core_fields:
  assumes "core s' = core s"
  shows "m_ptr s' = m_ptr s" "dev_open s' = dev_open s" "dev_lseek s' = dev_lseek s"
    "dev_read s' = dev_read s" "dev_write s' = dev_write s" "dev_close s' = dev_close s"
    "bstate.more s' = bstate.more s"
    "super_block s = Some sb \<Longrightarrow> \<exists>h. super_block s' = Some (sb\<lparr>free_list_head := h\<rparr>)"
proof -
  have "m_ptr (core t) = m_ptr t \<and> dev_open (core t) = dev_open t \<and> dev_lseek (core t) = dev_lseek t \<and>
      dev_read (core t) = dev_read t \<and> dev_write (core t) = dev_write t \<and>
      dev_close (core t) = dev_close t \<and> bstate.more (core t) = bstate.more t \<and>
      super_block (core t) = map_option (free_list_head_update (\<lambda>_. 0)) (super_block t)"
    for t :: "'a bstate_scheme" by (simp add: core_def)
  note * = this [of s] this [of s', unfolded assms]
  from * show "m_ptr s' = m_ptr s" "dev_open s' = dev_open s" "dev_lseek s' = dev_lseek s"
    "dev_read s' = dev_read s" "dev_write s' = dev_write s" "dev_close s' = dev_close s"
    "bstate.more s' = bstate.more s" by simp_all
  assume "super_block s = Some sb"
  then obtain sb' where sb': "super_block s' = Some sb'" "sb'\<lparr>free_list_head := 0\<rparr> = sb\<lparr>free_list_head := 0\<rparr>"
    using * by (cases "super_block s'") auto
  then have "sb' = sb\<lparr>free_list_head := free_list_head sb'\<rparr>"
    by (metis superBlock.surjective superBlock.update_convs(4))
  with sb'(1) show "\<exists>h. super_block s' = Some (sb\<lparr>free_list_head := h\<rparr>)" by metis
qed

lemma core_sb_ok: "core s' = core s \<Longrightarrow> sb_ok s \<Longrightarrow> sb_ok s'"
  by (auto simp: sb_ok_def dest: core_fields(8))

lemma core_healthy: "core s' = core s \<Longrightarrow> healthy s' = healthy s"
  using core_fields(1-6) [of s' s] by (simp add: healthy_def device_works_def)

lemma write_block_core [simp]: "core (snd (write_block s i b)) = core s"
  by (simp add: write_block_cases)

lemma write_block_coreD: "write_block s i b = (ok, s') \<Longrightarrow> core s' = core s"
  using write_block_core [of s i b] by simp

lemma write_superblock_coreD: "write_superblock s = Some (ok, s') \<Longrightarrow> core s' = core s"
  by (auto simp: write_superblock_def bind_eq_Some_conv write_block_cases split: if_splits)

lemma for_loop_Inr_never:
  assumes "\<And>j s r. body j s \<noteq> Some (Return r)"
  shows "for_loop i hi body s \<noteq> Some (Inr r)"
proof (induction "nat (hi - i)" arbitrary: i s)
  case 0
  then show ?case by simp
next
  case (Suc n)
  then show ?case using assms
    by (subst for_loop_step) (auto simp: bind_eq_Some_conv split: ctl.splits)
qed

lemma search_loops_fall_through:
  "for_loop i hi alloc_step s \<noteq> Some (Inr r)" "for_loop i hi (release_step n) s \<noteq> Some (Inr r)"
  by (rule for_loop_Inr_never; auto simp: alloc_step_def release_step_def Let_def split: prod.splits)+

lemmas core_splits =
  Option.bind_splits if_split_asm option.split_asm sum.split_asm prod.split_asm

lemma free_dblock_core: "free_dblock s n = Some (ok, s') \<Longrightarrow> core s' = core s"
  unfolding free_dblock_def Let_def
  by (auto simp: search_loops_fall_through split: core_splits
      dest!: write_block_coreD write_superblock_coreD)

lemma create_new_dblock_core: "create_new_dblock s = Some (n, s') \<Longrightarrow> core s' = core s"
  unfolding create_new_dblock_def Let_def
  by (auto simp: search_loops_fall_through split: core_splits
      dest!: write_block_coreD write_superblock_coreD)

section \<open>Releasing lists of blocks\<close>

text \<open>
  \<open>releasable s ns\<close>: the blocks \<open>ns\<close> are in use and different. \<open>released s ns s'\<close>: they are
  free in \<open>s'\<close> and the other blocks in use kept their contents.
\<close>

definition releasable :: "'a bstate_scheme \<Rightarrow> int list \<Rightarrow> bool" where
  "releasable s ns \<longleftrightarrow> fl_inv s \<and> free_set s \<noteq> {} \<and> distinct ns \<and>
     (\<forall>n \<in> set ns. data_block n \<and> n \<notin> free_set s)"

definition released :: "'a bstate_scheme \<Rightarrow> int list \<Rightarrow> 'a bstate_scheme \<Rightarrow> bool" where
  "released s ns s' \<longleftrightarrow> fl_inv s' \<and> core s' = core s \<and> free_set s' = free_set s \<union> set ns \<and>
     (\<forall>b. b \<noteq> 0 \<longrightarrow> b \<notin> free_set s \<longrightarrow> b \<notin> set ns \<longrightarrow> blocks s' b = blocks s b)"

lemma released_Nil: "fl_inv s \<Longrightarrow> released s [] s"
  by (simp add: released_def)

lemma released_append: "released s ns t \<Longrightarrow> released t ms u \<Longrightarrow> released s (ns @ ms) u"
  by (auto simp: released_def)

lemma releasable_append1: "releasable s (ns @ ms) \<Longrightarrow> releasable s ns"
  by (auto simp: releasable_def)

lemma releasable_rest: "releasable s (ns @ ms) \<Longrightarrow> released s ns t \<Longrightarrow> releasable t ms"
  by (auto simp: releasable_def released_def)

lemma released_keeps:
  assumes "releasable s (ns @ ms)" "released s ns t" "b \<in> set ms"
  shows "blocks t b = blocks s b"
proof -
  have "data_block b" "b \<notin> free_set s" "b \<notin> set ns" using assms(1,3) by (auto simp: releasable_def)
  with assms(2) data_block_nonzero [of b] show ?thesis by (simp add: released_def)
qed

lemma free_dblock_released:
  assumes "releasable s [n]"
  obtains s' where "free_dblock s n = Some (True, s')" "released s [n] s'"
proof -
  from assms have "fl_inv s" "free_set s \<noteq> {}" "data_block n" "n \<notin> free_set s"
    by (auto simp: releasable_def)
  from dblocks.release_one [OF this] obtain s' where
    "free_dblock s n = Some (True, s')" "fl_inv s'" "free_set s' = insert n (free_set s)"
    "\<forall>b. b \<noteq> 0 \<longrightarrow> b \<notin> free_set s \<longrightarrow> b \<noteq> n \<longrightarrow> blocks s' b = blocks s b" by blast
  with free_dblock_core [OF this(1)] show thesis by (intro that [of s']) (auto simp: released_def)
qed

text \<open>The numbers a list block holds, up to the first 0.\<close>

definition listed :: "buffer \<Rightarrow> int list" where
  "listed b = takeWhile (\<lambda>v. v \<noteq> 0) (ld_array b 0 512)"

text \<open>The same for any numbering of numbers, between two positions.\<close>

definition until0 :: "(int \<Rightarrow> int) \<Rightarrow> int \<Rightarrow> int \<Rightarrow> int list" where
  "until0 w i n = takeWhile (\<lambda>v. v \<noteq> 0) (map w [i..n - 1])"

text \<open>
  A loop over numbers \<open>w i\<close> that ends at a 0 and releases \<open>T v\<close> at number \<open>v\<close>; \<open>D v\<close> says
  whether \<open>finished\<close> is set on the way.
\<close>

lemma release_walk:
  fixes body :: "int \<Rightarrow> bool \<times> 'a bstate_scheme \<Rightarrow>
    (bool \<times> 'a bstate_scheme, bool \<times> 'a bstate_scheme) ctl option"
  assumes stop: "\<And>j fin t. 0 \<le> j \<Longrightarrow> j < n \<Longrightarrow> w j = 0 \<Longrightarrow> body j (fin, t) = Some (Break (True, t))"
    and item: "\<And>j fin t. 0 \<le> j \<Longrightarrow> j < n \<Longrightarrow> w j \<noteq> 0 \<Longrightarrow> releasable t (T (w j)) \<Longrightarrow>
      (\<And>b. b \<in> set (T (w j)) \<Longrightarrow> blocks t b = bs b) \<Longrightarrow>
      \<exists>t'. body j (fin, t) = Some (Next (fin \<or> D (w j), t')) \<and> released t (T (w j)) t'"
    and "0 \<le> i" "i \<le> n" "releasable s (concat (map T (until0 w i n)))"
    and "\<And>b. b \<in> set (concat (map T (until0 w i n))) \<Longrightarrow> blocks s b = bs b"
  shows "\<exists>s'. for_loop i n body (fin, s) =
      Some (Inl (fin \<or> (\<exists>v \<in> set (until0 w i n). D v) \<or> int (length (until0 w i n)) < n - i, s')) \<and>
    released s (concat (map T (until0 w i n))) s'"
  using assms(3-)
proof (induction "nat (n - i)" arbitrary: i s fin)
  case 0
  then have "i = n" by simp
  with 0 show ?case by (auto simp: until0_def intro: released_Nil simp: releasable_def)
next
  case (Suc k)
  then have i: "0 \<le> i" "i < n" by auto
  then have items: "until0 w i n = (if w i = 0 then [] else w i # until0 w (i + 1) n)"
    by (simp add: until0_def upto_rec1)
  show ?case
  proof (cases "w i = 0")
    case True
    with i Suc.prems stop items show ?thesis
      by (auto simp: for_loop_break intro: released_Nil simp: releasable_def)
  next
    case False
    have rel: "releasable s (T (w i) @ concat (map T (until0 w (i + 1) n)))"
      using Suc.prems(3) items False by simp
    obtain t where t: "body i (fin, s) = Some (Next (fin \<or> D (w i), t))" "released s (T (w i)) t"
      using item [OF i False releasable_append1 [OF rel], of fin] Suc.prems(4) items False by fastforce
    have "\<exists>s'. for_loop (i + 1) n body (fin \<or> D (w i), t) =
        Some (Inl ((fin \<or> D (w i)) \<or> (\<exists>v \<in> set (until0 w (i + 1) n). D v) \<or>
          int (length (until0 w (i + 1) n)) < n - (i + 1), s')) \<and>
      released t (concat (map T (until0 w (i + 1) n))) s'"
    proof (rule Suc.hyps(1))
      show "releasable t (concat (map T (until0 w (i + 1) n)))" by (rule releasable_rest [OF rel t(2)])
      show "blocks t b = bs b" if "b \<in> set (concat (map T (until0 w (i + 1) n)))" for b
        using released_keeps [OF rel t(2) that] Suc.prems(4) [of b] that items False by simp
    qed (use Suc.hyps(2) i in auto)
    then obtain s' where s': "for_loop (i + 1) n body (fin \<or> D (w i), t) =
        Some (Inl ((fin \<or> D (w i)) \<or> (\<exists>v \<in> set (until0 w (i + 1) n). D v) \<or>
          int (length (until0 w (i + 1) n)) < n - (i + 1), s'))"
      "released t (concat (map T (until0 w (i + 1) n))) s'" by blast
    from released_append [OF t(2) s'(2)] s'(1) t(1) i items False show ?thesis
      by (auto simp: for_loop_next)
  qed
qed

lemma map_upto_nth: "map (\<lambda>i. xs ! nat i) [0..int (length xs) - 1] = xs"
  by (rule nth_equalityI) auto

lemma listed_until0: "listed b = until0 (\<lambda>i. ld_s64 b (8 * i)) 0 512"
proof -
  have "map (\<lambda>i. ld_s64 b (8 * i)) [0..511] = map (\<lambda>i. ld_array b 0 512 ! nat i) [0..511]"
    by (intro map_cong) (auto simp: ld_array_nth)
  moreover have "map (\<lambda>i. ld_array b 0 512 ! nat i) [0..511] = ld_array b 0 512"
    using map_upto_nth [of "ld_array b 0 512"] by simp
  moreover have "(512 :: int) - 1 = 511" by simp
  ultimately show ?thesis by (simp only: listed_def until0_def)
qed

lemma concat_singletons: "concat (map (\<lambda>v. [v]) xs) = xs"
  by (induction xs) auto

lemma free_list_loop:
  assumes "releasable s (listed b)"
  obtains s' where "for_loop 0 512 (free_list_step b) (fin, s) =
      Some (Inl (fin \<or> length (listed b) < 512, s'))" "released s (listed b) s'"
proof -
  have item: "\<exists>t'. free_list_step b j (fin, t) = Some (Next (fin \<or> False, t')) \<and>
      released t [ld_s64 b (8 * j)] t'"
    if "ld_s64 b (8 * j) \<noteq> 0" "releasable t [ld_s64 b (8 * j)]" for j fin and t :: "'a bstate_scheme"
  proof -
    note r = that(2)
    obtain t' where "free_dblock t (ld_s64 b (8 * j)) = Some (True, t')" "released t [ld_s64 b (8 * j)] t'"
      using free_dblock_released [OF r] by blast
    with that(1) show ?thesis by (simp add: free_list_step_def)
  qed
  have "\<exists>s'. for_loop 0 512 (free_list_step b) (fin, s) =
      Some (Inl (fin \<or> (\<exists>v \<in> set (listed b). False) \<or> int (length (listed b)) < 512 - 0, s')) \<and>
    released s (concat (map (\<lambda>v. [v]) (listed b))) s'"
    unfolding listed_until0
  proof (rule release_walk [where bs = "blocks s"])
    show "releasable s (concat (map (\<lambda>v. [v]) (until0 (\<lambda>i. ld_s64 b (8 * i)) 0 512)))"
      using assms by (simp only: concat_singletons listed_until0)
  qed (use item in \<open>simp_all add: free_list_step_def\<close>)
  then show thesis using that by (auto simp: concat_singletons)
qed

text \<open>A list block and the blocks it lists; a block of list blocks.\<close>

definition single_tree :: "(int \<Rightarrow> buffer) \<Rightarrow> int \<Rightarrow> int list" where
  "single_tree bs v = listed (bs v) @ [v]"

definition double_tree :: "(int \<Rightarrow> buffer) \<Rightarrow> int \<Rightarrow> int list" where
  "double_tree bs v = concat (map (single_tree bs) (listed (bs v)))"

lemma releasable_readable: "releasable s ns \<Longrightarrow> n \<in> set ns \<Longrightarrow> read_block s n = Some (blocks s n)"
  by (auto simp: releasable_def fl_inv_def intro!: read_block_healthy data_block_ok)

lemma free_single_item:
  assumes "releasable t (single_tree (blocks t) v)" "ld_s64 b (8 * j) = v" "v \<noteq> 0"
  shows "\<exists>t'. free_single_step b j (fin, t) =
      Some (Next (fin \<or> length (listed (blocks t v)) < 512, t')) \<and>
    released t (single_tree (blocks t) v) t'"
proof -
  let ?L = "listed (blocks t v)"
  have r: "releasable t (?L @ [v])" using assms(1) by (simp add: single_tree_def)
  obtain u where u: "for_loop 0 512 (free_list_step (blocks t v)) (fin, t) =
      Some (Inl (fin \<or> length ?L < 512, u))" "released t ?L u"
    using free_list_loop [OF releasable_append1 [OF r]] by metis
  obtain t' where "free_dblock u v = Some (True, t')" "released u [v] t'"
    using free_dblock_released [OF releasable_rest [OF r u(2)]] by metis
  with u(1) released_append [OF u(2) this(2)] releasable_readable [OF r, of v] assms(2,3) show ?thesis
    by (simp add: free_single_step_def single_tree_def geometry)
qed

lemma free_single_loop:
  assumes "releasable s (concat (map (single_tree (blocks s)) (listed b)))"
  obtains s' where "for_loop 0 512 (free_single_step b) (fin, s) =
      Some (Inl (fin \<or> (\<exists>v \<in> set (listed b). length (listed (blocks s v)) < 512) \<or>
        length (listed b) < 512, s'))"
    "released s (concat (map (single_tree (blocks s)) (listed b))) s'"
proof -
  let ?w = "\<lambda>i. ld_s64 b (8 * i)"
  have item: "\<exists>t'. free_single_step b j (fin, t) =
        Some (Next (fin \<or> length (listed (blocks s (?w j))) < 512, t')) \<and>
      released t (single_tree (blocks s) (?w j)) t'"
    if "?w j \<noteq> 0" "releasable t (single_tree (blocks s) (?w j))"
      "\<And>b. b \<in> set (single_tree (blocks s) (?w j)) \<Longrightarrow> blocks t b = blocks s b"
    for j fin and t :: "'a bstate_scheme"
  proof -
    have "blocks t (?w j) = blocks s (?w j)" using that(3) by (simp add: single_tree_def)
    then show ?thesis
      using free_single_item [of t "?w j" b j fin] that(1,2) by (simp add: single_tree_def)
  qed
  have "\<exists>s'. for_loop 0 512 (free_single_step b) (fin, s) =
      Some (Inl (fin \<or> (\<exists>v \<in> set (until0 ?w 0 512). length (listed (blocks s v)) < 512) \<or>
        int (length (until0 ?w 0 512)) < 512 - 0, s')) \<and>
      released s (concat (map (single_tree (blocks s)) (until0 ?w 0 512))) s'"
  proof (rule release_walk [where bs = "blocks s"])
    show "releasable s (concat (map (single_tree (blocks s)) (until0 ?w 0 512)))"
      using assms by (simp only: listed_until0)
  qed (use item in \<open>simp_all add: free_single_step_def\<close>)
  then show thesis using that by (auto simp: listed_until0)
qed

lemma free_direct_loop:
  fixes i defines "ds \<equiv> takeWhile (\<lambda>v. v \<noteq> 0) (direct_blocks i)"
  assumes "releasable s ds" "length (direct_blocks i) = 10"
  obtains s' where "for_loop 0 10 (free_direct_step i) (fin, s) =
      Some (Inl (fin \<or> length ds < 10, s'))" "released s ds s'"
proof -
  let ?w = "\<lambda>j. direct_blocks i ! nat j"
  have ds: "ds = until0 ?w 0 10"
    using map_upto_nth [of "direct_blocks i"] assms(3) by (simp add: ds_def until0_def)
  have item: "\<exists>t'. free_direct_step i j (fin, t) = Some (Next (fin \<or> False, t')) \<and> released t [?w j] t'"
    if "0 \<le> j" "j < 10" "?w j \<noteq> 0" "releasable t [?w j]" for j fin and t :: "'a bstate_scheme"
  proof -
    note r = that(4)
    obtain t' where "free_dblock t (?w j) = Some (True, t')" "released t [?w j] t'"
      using free_dblock_released [OF r] by blast
    with that(1-3) assms(3) show ?thesis by (simp add: free_direct_step_def)
  qed
  have "\<exists>s'. for_loop 0 10 (free_direct_step i) (fin, s) =
      Some (Inl (fin \<or> (\<exists>v \<in> set (until0 ?w 0 10). False) \<or> int (length (until0 ?w 0 10)) < 10 - 0, s')) \<and>
    released s (concat (map (\<lambda>v. [v]) (until0 ?w 0 10))) s'"
  proof (rule release_walk [where bs = "blocks s"])
    show "releasable s (concat (map (\<lambda>v. [v]) (until0 ?w 0 10)))"
      using assms(2) by (simp only: concat_singletons ds)
  qed (use item in \<open>simp_all add: free_direct_step_def assms(3)\<close>)
  then show thesis using that by (auto simp: concat_singletons ds)
qed

section \<open>The blocks of a file\<close>

text \<open>
  The blocks hanging off an inode, in the order they are released. No triple indirect level:
  a full double indirect level alone lists more blocks than the volume has
  (\<open>double_tree_not_full\<close>).
\<close>

definition file_tree :: "(int \<Rightarrow> buffer) \<Rightarrow> iNode \<Rightarrow> int list" where
  "file_tree bs i =
     (let ds = takeWhile (\<lambda>v. v \<noteq> 0) (direct_blocks i) in
      ds @ (if length ds < 10 \<or> single_indirect i = 0 then []
            else single_tree bs (single_indirect i) @
              (if length (listed (bs (single_indirect i))) < 512 \<or> double_indirect i = 0 then []
               else double_tree bs (double_indirect i) @ [double_indirect i])))"

lemma card_data_blocks: "card {n. data_block n} = 235929"
proof -
  have "{n. data_block n} = {26215..<262144}" by (auto simp: data_block_def geometry)
  then show ?thesis by simp
qed

lemma distinct_data_blocks:
  "distinct ns \<Longrightarrow> (\<And>n. n \<in> set ns \<Longrightarrow> data_block n) \<Longrightarrow> length ns \<le> 235929"
proof -
  assume "distinct ns" and d: "\<And>n. n \<in> set ns \<Longrightarrow> data_block n"
  then have "length ns = card (set ns)" by (simp add: distinct_card)
  also have "\<dots> \<le> card {n. data_block n}"
  proof (rule card_mono)
    have "{n. data_block n} = {26215..<262144}" by (auto simp: data_block_def geometry)
    then show "finite {n. data_block n}" by simp
  qed (use d in blast)
  finally show ?thesis by (simp add: card_data_blocks)
qed

lemma length_concat_ge: "(\<And>x. x \<in> set xs \<Longrightarrow> k \<le> length (f x)) \<Longrightarrow> k * length xs \<le> length (concat (map f xs))"
  by (induction xs) (auto simp: add_le_mono)

lemma double_tree_not_full:
  assumes "releasable s (double_tree (blocks s) v)"
  shows "(\<exists>x \<in> set (listed (blocks s v)). length (listed (blocks s x)) < 512) \<or>
    length (listed (blocks s v)) < 512"
proof (rule ccontr)
  assume full: "\<not> ?thesis"
  have "512 * length (listed (blocks s v)) \<le> length (double_tree (blocks s) v)"
    unfolding double_tree_def using full by (intro length_concat_ge) (auto simp: single_tree_def not_less le_SucI)
  moreover have "length (double_tree (blocks s) v) \<le> 235929"
    using assms by (intro distinct_data_blocks) (auto simp: releasable_def)
  ultimately show False using full by auto
qed

lemma double_tree_cong:
  assumes "bs v = cs v" "\<And>x. x \<in> set (listed (cs v)) \<Longrightarrow> bs x = cs x"
  shows "double_tree bs v = double_tree cs v"
proof -
  have "map (single_tree bs) (listed (cs v)) = map (single_tree cs) (listed (cs v))"
    using assms(2) by (intro map_cong refl) (simp add: single_tree_def)
  then show ?thesis unfolding double_tree_def assms(1) by (rule arg_cong)
qed

lemma in_double_tree: "x \<in> set (listed (bs v)) \<Longrightarrow> x \<in> set (double_tree bs v)"
  by (auto simp: double_tree_def single_tree_def)

text \<open>The double indirect part, from the state in which it is reached.\<close>

lemma free_double_part:
  assumes "releasable t (double_tree (blocks t) v @ [v])"
  obtains u s' where "read_block t v = Some (blocks t v)"
    "for_loop 0 512 (free_single_step (blocks t v)) (False, t) = Some (Inl (True, u))"
    "free_dblock u v = Some (True, s')" "released t (double_tree (blocks t) v @ [v]) s'"
proof -
  have r: "read_block t v = Some (blocks t v)" using releasable_readable [OF assms, of v] by simp
  obtain u where u: "for_loop 0 512 (free_single_step (blocks t v)) (False, t) =
      Some (Inl (False \<or> (\<exists>x \<in> set (listed (blocks t v)). length (listed (blocks t x)) < 512) \<or>
        length (listed (blocks t v)) < 512, u))" "released t (double_tree (blocks t) v) u"
    unfolding double_tree_def
    by (rule free_single_loop [OF releasable_append1 [OF assms, unfolded double_tree_def]])
  obtain s' where s': "free_dblock u v = Some (True, s')" "released u [v] s'"
    using free_dblock_released [OF releasable_rest [OF assms u(2)]] by metis
  from double_tree_not_full [OF releasable_append1 [OF assms]] u(1)
  have "for_loop 0 512 (free_single_step (blocks t v)) (False, t) = Some (Inl (True, u))" by auto
  with r s'(1) released_append [OF u(2) s'(2)] show thesis using that by blast
qed

lemma free_dblocks_from_inode_spec:
  assumes "releasable s (file_tree (blocks s) i)" "length (direct_blocks i) = 10"
  obtains s' where "free_dblocks_from_inode s i = Some (True, s')" "released s (file_tree (blocks s) i) s'"
proof -
  define ds where "ds = takeWhile (\<lambda>v. v \<noteq> 0) (direct_blocks i)"
  define x where "x = single_indirect i"
  define y where "y = double_indirect i"
  define ss where "ss = listed (blocks s x)"
  have tree: "file_tree (blocks s) i = ds @ (if length ds < 10 \<or> x = 0 then []
      else (ss @ [x]) @ (if length ss < 512 \<or> y = 0 then [] else double_tree (blocks s) y @ [y]))"
    by (simp add: file_tree_def Let_def ds_def x_def y_def ss_def single_tree_def)
  note rel = assms(1) [unfolded tree]
  obtain t where t: "for_loop 0 10 (free_direct_step i) (False, s) = Some (Inl (length ds < 10, t))"
    "released s ds t"
    using free_direct_loop [of s i False] releasable_append1 [OF rel] assms(2) unfolding ds_def by auto
  show thesis
  proof (cases "length ds < 10 \<or> x = 0")
    case True
    with t tree show thesis
      by (intro that [of t]) (auto simp: free_dblocks_from_inode_def geometry x_def)
  next
    case F1: False
    note rel1 = rel [unfolded if_not_P [OF F1]]
    note relt = releasable_rest [OF rel1 t(2)]
    have xt: "blocks t x = blocks s x" by (rule released_keeps [OF rel1 t(2)]) simp
    have rx: "read_block t x = Some (blocks t x)" using releasable_readable [OF relt, of x] by simp
    note relt1 = releasable_append1 [OF relt]
    obtain u where u: "for_loop 0 512 (free_list_step (blocks t x)) (False, t) =
        Some (Inl (length ss < 512, u))" "released t ss u"
      using free_list_loop [of t "blocks t x" False] releasable_append1 [OF relt1] xt unfolding ss_def by auto
    obtain v where v: "free_dblock u x = Some (True, v)" "released u [x] v"
      using free_dblock_released [OF releasable_rest [OF relt1 u(2)]] by metis
    note tv = released_append [OF u(2) v(2)]
    show thesis
    proof (cases "length ss < 512 \<or> y = 0")
      case True
      with t u v F1 rx tree released_append [OF t(2) tv] show thesis
        by (intro that [of v]) (auto simp: free_dblocks_from_inode_def geometry x_def [symmetric] y_def [symmetric])
    next
      case F2: False
      note rel2 = rel1 [unfolded if_not_P [OF F2]]
      note sv = released_append [OF t(2) tv]
      have keep: "blocks v b = blocks s b" if "b \<in> set (double_tree (blocks s) y @ [y])" for b
        using rel2 sv that released_keeps [of s "ds @ ss @ [x]" "double_tree (blocks s) y @ [y]" v b] by simp
      have same: "double_tree (blocks v) y = double_tree (blocks s) y"
        using keep in_double_tree by (intro double_tree_cong) auto
      have "releasable v (double_tree (blocks v) y @ [y])"
        using rel2 sv releasable_rest [of s "ds @ ss @ [x]" "double_tree (blocks s) y @ [y]" v] same by simp
      then obtain w s' where w: "read_block v y = Some (blocks v y)"
        "for_loop 0 512 (free_single_step (blocks v y)) (False, v) = Some (Inl (True, w))"
        "free_dblock w y = Some (True, s')" "released v (double_tree (blocks v) y @ [y]) s'"
        by (rule free_double_part)
      show thesis
        using t u v F1 F2 rx w tree released_append [OF sv w(4)] same
        by (intro that [of s']) (auto simp: free_dblocks_from_inode_def geometry x_def [symmetric] y_def [symmetric])
    qed
  qed
qed

lemma get_inode_clear_allocated:
  "get_inode (st_bool b (p + 128) False) p = (get_inode b p)\<lparr>allocated := False\<rparr>"
  by (simp add: get_inode_def mem_simps)

lemma get_inode_clear_other:
  "p + 192 \<le> q \<or> q + 192 \<le> p \<Longrightarrow> get_inode (st_bool b (p + 128) False) q = get_inode b q"
  by (rule get_inode_cong) (auto simp: st_bool_apply_other)

lemma released_inode_block:
  "fl_inv s \<Longrightarrow> released s ns s' \<Longrightarrow> (\<And>n. n \<in> set ns \<Longrightarrow> data_block n) \<Longrightarrow> inum_ok m \<Longrightarrow>
   blocks s' (inode_block m) = blocks s (inode_block m)"
  using inode_block_not_data [of m] fl_inv_data_block [of s] unfolding released_def by blast

text \<open>Releasing an inode whose blocks are in use and different.\<close>

lemma free_inode_ok:
  assumes "sb_ok s" "inum_ok n" "releasable s (file_tree (blocks s) (inode_at s n))"
  obtains s' where "free_inode s n = Some (True, s')" "fl_inv s'" "sb_ok s'" "core s' = core s"
    "free_set s' = free_set s \<union> set (file_tree (blocks s) (inode_at s n))"
    "\<And>m. inum_ok m \<Longrightarrow> inode_at s' m = (if m = n then (inode_at s n)\<lparr>allocated := False\<rparr> else inode_at s m)"
    "\<And>b. data_block b \<Longrightarrow> b \<notin> free_set s' \<Longrightarrow> blocks s' b = blocks s b"
proof -
  let ?i = "inode_at s n" and ?k = "inode_block n" and ?p = "inode_slot n"
  let ?T = "file_tree (blocks s) ?i"
  have fl: "fl_inv s" and h: "healthy s" and d: "\<And>n. n \<in> set ?T \<Longrightarrow> data_block n"
    using assms(3) by (auto simp: releasable_def fl_inv_def)
  obtain t where t: "free_dblocks_from_inode s ?i = Some (True, t)" "released s ?T t"
    using free_dblocks_from_inode_spec [OF assms(3)] by (auto simp: inode_at_def get_inode_def)
  then have tc: "core t = core s" "fl_inv t" by (auto simp: released_def)
  have th: "healthy t" "sb_ok t" using tc h assms(1) core_healthy core_sb_ok by blast+
  define bs where "bs = (blocks t)(?k := st_bool (blocks s ?k) (?p + 128) False)"
  let ?s = "t\<lparr>blocks := bs\<rparr>"
  have run: "free_inode s n = Some (True, ?s)"
    using t(1) th(1) h assms(1,2) inode_block_ok [OF assms(2)]
    by (simp add: free_inode_def is_valid_inum_ok inode_num_to_block_id_ok inode_num_to_offset_ok
        read_block_healthy write_block_healthy bs_def inode_at_def inode_slot_def geometry)
  have data: "bs b = blocks t b" if "data_block b" for b
    using that inode_block_not_data [OF assms(2)] by (auto simp: bs_def)
  have at: "inode_at ?s m = (if m = n then ?i\<lparr>allocated := False\<rparr> else inode_at s m)" if m: "inum_ok m" for m
  proof (cases "inode_block m = ?k")
    case True
    have "m = n \<or> inode_slot n + 192 \<le> inode_slot m \<or> inode_slot m + 192 \<le> inode_slot n"
      using inode_slots_disjoint [of n m] True m assms(2) by (auto simp: inum_ok_def)
    then show ?thesis using True get_inode_clear_allocated get_inode_clear_other
      by (auto simp: inode_at_def bs_def)
  next
    case False
    then show ?thesis using released_inode_block [OF fl t(2) d m] by (auto simp: inode_at_def bs_def)
  qed
  have keep: "blocks ?s b = blocks s b" if "data_block b" "b \<notin> free_set ?s" for b
    using that t(2) data [OF that(1)] fl_inv_frame(2) [OF tc(2) data] data_block_nonzero [OF that(1)]
    by (simp add: released_def)
  have "fl_inv ?s" "free_set ?s = free_set s \<union> set ?T"
    using fl_inv_frame [OF tc(2) data] t(2) by (simp_all add: released_def)
  moreover have "core ?s = core s" using tc(1) by simp
  moreover have "sb_ok ?s" using th(2) by simp
  ultimately show thesis using that [OF run] at keep by blast
qed

section \<open>A volume with a file, for closed examples\<close>

definition sample_file :: iNode where
  "sample_file = (blank_inode (get_inode zero_buf 0))\<lparr>direct_blocks := 30000 # 30001 # replicate 8 0,
     file_size := 5000, num_blocks := 2, link_count := 1, allocated := True\<rparr>"

definition file_volume :: bstate where
  "file_volume = sample_volume\<lparr>blocks := (blocks sample_volume)(inode_block 5 :=
     put_inode (blocks sample_volume (inode_block 5)) (inode_slot 5) sample_file)\<rparr>"

lemma sample_file_wf: "wf_inode sample_file"
  by (simp add: sample_file_def wf_inode_def blank_inode_def get_inode_def in_s64_def list_all_iff)

lemma file_volume_facts:
  "fl_inv file_volume" "free_set file_volume = {26215, 26216}" "sb_ok file_volume"
  "inum_ok 5" "inode_at file_volume 5 = sample_file"
proof -
  show 5: "inum_ok 5" by (simp add: inum_ok_def geometry)
  have f: "((blocks sample_volume)(inode_block 5 :=
     put_inode (blocks sample_volume (inode_block 5)) (inode_slot 5) sample_file)) b = blocks sample_volume b"
    if "data_block b" for b
    using that inode_block_not_data [OF 5] by auto
  show "fl_inv file_volume" "free_set file_volume = {26215, 26216}"
    using fl_inv_frame [OF sample_volume_fl(1) f] unfolding sample_volume_fl(2) file_volume_def
    by blast+
  show "sb_ok file_volume" by (simp add: file_volume_def sb_ok_def sample_volume_def geometry)
  show "inode_at file_volume 5 = sample_file"
    unfolding file_volume_def by (rule inode_at_write_same) (rule sample_file_wf)
qed

section \<open>Properties\<close>

text \<open>
  C17: releasing an inode gives back exactly the blocks of its file (direct, single and double
  indirect, the list blocks included), clears the inode's \<open>allocated\<close> flag, and changes no
  other inode and no block of another file.
\<close>

theorem free_inode_releases_the_file:
  assumes "sb_ok s" "inum_ok n" "releasable s (file_tree (blocks s) (inode_at s n))"
  shows "\<exists>s'. free_inode s n = Some (True, s') \<and> fl_inv s' \<and> sb_ok s' \<and>
    free_set s' = free_set s \<union> set (file_tree (blocks s) (inode_at s n)) \<and>
    (\<forall>m. inum_ok m \<longrightarrow> read_inode s' m =
      Some (Some (if m = n then (inode_at s n)\<lparr>allocated := False\<rparr> else inode_at s m))) \<and>
    (\<forall>b. data_block b \<longrightarrow> b \<notin> free_set s' \<longrightarrow> blocks s' b = blocks s b)"
proof -
  obtain s' where s': "free_inode s n = Some (True, s')" "fl_inv s'" "sb_ok s'"
    "free_set s' = free_set s \<union> set (file_tree (blocks s) (inode_at s n))"
    "\<And>m. inum_ok m \<Longrightarrow> inode_at s' m = (if m = n then (inode_at s n)\<lparr>allocated := False\<rparr> else inode_at s m)"
    "\<And>b. data_block b \<Longrightarrow> b \<notin> free_set s' \<Longrightarrow> blocks s' b = blocks s b"
    using free_inode_ok [OF assms] by metis
  then have "read_inode s' m = Some (Some (if m = n then (inode_at s n)\<lparr>allocated := False\<rparr> else inode_at s m))"
    if "inum_ok m" for m
    using read_inode_ok [of s' m] that by (simp add: fl_inv_def)
  with s' show ?thesis by (intro exI [of _ s']) simp
qed

theorem free_inode_releases_the_file_witness:
  "\<exists>s'. free_inode file_volume 5 = Some (True, s') \<and>
    free_set s' = {26215, 26216, 30000, 30001} \<and>
    read_inode s' 5 = Some (Some (sample_file\<lparr>allocated := False\<rparr>))"
proof -
  have tree: "file_tree (blocks file_volume) (inode_at file_volume 5) = [30000, 30001]"
    by (simp add: file_volume_facts file_tree_def sample_file_def Let_def eval_nat_numeral)
  have "releasable file_volume (file_tree (blocks file_volume) (inode_at file_volume 5))"
    unfolding tree releasable_def using file_volume_facts by (simp add: data_block_def geometry)
  from free_inode_releases_the_file [OF file_volume_facts(3,4) this] obtain s' where
    "free_inode file_volume 5 = Some (True, s')" "free_set s' = {26215, 26216} \<union> {30000, 30001}"
    "\<forall>m. inum_ok m \<longrightarrow> read_inode s' m = Some (Some (if m = 5
      then (inode_at file_volume 5)\<lparr>allocated := False\<rparr> else inode_at file_volume m))"
    unfolding tree file_volume_facts(2) by auto
  with file_volume_facts(4,5) show ?thesis by auto
qed

text \<open>
  At the triple indirect level the code releases what a list block of list blocks refers
  to, but not that block itself: it stays in use without belonging to any file.
\<close>

theorem free_double_step_leaks_the_list_block:
  assumes "releasable s (double_tree (blocks s) v)" "data_block v" "v \<notin> free_set s"
    and "v \<notin> set (double_tree (blocks s) v)" "ld_s64 b (8 * k) = v"
  shows "\<exists>s'. free_double_step b k (False, s) = Some (Next (True, s')) \<and>
    free_set s' = free_set s \<union> set (double_tree (blocks s) v) \<and> v \<notin> free_set s'"
proof -
  have h: "healthy s" using assms(1) by (simp add: releasable_def fl_inv_def)
  obtain u where u: "for_loop 0 512 (free_single_step (blocks s v)) (False, s) =
      Some (Inl (False \<or> (\<exists>x \<in> set (listed (blocks s v)). length (listed (blocks s x)) < 512) \<or>
        length (listed (blocks s v)) < 512, u))" "released s (double_tree (blocks s) v) u"
    unfolding double_tree_def by (rule free_single_loop [OF assms(1) [unfolded double_tree_def]])
  from double_tree_not_full [OF assms(1)] u(1)
  have "for_loop 0 512 (free_single_step (blocks s v)) (False, s) = Some (Inl (True, u))" by auto
  then have "free_double_step b k (False, s) = Some (Next (True, u))"
    using assms(2,5) h data_block_nonzero [OF assms(2)]
    by (simp add: free_double_step_def read_block_healthy data_block_ok geometry)
  with u(2) assms(3,4) show ?thesis by (auto simp: released_def)
qed

theorem free_double_step_leaks_the_list_block_witness:
  "\<exists>s'. free_double_step (st_s64 zero_buf 0 30000) 0 (False, sample_volume) = Some (Next (True, s')) \<and>
    30000 \<notin> free_set s'"
proof -
  have tree: "double_tree (blocks sample_volume) 30000 = []"
    by (simp add: double_tree_def sample_volume_def listed_def eval_nat_numeral)
  have "ld_s64 (st_s64 zero_buf 0 30000) (8 * 0) = 30000" by (simp add: mem_simps in_s64_def)
  then show ?thesis
    using free_double_step_leaks_the_list_block [of sample_volume 30000 "st_s64 zero_buf 0 30000" 0]
      sample_volume_fl by (auto simp: tree releasable_def data_block_def geometry)
qed

end
