(* ===== verification/InodeBlocks.thy ===== *)
theory InodeBlocks
  imports FreeInode
begin

text \<open>
  From the blocks of a file to the blocks of the volume (\<open>fblock_num_to_dblock_num\<close>,
  \<open>write_dblock_to_inode\<close>, \<open>add_dblock_to_inode\<close>, \<open>remove_single_indirect\<close>,
  \<open>remove_double_indirect\<close>, \<open>remove_triple_indirect\<close>, \<open>remove_dblocks_from_inode\<close> of
  \<open>lib/file_layer.c\<close>). A file has ten direct block numbers, then a block of 512 numbers, a
  block of 512 such blocks, and a block of 512 of those.

  The code uses the buffer \<open>read_dblock\<close> returns without a check: a \<open>NULL\<close> there, as an
  index outside a list block, is the outer \<open>None\<close>. Functions that change the inode struct
  return the changed struct.
\<close>

section \<open>Constants and list blocks\<close>

definition SINGLE_INDIRECT_BLOCK_COUNT :: int where
  "SINGLE_INDIRECT_BLOCK_COUNT = BLOCK_SIZE div ADDRESS_SIZE"
definition DOUBLE_INDIRECT_BLOCK_COUNT :: int where
  "DOUBLE_INDIRECT_BLOCK_COUNT = SINGLE_INDIRECT_BLOCK_COUNT * (BLOCK_SIZE div ADDRESS_SIZE)"

lemma indirect_geometry [geometry]:
  "SINGLE_INDIRECT_BLOCK_COUNT = 512" "DOUBLE_INDIRECT_BLOCK_COUNT = 262144"
  by (simp_all add: SINGLE_INDIRECT_BLOCK_COUNT_def DOUBLE_INDIRECT_BLOCK_COUNT_def
      BLOCK_SIZE_val ADDRESS_SIZE_def)

text \<open>Word \<open>i\<close> of a buffer of \<open>BLOCK_SIZE\<close> bytes.\<close>

definition word_get :: "buffer \<Rightarrow> int \<Rightarrow> int option" where
  "word_get b i = (if 0 \<le> i \<and> i < 512 then Some (ld_s64 b (8 * i)) else None)"

definition word_set :: "buffer \<Rightarrow> int \<Rightarrow> int \<Rightarrow> buffer option" where
  "word_set b i v = (if 0 \<le> i \<and> i < 512 then Some (st_s64 b (8 * i) v) else None)"

lemma word_get_in [simp]: "0 \<le> i \<Longrightarrow> i < 512 \<Longrightarrow> word_get b i = Some (ld_s64 b (8 * i))"
  by (simp add: word_get_def)

lemma word_set_in [simp]: "0 \<le> i \<Longrightarrow> i < 512 \<Longrightarrow> word_set b i v = Some (st_s64 b (8 * i) v)"
  by (simp add: word_set_def)

section \<open>Looking up and overwriting a block number\<close>

definition fblock_num_to_dblock_num :: "'a disk_scheme \<Rightarrow> iNode \<Rightarrow> int \<Rightarrow> int option" where
  "fblock_num_to_dblock_num s inode fblock_num =
     (if fblock_num > num_blocks inode then Some (-1)
      else if fblock_num < DIRECT_B_COUNT then array_get (direct_blocks inode) fblock_num
      else if fblock_num < DIRECT_B_COUNT + SINGLE_INDIRECT_BLOCK_COUNT then
        (if single_indirect inode = 0 then Some (-1)
         else do {
           single_buff \<leftarrow> read_dblock s (single_indirect inode);
           word_get single_buff (fblock_num - DIRECT_B_COUNT) })
      else if fblock_num < DIRECT_B_COUNT + SINGLE_INDIRECT_BLOCK_COUNT + DOUBLE_INDIRECT_BLOCK_COUNT then
        (if double_indirect inode = 0 then Some (-1)
         else do {
           double_buff \<leftarrow> read_dblock s (double_indirect inode);
           let offset = fblock_num - DIRECT_B_COUNT - SINGLE_INDIRECT_BLOCK_COUNT;
           n \<leftarrow> word_get double_buff (offset div SINGLE_INDIRECT_BLOCK_COUNT);
           if n \<le> 0 then Some (-1)
           else do {
             single_buff \<leftarrow> read_dblock s n;
             word_get single_buff (offset mod SINGLE_INDIRECT_BLOCK_COUNT) } })
      else
        (if triple_indirect inode = 0 then Some (-1)
         else do {
           triple_buff \<leftarrow> read_dblock s (triple_indirect inode);
           let offset = fblock_num - DIRECT_B_COUNT - SINGLE_INDIRECT_BLOCK_COUNT - DOUBLE_INDIRECT_BLOCK_COUNT;
           n \<leftarrow> word_get triple_buff (offset div DOUBLE_INDIRECT_BLOCK_COUNT);
           if n \<le> 0 then Some (-1)
           else do {
             double_buff \<leftarrow> read_dblock s n;
             n \<leftarrow> word_get double_buff
                   ((offset div SINGLE_INDIRECT_BLOCK_COUNT) mod SINGLE_INDIRECT_BLOCK_COUNT);
             if n \<le> 0 then Some (-1)
             else do {
               single_buff \<leftarrow> read_dblock s n;
               word_get single_buff (offset mod SINGLE_INDIRECT_BLOCK_COUNT) } } }))"

text \<open>
  The last case returns \<open>dblock_num\<close> and \<open>-1\<close> from a \<open>bool\<close> function: both but 0 are true.
\<close>

definition write_dblock_to_inode ::
  "'a bstate_scheme \<Rightarrow> iNode \<Rightarrow> int \<Rightarrow> int \<Rightarrow> (bool \<times> iNode \<times> 'a bstate_scheme) option" where
  "write_dblock_to_inode s inode fblock_num dblock_num =
     (if fblock_num > num_blocks inode then Some (False, inode, s)
      else if fblock_num < DIRECT_B_COUNT then do {
        ds \<leftarrow> array_set (direct_blocks inode) fblock_num dblock_num;
        Some (True, inode\<lparr>direct_blocks := ds\<rparr>, s) }
      else if fblock_num < DIRECT_B_COUNT + SINGLE_INDIRECT_BLOCK_COUNT then
        (if single_indirect inode = 0 then Some (False, inode, s)
         else do {
           single_buff \<leftarrow> read_dblock s (single_indirect inode);
           single_buff \<leftarrow> word_set single_buff (fblock_num - DIRECT_B_COUNT) dblock_num;
           let s = snd (write_dblock s (single_indirect inode) single_buff);
           Some (True, inode, s) })
      else if fblock_num < DIRECT_B_COUNT + SINGLE_INDIRECT_BLOCK_COUNT + DOUBLE_INDIRECT_BLOCK_COUNT then
        (if double_indirect inode = 0 then Some (False, inode, s)
         else do {
           double_buff \<leftarrow> read_dblock s (double_indirect inode);
           let offset = fblock_num - DIRECT_B_COUNT - SINGLE_INDIRECT_BLOCK_COUNT;
           single_dblock_num \<leftarrow> word_get double_buff (offset div SINGLE_INDIRECT_BLOCK_COUNT);
           if single_dblock_num \<le> 0 then Some (False, inode, s)
           else do {
             single_buff \<leftarrow> read_dblock s single_dblock_num;
             single_buff \<leftarrow> word_set single_buff (offset mod SINGLE_INDIRECT_BLOCK_COUNT) dblock_num;
             let s = snd (write_dblock s single_dblock_num single_buff);
             Some (True, inode, s) } })
      else
        (if triple_indirect inode = 0 then Some (dblock_num \<noteq> 0, inode, s)
         else do {
           triple_buff \<leftarrow> read_dblock s (triple_indirect inode);
           let offset = fblock_num - DIRECT_B_COUNT - SINGLE_INDIRECT_BLOCK_COUNT - DOUBLE_INDIRECT_BLOCK_COUNT;
           double_dblock_num \<leftarrow> word_get triple_buff (offset div DOUBLE_INDIRECT_BLOCK_COUNT);
           if double_dblock_num \<le> 0 then Some (True, inode, s)
           else do {
             double_buff \<leftarrow> read_dblock s double_dblock_num;
             single_dblock_num \<leftarrow> word_get double_buff
               ((offset div SINGLE_INDIRECT_BLOCK_COUNT) mod SINGLE_INDIRECT_BLOCK_COUNT);
             if single_dblock_num \<le> 0 then Some (True, inode, s)
             else do {
               single_buff \<leftarrow> read_dblock s single_dblock_num;
               single_buff \<leftarrow> word_set single_buff (offset mod SINGLE_INDIRECT_BLOCK_COUNT) dblock_num;
               let s = snd (write_dblock s single_dblock_num single_buff);
               Some (True, inode, s) } } }))"

section \<open>Appending a block\<close>

text \<open>The single indirect part: \<open>fblock_num\<close> is one of the 512 numbers behind the direct ones.\<close>

definition add_single ::
  "'a bstate_scheme \<Rightarrow> iNode \<Rightarrow> int \<Rightarrow> int \<Rightarrow> (bool \<times> iNode \<times> 'a bstate_scheme) option" where
  "add_single s inode fblock_num dblock_num = do {
     (ok, inode, s) \<leftarrow>
       (if fblock_num = DIRECT_B_COUNT then do {
          (single_dblock_num, s) \<leftarrow> create_new_dblock s;
          if single_dblock_num = -1 then Some (False, inode, s)
          else Some (True, inode\<lparr>single_indirect := single_dblock_num\<rparr>, s) }
        else Some (True, inode, s));
     if \<not> ok then Some (False, inode, s)
     else do {
       single_buff \<leftarrow> read_dblock s (single_indirect inode);
       single_buff \<leftarrow> word_set single_buff (fblock_num - DIRECT_B_COUNT) dblock_num;
       let (ok, s) = write_dblock s (single_indirect inode) single_buff;
       Some (ok, inode, s) } }"

text \<open>
  Entering a number below a list block of list blocks: at \<open>offset\<close> 0 of a list block it is
  allocated and entered first.
\<close>

definition add_below ::
  "'a bstate_scheme \<Rightarrow> int \<Rightarrow> int \<Rightarrow> int \<Rightarrow> int \<Rightarrow> (bool \<times> 'a bstate_scheme) option" where
  "add_below s double_num i j dblock_num = do {
     double_buff \<leftarrow> read_dblock s double_num;
     (ok, double_buff, s) \<leftarrow>
       (if j = 0 then do {
          (single_dblock_num, s) \<leftarrow> create_new_dblock s;
          if single_dblock_num = -1 then Some (False, double_buff, s)
          else do {
            double_buff \<leftarrow> word_set double_buff i single_dblock_num;
            let (ok, s) = write_dblock s double_num double_buff;
            Some (ok, double_buff, s) } }
        else Some (True, double_buff, s));
     if \<not> ok then Some (False, s)
     else do {
       single_dblock_num \<leftarrow> word_get double_buff i;
       if single_dblock_num \<le> 0 then Some (False, s)
       else do {
         single_buff \<leftarrow> read_dblock s single_dblock_num;
         single_buff \<leftarrow> word_set single_buff j dblock_num;
         Some (write_dblock s single_dblock_num single_buff) } } }"

definition add_double ::
  "'a bstate_scheme \<Rightarrow> iNode \<Rightarrow> int \<Rightarrow> int \<Rightarrow> (bool \<times> iNode \<times> 'a bstate_scheme) option" where
  "add_double s inode fblock_num dblock_num = do {
     (ok, inode, s) \<leftarrow>
       (if fblock_num = DIRECT_B_COUNT + SINGLE_INDIRECT_BLOCK_COUNT then do {
          (double_dblock_num, s) \<leftarrow> create_new_dblock s;
          if double_dblock_num = -1 then Some (False, inode, s)
          else Some (True, inode\<lparr>double_indirect := double_dblock_num\<rparr>, s) }
        else Some (True, inode, s));
     if \<not> ok then Some (False, inode, s)
     else do {
       let offset = fblock_num - DIRECT_B_COUNT - SINGLE_INDIRECT_BLOCK_COUNT;
       (ok, s) \<leftarrow> add_below s (double_indirect inode) (offset div SINGLE_INDIRECT_BLOCK_COUNT)
                    (offset mod SINGLE_INDIRECT_BLOCK_COUNT) dblock_num;
       Some (ok, inode, s) } }"

definition add_triple ::
  "'a bstate_scheme \<Rightarrow> iNode \<Rightarrow> int \<Rightarrow> int \<Rightarrow> (bool \<times> iNode \<times> 'a bstate_scheme) option" where
  "add_triple s inode fblock_num dblock_num = do {
     (ok, inode, s) \<leftarrow>
       (if fblock_num = DIRECT_B_COUNT + SINGLE_INDIRECT_BLOCK_COUNT + DOUBLE_INDIRECT_BLOCK_COUNT then do {
          (triple_dblock_num, s) \<leftarrow> create_new_dblock s;
          if triple_dblock_num = -1 then Some (False, inode, s)
          else Some (True, inode\<lparr>triple_indirect := triple_dblock_num\<rparr>, s) }
        else Some (True, inode, s));
     if \<not> ok then Some (False, inode, s)
     else do {
       triple_buff \<leftarrow> read_dblock s (triple_indirect inode);
       let offset = fblock_num - DIRECT_B_COUNT - SINGLE_INDIRECT_BLOCK_COUNT - DOUBLE_INDIRECT_BLOCK_COUNT;
       let i = offset div DOUBLE_INDIRECT_BLOCK_COUNT;
       (ok, triple_buff, s) \<leftarrow>
         (if offset mod DOUBLE_INDIRECT_BLOCK_COUNT = 0 then do {
            (double_dblock_num, s) \<leftarrow> create_new_dblock s;
            if double_dblock_num = -1 then Some (False, triple_buff, s)
            else do {
              triple_buff \<leftarrow> word_set triple_buff i double_dblock_num;
              let (ok, s) = write_dblock s (triple_indirect inode) triple_buff;
              Some (ok, triple_buff, s) } }
          else Some (True, triple_buff, s));
       if \<not> ok then Some (False, inode, s)
       else do {
         double_num \<leftarrow> word_get triple_buff i;
         (ok, s) \<leftarrow> add_below s double_num
                      ((offset div SINGLE_INDIRECT_BLOCK_COUNT) mod SINGLE_INDIRECT_BLOCK_COUNT)
                      (offset mod SINGLE_INDIRECT_BLOCK_COUNT) dblock_num;
         Some (ok, inode, s) } } }"

definition add_dblock_to_inode ::
  "'a bstate_scheme \<Rightarrow> iNode \<Rightarrow> int \<Rightarrow> (bool \<times> iNode \<times> 'a bstate_scheme) option" where
  "add_dblock_to_inode s inode dblock_num = do {
     let fblock_num = num_blocks inode;
     (ok, inode, s) \<leftarrow>
       (if fblock_num < DIRECT_B_COUNT then do {
          ds \<leftarrow> array_set (direct_blocks inode) fblock_num dblock_num;
          Some (True, inode\<lparr>direct_blocks := ds\<rparr>, s) }
        else if fblock_num < DIRECT_B_COUNT + SINGLE_INDIRECT_BLOCK_COUNT then
          add_single s inode fblock_num dblock_num
        else if fblock_num < DIRECT_B_COUNT + SINGLE_INDIRECT_BLOCK_COUNT + DOUBLE_INDIRECT_BLOCK_COUNT then
          add_double s inode fblock_num dblock_num
        else add_triple s inode fblock_num dblock_num);
     if \<not> ok then Some (False, inode, s)
     else Some (True, inode\<lparr>num_blocks := num_blocks inode + 1\<rparr>, s) }"

section \<open>Removing blocks\<close>

text \<open>Loop bodies over the words of a list block; what \<open>free_dblock\<close> answers is ignored.\<close>

definition remove_single_step ::
  "buffer \<Rightarrow> int \<Rightarrow> 'a bstate_scheme \<Rightarrow> ('a bstate_scheme, 'r) ctl option" where
  "remove_single_step buff = (\<lambda>i s.
     if ld_s64 buff (8 * i) = 0 then Some (Break s)
     else do { (ok, s) \<leftarrow> free_dblock s (ld_s64 buff (8 * i)); Some (Next s) })"

definition remove_single_indirect :: "'a bstate_scheme \<Rightarrow> int \<Rightarrow> (bool \<times> 'a bstate_scheme) option" where
  "remove_single_indirect s dblock_num =
     (if dblock_num \<le> 0 then Some (True, s)
      else do {
        single_buff \<leftarrow> read_dblock s dblock_num;
        r \<leftarrow> for_loop 0 (BLOCK_SIZE div ADDRESS_SIZE) (remove_single_step single_buff) s;
        case r of Inr x \<Rightarrow> Some x
        | Inl s \<Rightarrow> do { (ok, s) \<leftarrow> free_dblock s dblock_num; Some (True, s) } })"

definition remove_double_step ::
  "buffer \<Rightarrow> int \<Rightarrow> 'a bstate_scheme \<Rightarrow> ('a bstate_scheme, 'r) ctl option" where
  "remove_double_step buff = (\<lambda>i s.
     if ld_s64 buff (8 * i) = 0 then Some (Break s)
     else do { (ok, s) \<leftarrow> remove_single_indirect s (ld_s64 buff (8 * i)); Some (Next s) })"

definition remove_double_indirect :: "'a bstate_scheme \<Rightarrow> int \<Rightarrow> (bool \<times> 'a bstate_scheme) option" where
  "remove_double_indirect s dblock_num =
     (if dblock_num \<le> 0 then Some (True, s)
      else do {
        double_buff \<leftarrow> read_dblock s dblock_num;
        r \<leftarrow> for_loop 0 (BLOCK_SIZE div ADDRESS_SIZE) (remove_double_step double_buff) s;
        case r of Inr x \<Rightarrow> Some x
        | Inl s \<Rightarrow> do { (ok, s) \<leftarrow> free_dblock s dblock_num; Some (True, s) } })"

definition remove_triple_step ::
  "buffer \<Rightarrow> int \<Rightarrow> 'a bstate_scheme \<Rightarrow> ('a bstate_scheme, 'r) ctl option" where
  "remove_triple_step buff = (\<lambda>i s.
     if ld_s64 buff (8 * i) = 0 then Some (Break s)
     else do { (ok, s) \<leftarrow> remove_double_indirect s (ld_s64 buff (8 * i)); Some (Next s) })"

definition remove_triple_indirect :: "'a bstate_scheme \<Rightarrow> int \<Rightarrow> (bool \<times> 'a bstate_scheme) option" where
  "remove_triple_indirect s dblock_num =
     (if dblock_num \<le> 0 then Some (True, s)
      else do {
        triple_buff \<leftarrow> read_dblock s dblock_num;
        r \<leftarrow> for_loop 0 (BLOCK_SIZE div ADDRESS_SIZE) (remove_triple_step triple_buff) s;
        case r of Inr x \<Rightarrow> Some x
        | Inl s \<Rightarrow> do { (ok, s) \<leftarrow> free_dblock s dblock_num; Some (True, s) } })"

text \<open>
  The loops of \<open>remove_dblocks_from_inode\<close>: release direct block \<open>i\<close>; release what word \<open>i\<close>
  of a buffer refers to, with \<open>rel\<close>, and clear the word. The buffers are local copies that are
  never written back.
\<close>

definition drop_direct_step ::
  "int \<Rightarrow> iNode \<times> 'a bstate_scheme \<Rightarrow> (iNode \<times> 'a bstate_scheme, 'r) ctl option" where
  "drop_direct_step = (\<lambda>i (inode, s). do {
     n \<leftarrow> array_get (direct_blocks inode) i;
     (ok, s) \<leftarrow> free_dblock s n;
     ds \<leftarrow> array_set (direct_blocks inode) i 0;
     Some (Next (inode\<lparr>direct_blocks := ds\<rparr>, s)) })"

definition drop_word_step ::
  "('a bstate_scheme \<Rightarrow> int \<Rightarrow> (bool \<times> 'a bstate_scheme) option) \<Rightarrow>
   int \<Rightarrow> buffer \<times> 'a bstate_scheme \<Rightarrow> (buffer \<times> 'a bstate_scheme, 'r) ctl option" where
  "drop_word_step rel = (\<lambda>i (buff, s). do {
     n \<leftarrow> word_get buff i;
     (ok, s) \<leftarrow> rel s n;
     buff \<leftarrow> word_set buff i 0;
     Some (Next (buff, s)) })"

text \<open>A loop that always falls through, as a function of its bounds.\<close>

definition drop_words ::
  "('a bstate_scheme \<Rightarrow> int \<Rightarrow> (bool \<times> 'a bstate_scheme) option) \<Rightarrow> int \<Rightarrow> int \<Rightarrow>
   buffer \<Rightarrow> 'a bstate_scheme \<Rightarrow> (buffer \<times> 'a bstate_scheme) option" where
  "drop_words rel lo hi buff s = do {
     r \<leftarrow> for_loop lo hi (drop_word_step rel) (buff, s);
     case r of Inl x \<Rightarrow> Some x | Inr x \<Rightarrow> Some x }"

text \<open>The four cases of the function, by where \<open>fblock_num\<close> lies.\<close>

definition remove_from_direct ::
  "'a bstate_scheme \<Rightarrow> iNode \<Rightarrow> int \<Rightarrow> int \<Rightarrow> (bool \<times> iNode \<times> 'a bstate_scheme) option" where
  "remove_from_direct s inode fblock_num curr_blocks = do {
     r \<leftarrow> for_loop fblock_num (min curr_blocks DIRECT_B_COUNT) drop_direct_step (inode, s);
     case r of Inr x \<Rightarrow> Some x
     | Inl (inode, s) \<Rightarrow>
       if curr_blocks \<le> DIRECT_B_COUNT then Some (True, inode, s)
       else do {
         (ok, s) \<leftarrow> remove_single_indirect s (single_indirect inode);
         let inode = inode\<lparr>single_indirect := 0\<rparr>;
         if curr_blocks \<le> DIRECT_B_COUNT + SINGLE_INDIRECT_BLOCK_COUNT then Some (True, inode, s)
         else do {
           (ok, s) \<leftarrow> remove_double_indirect s (double_indirect inode);
           let inode = inode\<lparr>double_indirect := 0\<rparr>;
           if curr_blocks \<le> DIRECT_B_COUNT + SINGLE_INDIRECT_BLOCK_COUNT + DOUBLE_INDIRECT_BLOCK_COUNT
           then Some (True, inode, s)
           else do {
             (ok, s) \<leftarrow> remove_double_indirect s (triple_indirect inode);
             Some (True, inode\<lparr>triple_indirect := 0\<rparr>, s) } } } }"

definition remove_from_single ::
  "'a bstate_scheme \<Rightarrow> iNode \<Rightarrow> int \<Rightarrow> int \<Rightarrow> (bool \<times> iNode \<times> 'a bstate_scheme) option" where
  "remove_from_single s inode fblock_num curr_blocks = do {
     single_buff \<leftarrow> read_dblock s (single_indirect inode);
     let offset = fblock_num - DIRECT_B_COUNT;
     let total = curr_blocks - DIRECT_B_COUNT;
     let blocks_to_free = SINGLE_INDIRECT_BLOCK_COUNT - offset;
     let blocks_to_free = (if total < blocks_to_free then total - offset else blocks_to_free);
     (single_buff, s) \<leftarrow> drop_words free_dblock offset (offset + blocks_to_free) single_buff s;
     if curr_blocks \<le> DIRECT_B_COUNT + SINGLE_INDIRECT_BLOCK_COUNT then Some (True, inode, s)
     else do {
       (ok, s) \<leftarrow> remove_double_indirect s (double_indirect inode);
       Some (True, inode\<lparr>double_indirect := 0\<rparr>, s) } }"

definition remove_from_double ::
  "'a bstate_scheme \<Rightarrow> iNode \<Rightarrow> int \<Rightarrow> int \<Rightarrow> (bool \<times> iNode \<times> 'a bstate_scheme) option" where
  "remove_from_double s inode fblock_num curr_blocks = do {
     double_buff \<leftarrow> read_dblock s (double_indirect inode);
     let base = fblock_num - DIRECT_B_COUNT - SINGLE_INDIRECT_BLOCK_COUNT;
     let double_offset = base div SINGLE_INDIRECT_BLOCK_COUNT;
     let single_offset = base mod SINGLE_INDIRECT_BLOCK_COUNT;
     n \<leftarrow> word_get double_buff double_offset;
     (double_buff, s) \<leftarrow>
       (if single_offset = 0 then do {
          (ok, s) \<leftarrow> remove_single_indirect s n;
          double_buff \<leftarrow> word_set double_buff double_offset 0;
          Some (double_buff, s) }
        else do {
          single_buff \<leftarrow> read_dblock s n;
          (single_buff, s) \<leftarrow> drop_words free_dblock single_offset SINGLE_INDIRECT_BLOCK_COUNT single_buff s;
          Some (double_buff, s) });
     let total = curr_blocks - DIRECT_B_COUNT - SINGLE_INDIRECT_BLOCK_COUNT;
     let to_free = SINGLE_INDIRECT_BLOCK_COUNT - double_offset;
     let to_free = (if total div SINGLE_INDIRECT_BLOCK_COUNT < to_free then total - double_offset else to_free);
     (double_buff, s) \<leftarrow> drop_words remove_single_indirect (double_offset + 1) (double_offset + to_free) double_buff s;
     Some (True, inode, s) }"

definition remove_from_triple ::
  "'a bstate_scheme \<Rightarrow> iNode \<Rightarrow> int \<Rightarrow> int \<Rightarrow> (bool \<times> iNode \<times> 'a bstate_scheme) option" where
  "remove_from_triple s inode fblock_num curr_blocks = do {
     triple_buff \<leftarrow> read_dblock s (triple_indirect inode);
     let base = fblock_num - (DIRECT_B_COUNT + SINGLE_INDIRECT_BLOCK_COUNT + DOUBLE_INDIRECT_BLOCK_COUNT);
     let triple_offset = base div DOUBLE_INDIRECT_BLOCK_COUNT;
     let double_offset = (base div SINGLE_INDIRECT_BLOCK_COUNT) mod SINGLE_INDIRECT_BLOCK_COUNT;
     let single_offset = base mod SINGLE_INDIRECT_BLOCK_COUNT;
     n \<leftarrow> word_get triple_buff triple_offset;
     (triple_buff, s) \<leftarrow>
       (if single_offset = 0 \<and> double_offset = 0 then do {
          (ok, s) \<leftarrow> remove_double_indirect s n;
          triple_buff \<leftarrow> word_set triple_buff triple_offset 0;
          Some (triple_buff, s) }
        else if single_offset = 0 then do {
          double_buff \<leftarrow> read_dblock s n;
          (double_buff, s) \<leftarrow>
            drop_words remove_single_indirect double_offset SINGLE_INDIRECT_BLOCK_COUNT double_buff s;
          Some (triple_buff, s) }
        else do {
          double_buff \<leftarrow> read_dblock s n;
          m \<leftarrow> word_get double_buff double_offset;
          single_buff \<leftarrow> read_dblock s m;
          (single_buff, s) \<leftarrow> drop_words free_dblock single_offset SINGLE_INDIRECT_BLOCK_COUNT single_buff s;
          (double_buff, s) \<leftarrow>
            drop_words remove_single_indirect (double_offset + 1) SINGLE_INDIRECT_BLOCK_COUNT double_buff s;
          Some (triple_buff, s) });
     let total = curr_blocks - DIRECT_B_COUNT - SINGLE_INDIRECT_BLOCK_COUNT - DOUBLE_INDIRECT_BLOCK_COUNT;
     let to_free = SINGLE_INDIRECT_BLOCK_COUNT - triple_offset;
     let to_free = (if total < to_free then total - triple_offset else to_free);
     (triple_buff, s) \<leftarrow> drop_words remove_double_indirect (triple_offset + 1) (triple_offset + to_free) triple_buff s;
     Some (True, inode, s) }"

definition remove_dblocks_from_inode ::
  "'a bstate_scheme \<Rightarrow> iNode \<Rightarrow> int \<Rightarrow> (bool \<times> iNode \<times> 'a bstate_scheme) option" where
  "remove_dblocks_from_inode s inode fblock_num =
     (if fblock_num \<ge> num_blocks inode then Some (False, inode, s)
      else
        let curr_blocks = num_blocks inode;
            inode = inode\<lparr>num_blocks := fblock_num\<rparr> in
        if fblock_num \<le> DIRECT_B_COUNT then remove_from_direct s inode fblock_num curr_blocks
        else if fblock_num \<le> DIRECT_B_COUNT + SINGLE_INDIRECT_BLOCK_COUNT then
          remove_from_single s inode fblock_num curr_blocks
        else if fblock_num \<le> DIRECT_B_COUNT + SINGLE_INDIRECT_BLOCK_COUNT + DOUBLE_INDIRECT_BLOCK_COUNT then
          remove_from_double s inode fblock_num curr_blocks
        else remove_from_triple s inode fblock_num curr_blocks)"

end
