(* ===== verification/Directory.thy ===== *)
theory Directory
  imports InodeBlocks
begin

text \<open>
  Directories (\<open>find_file\<close>, \<open>add_new_entry\<close>, \<open>is_empty_dir\<close> of \<open>lib/file_layer.c\<close>). A
  directory's blocks hold records: inode number (8 bytes), distance to the next record (8),
  length of the name (2), the name. The last record of a block reaches to its end; a record
  whose inode number is 0 is empty.

  The buffer is a heap block of \<open>BLOCK_SIZE\<close> bytes: an access beyond it is the outer \<open>None\<close>.
  Both \<open>while\<close> loops move on by a positive distance, which is their termination measure.
\<close>

unbundle bit_operations_syntax

section \<open>Constants\<close>

definition ADDRESS_PTR_SZ :: int where "ADDRESS_PTR_SZ = 8"
definition INODE_SZ :: int where "INODE_SZ = 8"
definition STRING_LENGTH_SZ :: int where "STRING_LENGTH_SZ = 2"
definition MAX_NAME_LENGTH :: int where "MAX_NAME_LENGTH = 255"

lemma dir_geometry [geometry]:
  "ADDRESS_PTR_SZ = 8" "INODE_SZ = 8" "STRING_LENGTH_SZ = 2" "MAX_NAME_LENGTH = 255"
  by (simp_all add: ADDRESS_PTR_SZ_def INODE_SZ_def STRING_LENGTH_SZ_def MAX_NAME_LENGTH_def)

text \<open>\<open>S_IFMT\<close>, \<open>S_IFDIR\<close>, \<open>S_IFREG\<close> and the macro \<open>S_ISDIR\<close> of \<open>sys/stat.h\<close>.\<close>

definition S_IFMT :: "32 word" where "S_IFMT = 0xF000"
definition S_IFDIR :: "32 word" where "S_IFDIR = 0x4000"
definition S_IFREG :: "32 word" where "S_IFREG = 0x8000"
definition S_ISDIR :: "32 word \<Rightarrow> bool" where "S_ISDIR m \<longleftrightarrow> (m AND S_IFMT) = S_IFDIR"

section \<open>Checked access to a block buffer\<close>

definition in_block :: "int \<Rightarrow> int \<Rightarrow> bool" where
  "in_block p n \<longleftrightarrow> 0 \<le> p \<and> p + n \<le> BLOCK_SIZE"

definition rd_s64 :: "buffer \<Rightarrow> int \<Rightarrow> int option" where
  "rd_s64 b p = (if in_block p 8 then Some (ld_s64 b p) else None)"

definition rd_u16 :: "buffer \<Rightarrow> int \<Rightarrow> int option" where
  "rd_u16 b p = (if in_block p 2 then Some (ld_u16 b p) else None)"

definition wr_s64 :: "buffer \<Rightarrow> int \<Rightarrow> int \<Rightarrow> buffer option" where
  "wr_s64 b p v = (if in_block p 8 then Some (st_s64 b p v) else None)"

definition wr_u16 :: "buffer \<Rightarrow> int \<Rightarrow> int \<Rightarrow> buffer option" where
  "wr_u16 b p v = (if in_block p 2 then Some (st_u16 b p v) else None)"

text \<open>Names in a buffer: \<open>strncpy\<close> of all characters, \<open>strncmp\<close> with a C string.\<close>

definition st_name :: "buffer \<Rightarrow> int \<Rightarrow> string \<Rightarrow> buffer" where
  "st_name b p s = (\<lambda>i. if p \<le> i \<and> i < p + int (length s) then of_char (s ! nat (i - p)) else b i)"

definition wr_name :: "buffer \<Rightarrow> int \<Rightarrow> string \<Rightarrow> buffer option" where
  "wr_name b p s = (if in_block p (int (length s)) then Some (st_name b p s) else None)"

fun name_matches :: "buffer \<Rightarrow> int \<Rightarrow> string \<Rightarrow> bool option" where
  "name_matches b p [] = Some True"
| "name_matches b p (c # cs) =
     (if \<not> in_block p 1 then None
      else if b p = of_char c then name_matches b (p + 1) cs else Some False)"

section \<open>Looking up a name\<close>

record file_pos_in_dir =
  fp_dblock :: buffer
  fp_dblock_num :: int
  fp_fblock_num :: int
  start_pos :: int
  prev_entry :: int

text \<open>
  The inner loop of \<open>find_file\<close>: the record is found, with the position of the record before
  it; a record without a successor ends the search; or the block is exhausted.
\<close>

datatype dir_scan = Found int int | Stuck int | Exhausted

function scan_block :: "buffer \<Rightarrow> string \<Rightarrow> int \<Rightarrow> int \<Rightarrow> dir_scan option" where
  "scan_block b name curr_pos prev =
     (if curr_pos < BLOCK_SIZE then do {
        inum \<leftarrow> rd_s64 b curr_pos;
        hit \<leftarrow> (if inum \<noteq> 0 then do {
                  str_length \<leftarrow> rd_u16 b (curr_pos + INODE_SZ + ADDRESS_PTR_SZ);
                  if str_length = int (length name)
                  then name_matches b (curr_pos + INODE_SZ + ADDRESS_PTR_SZ + STRING_LENGTH_SZ) name
                  else Some False }
                else Some False);
        if hit then Some (Found curr_pos prev)
        else do {
          next_entry_offset \<leftarrow> rd_s64 b (curr_pos + INODE_SZ);
          if next_entry_offset \<le> 0 then Some (Stuck prev)
          else scan_block b name (curr_pos + next_entry_offset) curr_pos } }
      else Some Exhausted)"
  by pat_completeness auto
termination
  by (relation "measure (\<lambda>(b, name, p, prev). nat (BLOCK_SIZE - p))") auto

declare scan_block.simps [simp del]

text \<open>Loop body: search block \<open>i\<close> of the directory.\<close>

definition find_step ::
  "'a disk_scheme \<Rightarrow> string \<Rightarrow> iNode \<Rightarrow> int \<Rightarrow> file_pos_in_dir \<Rightarrow>
   (file_pos_in_dir, file_pos_in_dir) ctl option" where
  "find_step s name parent_inode = (\<lambda>i file. do {
     dblock_num \<leftarrow> fblock_num_to_dblock_num s parent_inode i;
     let file = file\<lparr>fp_dblock_num := dblock_num, fp_fblock_num := i, prev_entry := -1\<rparr>;
     if dblock_num \<le> 0 then Some (Return (file\<lparr>start_pos := -1\<rparr>))
     else do {
       dblock \<leftarrow> read_dblock s dblock_num;
       let file = file\<lparr>fp_dblock := dblock\<rparr>;
       r \<leftarrow> scan_block dblock name 0 (-1);
       case r of
         Found pos prev \<Rightarrow> Some (Return (file\<lparr>start_pos := pos, prev_entry := prev\<rparr>))
       | Stuck prev \<Rightarrow> Some (Return (file\<lparr>start_pos := -1, prev_entry := prev\<rparr>))
       | Exhausted \<Rightarrow> Some (Next file) } })"

text \<open>Fields the code leaves unset are never read before they are set; they are 0 here.\<close>

definition find_file :: "'a disk_scheme \<Rightarrow> string \<Rightarrow> iNode \<Rightarrow> file_pos_in_dir option" where
  "find_file s name parent_inode =
     (let file = \<lparr>fp_dblock = zero_buf, fp_dblock_num = 0, fp_fblock_num = 0, start_pos = 0,
        prev_entry = -1\<rparr> in
      if \<not> S_ISDIR (mode parent_inode) then Some (file\<lparr>start_pos := -1\<rparr>)
      else do {
        r \<leftarrow> for_loop 0 (num_blocks parent_inode) (find_step s name parent_inode) file;
        case r of Inr file \<Rightarrow> Some file
        | Inl file \<Rightarrow> Some (file\<lparr>start_pos := -1, prev_entry := -1\<rparr>) })"

section \<open>Adding a record\<close>

text \<open>
  The loop of \<open>add_new_entry\<close> over the records of the last block: the first record with room
  behind it (its position, the distance it records and its own size), the end of the block,
  or a record without a successor.
\<close>

datatype dir_room = Room int int int | NoRoom | Broken

function find_room :: "buffer \<Rightarrow> int \<Rightarrow> int \<Rightarrow> dir_room option" where
  "find_room b new_entry_size curr_pos =
     (if curr_pos < BLOCK_SIZE then do {
        next_entry_offset \<leftarrow> rd_s64 b (curr_pos + INODE_SZ);
        name_len \<leftarrow> rd_u16 b (curr_pos + INODE_SZ + ADDRESS_PTR_SZ);
        let entry_length = INODE_SZ + ADDRESS_PTR_SZ + STRING_LENGTH_SZ + name_len;
        if next_entry_offset - entry_length \<ge> new_entry_size
        then Some (Room curr_pos next_entry_offset entry_length)
        else if next_entry_offset \<le> 0 then Some Broken
        else find_room b new_entry_size (curr_pos + next_entry_offset) }
      else Some NoRoom)"
  by pat_completeness auto
termination
  by (relation "measure (\<lambda>(b, n, p). nat (BLOCK_SIZE - p))") auto

declare find_room.simps [simp del]

text \<open>A record at position \<open>p\<close>.\<close>

definition put_record :: "buffer \<Rightarrow> int \<Rightarrow> int \<Rightarrow> int \<Rightarrow> string \<Rightarrow> buffer option" where
  "put_record b p inum addr_ptr name = do {
     b \<leftarrow> wr_s64 b p inum;
     b \<leftarrow> wr_s64 b (p + INODE_SZ) addr_ptr;
     b \<leftarrow> wr_u16 b (p + INODE_SZ + ADDRESS_PTR_SZ) (int (length name));
     wr_name b (p + INODE_SZ + ADDRESS_PTR_SZ + STRING_LENGTH_SZ) name }"

definition add_entry_in_new_block ::
  "'a bstate_scheme \<Rightarrow> iNode \<Rightarrow> int \<Rightarrow> string \<Rightarrow> (bool \<times> iNode \<times> 'a bstate_scheme) option" where
  "add_entry_in_new_block s inode child_inode_num child_name = do {
     (dblock_num, s) \<leftarrow> create_new_dblock s;
     if dblock_num \<le> 0 then Some (False, inode, s)
     else do {
       dblock \<leftarrow> put_record zero_buf 0 child_inode_num BLOCK_SIZE child_name;
       let (ok, s) = write_dblock s dblock_num dblock;
       if \<not> ok then Some (False, inode, s)
       else do {
         (ok, inode, s) \<leftarrow> add_dblock_to_inode s inode dblock_num;
         if \<not> ok then Some (False, inode, s)
         else Some (True, inode\<lparr>file_size := file_size inode + BLOCK_SIZE\<rparr>, s) } } }"

definition add_new_entry ::
  "'a bstate_scheme \<Rightarrow> iNode \<Rightarrow> int \<Rightarrow> string \<Rightarrow> (bool \<times> iNode \<times> 'a bstate_scheme) option" where
  "add_new_entry s inode child_inode_num child_name =
     (if \<not> S_ISDIR (mode inode) then Some (False, inode, s)
      else if int (length child_name) > MAX_NAME_LENGTH then Some (False, inode, s)
      else let new_entry_size =
             INODE_SZ + ADDRESS_PTR_SZ + STRING_LENGTH_SZ + int (length child_name) in
        if num_blocks inode \<noteq> 0 then do {
          dblock_num \<leftarrow> fblock_num_to_dblock_num s inode (num_blocks inode - 1);
          if dblock_num \<le> 0 then Some (False, inode, s)
          else do {
            dblock \<leftarrow> read_dblock s dblock_num;
            r \<leftarrow> find_room dblock new_entry_size 0;
            case r of
              Room curr_pos next_entry_offset entry_length \<Rightarrow> do {
                dblock \<leftarrow> wr_s64 dblock (curr_pos + INODE_SZ) entry_length;
                if entry_length \<le> 0 then Some (False, inode, s)
                else do {
                  dblock \<leftarrow> put_record dblock (curr_pos + entry_length) child_inode_num
                    (next_entry_offset - entry_length) child_name;
                  let (ok, s) = write_dblock s dblock_num dblock;
                  Some (ok, inode, s) } }
            | Broken \<Rightarrow> Some (False, inode, s)
            | NoRoom \<Rightarrow> add_entry_in_new_block s inode child_inode_num child_name } }
        else add_entry_in_new_block s inode child_inode_num child_name)"

section \<open>Empty directories\<close>

definition is_empty_dir :: "'a disk_scheme \<Rightarrow> iNode \<Rightarrow> bool option" where
  "is_empty_dir s inode =
     (if num_blocks inode > 1 then Some False
      else do {
        parent_ref \<leftarrow> find_file s ''..'' inode;
        if start_pos parent_ref = -1 then Some False
        else do {
          next_entry \<leftarrow> rd_s64 (fp_dblock parent_ref) (start_pos parent_ref + INODE_SZ);
          Some (start_pos parent_ref + next_entry = BLOCK_SIZE) } })"

end
