(* ===== verification/PathNames.thy ===== *)
theory PathNames
  imports Prelude
begin

text \<open>
  Splitting a path into the directory and the last name (\<open>get_parent_id\<close>,
  \<open>get_parent_path\<close>, \<open>get_child_name\<close> of \<open>lib/file_layer.c\<close>). Strings are C strings
  without their NUL; every caller passes the length of the path and a buffer one byte longer.
  A result \<open>None\<close> is the code's \<open>false\<close>, \<open>Some\<close> the string left in the buffer.
\<close>

section \<open>Operations\<close>

text \<open>The loop \<open>for(id = path_len-1; id >= 0; id--)\<close>; the argument is \<open>id + 1\<close>.\<close>

primrec parent_scan :: "string \<Rightarrow> int \<Rightarrow> nat \<Rightarrow> int" where
  "parent_scan path path_len 0 = -1"
| "parent_scan path path_len (Suc i) =
     (if path ! i = CHR ''/'' \<and> int i \<noteq> path_len - 1 then int i else parent_scan path path_len i)"

definition get_parent_id :: "string \<Rightarrow> int \<Rightarrow> int" where
  "get_parent_id path path_len = parent_scan path path_len (nat path_len)"

definition get_parent_path :: "string \<Rightarrow> int \<Rightarrow> string option" where
  "get_parent_path path path_len =
     (let pos = get_parent_id path path_len in
      if pos = -1 then None else Some (take (nat (pos + 1)) path))"

definition get_child_name :: "string \<Rightarrow> int \<Rightarrow> string option" where
  "get_child_name path path_len =
     (let start = get_parent_id path path_len in
      if start = -1 then None
      else let start = start + 1;
               last = path_len;
               last = (if path ! nat (last - 1) = CHR ''/'' then last - 1 else last)
           in Some (take (nat (last - start)) (drop (nat start) path)))"

section \<open>Where the last name starts\<close>

lemma parent_scan_range: "parent_scan p n i = -1 \<or> (0 \<le> parent_scan p n i \<and> parent_scan p n i < int i)"
  by (induction i) auto

lemma parent_scan_not_last: "parent_scan p n i \<noteq> n - 1 \<or> parent_scan p n i = -1"
  by (induction i) auto

lemma get_parent_id_range:
  assumes "get_parent_id p (int (length p)) \<noteq> -1"
  shows "0 \<le> get_parent_id p (int (length p))" "get_parent_id p (int (length p)) + 1 < int (length p)"
  using parent_scan_range [of p "int (length p)" "length p"]
    parent_scan_not_last [of p "int (length p)" "length p"] assms
  by (auto simp: get_parent_id_def)

lemma parent_scan_skip:
  "k \<le> i \<Longrightarrow> (\<And>j. k \<le> j \<Longrightarrow> j < i \<Longrightarrow> p ! j \<noteq> CHR ''/'' \<or> int j = n - 1) \<Longrightarrow>
   parent_scan p n i = parent_scan p n k"
proof (induction i)
  case (Suc i)
  then show ?case by (cases "k = Suc i") auto
qed simp

text \<open>A path made of a directory, a name and at most one slash behind it.\<close>

lemma get_parent_id_split:
  assumes "name \<noteq> []" "CHR ''/'' \<notin> set name" "t = [] \<or> t = ''/''"
  shows "get_parent_id (d @ ''/'' @ name @ t) (int (length (d @ ''/'' @ name @ t))) = int (length d)"
proof -
  let ?p = "d @ ''/'' @ name @ t" and ?n = "int (length (d @ ''/'' @ name @ t))"
  have hit: "?p ! length d = CHR ''/''" by (simp add: nth_append)
  have "?p ! j \<noteq> CHR ''/'' \<or> int j = ?n - 1" if j: "Suc (length d) \<le> j" "j < length ?p" for j
  proof (cases "j < Suc (length d) + length name")
    case True
    then have "?p ! j = name ! (j - Suc (length d))" using j by (auto simp: nth_append nth_Cons')
    moreover have "name ! (j - Suc (length d)) \<in> set name" using True j by (intro nth_mem) simp
    ultimately show ?thesis using assms(2) by metis
  next
    case False
    then show ?thesis using j assms(3) by auto
  qed
  then have "parent_scan ?p ?n (length ?p) = parent_scan ?p ?n (Suc (length d))"
    by (intro parent_scan_skip) auto
  also have "\<dots> = int (length d)"
    unfolding parent_scan.simps hit using assms(1) by (cases name) auto
  finally show ?thesis unfolding get_parent_id_def nat_int .
qed

lemma parent_path_split:
  assumes "name \<noteq> []" "CHR ''/'' \<notin> set name" "t = [] \<or> t = ''/''"
  shows "get_parent_path (d @ ''/'' @ name @ t) (int (length (d @ ''/'' @ name @ t))) = Some (d @ ''/'')"
proof -
  have "nat (int (length d) + 1) = Suc (length d)" by simp
  then show ?thesis
    unfolding get_parent_path_def get_parent_id_split [OF assms] Let_def by (simp del: of_nat_add)
qed

lemma child_name_split:
  assumes "name \<noteq> []" "CHR ''/'' \<notin> set name" "t = [] \<or> t = ''/''"
  shows "get_child_name (d @ ''/'' @ name @ t) (int (length (d @ ''/'' @ name @ t))) = Some name"
proof -
  let ?p = "d @ ''/'' @ name @ t"
  have s: "nat (int (length d) + 1) = Suc (length d)" by simp
  have "last name \<noteq> CHR ''/''" using assms(1,2) last_in_set by metis
  moreover have "?p ! nat (int (length ?p) - 1) = last (name @ t)"
  proof -
    have "nat (int (length ?p) - 1) = length ?p - 1" by simp
    then show ?thesis using last_conv_nth [of ?p] assms(1) by simp
  qed
  ultimately have "?p ! nat (int (length ?p) - 1) = CHR ''/'' \<longleftrightarrow> t = ''/''"
    using assms(1,3) by auto
  then show ?thesis
    unfolding get_child_name_def get_parent_id_split [OF assms] using assms(3) by (auto simp: Let_def s)
qed

section \<open>Properties\<close>

text \<open>
  C37: a path \<open>d/name\<close> or \<open>d/name/\<close> is split into the directory \<open>d/\<close> and the name, and the
  two parts put together give the path back.
\<close>

theorem path_is_split_at_the_last_name:
  assumes "name \<noteq> []" "CHR ''/'' \<notin> set name" "t = [] \<or> t = ''/''" "p = d @ ''/'' @ name @ t"
  shows "get_parent_path p (int (length p)) = Some (d @ ''/'') \<and>
    get_child_name p (int (length p)) = Some name"
  unfolding assms(4) by (rule conjI parent_path_split child_name_split assms)+

theorem path_is_split_at_the_last_name_witness:
  "get_parent_path ''/usr/lib/'' 9 = Some ''/usr/'' \<and> get_child_name ''/usr/lib/'' 9 = Some ''lib''"
  using path_is_split_at_the_last_name [of "''lib''" "''/''" "''/usr/lib/''" "''/usr''"] by simp

text \<open>
  The parent of a path is a proper prefix of it, so walking up by \<open>get_parent_path\<close>, as
  the lookup of a path does, ends after at most as many steps as the path has characters.
\<close>

theorem parent_path_is_shorter:
  assumes "get_parent_path p (int (length p)) = Some q"
  shows "length q < length p \<and> (\<exists>name. name \<noteq> [] \<and> p = q @ name)"
proof -
  let ?k = "nat (get_parent_id p (int (length p)) + 1)"
  have ne: "get_parent_id p (int (length p)) \<noteq> -1" and q: "q = take ?k p"
    using assms by (auto simp: get_parent_path_def Let_def split: if_splits)
  have "?k < length p" using get_parent_id_range [OF ne] by simp
  moreover have "p = q @ drop ?k p" using q by simp
  ultimately show ?thesis using q by (metis drop_eq_Nil length_take min.absorb4 not_le)
qed

theorem parent_path_is_shorter_witness:
  "length (''/usr/'' :: string) < length (''/usr/lib'' :: string)"
  using parent_path_is_shorter [of "''/usr/lib''" "''/usr/''"]
    parent_path_split [of "''lib''" "[]" "''/usr''"] by simp

end
