(* ===== verification/FileLayer.thy ===== *)
theory FileLayer
  imports Directory PathNames LruCache
begin

text \<open>
  Files and directories by path (\<open>get_inode_num_from_path\<close>, \<open>create_new_file\<close>, the
  \<open>custom_\<close> operations and \<open>init_file_layer\<close> of \<open>lib/file_layer.c\<close>). The state is that of
  the block layer with the cache from paths to inode numbers. \<open>now\<close> is what \<open>time(NULL)\<close>
  returns. A C function that returns through a pointer argument returns that value here too.

  \<open>size_t\<close> arguments are integers between 0 and \<open>2 ^ 64 - 1\<close> and arithmetic on them is
  written with \<open>u64\<close>, the conversion back to \<open>ssize_t\<close> with \<open>s64\<close>. A caller's buffer is a
  list of bytes, as long as the caller made it; going beyond it is the outer \<open>None\<close>.
\<close>

section \<open>Constants and conversions\<close>

definition ROOT_INODE :: int where "ROOT_INODE = 2"
definition CACHE_SIZE :: int where "CACHE_SIZE = 50000"
definition DEFAULT_PERMS :: "32 word" where "DEFAULT_PERMS = 509"

text \<open>From \<open>errno.h\<close> and \<open>fcntl.h\<close> of Linux.\<close>

definition ENOENT :: int where "ENOENT = 2"
definition EEXIST :: int where "EEXIST = 17"
definition ENOTDIR :: int where "ENOTDIR = 20"
definition EINVAL :: int where "EINVAL = 22"
definition ENOTEMPTY :: int where "ENOTEMPTY = 39"
definition EDQUOT :: int where "EDQUOT = 122"
definition O_CREAT :: int where "O_CREAT = 64"
definition O_TRUNC :: int where "O_TRUNC = 512"

definition u64 :: "int \<Rightarrow> int" where "u64 v = v mod 2 ^ 64"
definition s64 :: "int \<Rightarrow> int" where "s64 v = s64_of (v mod 2 ^ 64)"

record fstate = bstate +
  iname_cache :: lru_cache

text \<open>The cache operations on the state of the file layer.\<close>

definition cache_get :: "'a fstate_scheme \<Rightarrow> string \<Rightarrow> (int \<times> 'a fstate_scheme) option" where
  "cache_get s path = do {
     (v, c) \<leftarrow> get_cache (iname_cache s) (Some path); Some (v, s\<lparr>iname_cache := c\<rparr>) }"

definition cache_set :: "'a fstate_scheme \<Rightarrow> string \<Rightarrow> int \<Rightarrow> 'a fstate_scheme option" where
  "cache_set s path v = do {
     c \<leftarrow> set_cache (iname_cache s) (Some path) v; Some (s\<lparr>iname_cache := c\<rparr>) }"

definition cache_pop :: "'a fstate_scheme \<Rightarrow> string \<Rightarrow> 'a fstate_scheme option" where
  "cache_pop s path = do {
     (b, c) \<leftarrow> pop_cache (iname_cache s) (Some path); Some (s\<lparr>iname_cache := c\<rparr>) }"

section \<open>Path lookup\<close>

lemma get_parent_path_shorter:
  assumes "get_parent_path p (int (length p)) = Some q"
  shows "length q < length p"
proof -
  have "get_parent_id p (int (length p)) \<noteq> -1"
    and "q = take (nat (get_parent_id p (int (length p)) + 1)) p"
    using assms by (auto simp: get_parent_path_def Let_def split: if_splits)
  with get_parent_id_range [of p] show ?thesis by simp
qed

function get_inode_num_from_path ::
  "'a fstate_scheme \<Rightarrow> string \<Rightarrow> (int \<times> 'a fstate_scheme) option" where
  "get_inode_num_from_path s path =
     (let path_len = int (length path) in
      if path = ''/'' then Some (ROOT_INODE, s)
      else do {
        (cached_inode_num, s) \<leftarrow> cache_get s path;
        if cached_inode_num > 0 then Some (cached_inode_num, s)
        else case get_parent_path path path_len of
          None \<Rightarrow> Some (-1, s)
        | Some parent_path \<Rightarrow> do {
            (parent_inode_num, s) \<leftarrow> get_inode_num_from_path s parent_path;
            if parent_inode_num = -1 then Some (-1, s)
            else do {
              inode_ptr \<leftarrow> read_inode s parent_inode_num;
              case get_child_name path path_len of
                None \<Rightarrow> Some (-1, s)
              | Some child_name \<Rightarrow> do {
                  inode \<leftarrow> inode_ptr;
                  file \<leftarrow> find_file s child_name inode;
                  if start_pos file = -1 then Some (-1, s)
                  else do {
                    inode_num \<leftarrow> rd_s64 (fp_dblock file) (start_pos file);
                    s \<leftarrow> cache_set s path inode_num;
                    Some (inode_num, s) } } } } })"
  by pat_completeness auto

termination
  by (relation "measure (\<lambda>(s, path). length path)") (auto dest: get_parent_path_shorter)

declare get_inode_num_from_path.simps [simp del]

section \<open>Creating files\<close>

definition create_new_file ::
  "int \<Rightarrow> 'a fstate_scheme \<Rightarrow> string \<Rightarrow> 32 word \<Rightarrow> (int \<times> iNode option \<times> 'a fstate_scheme) option" where
  "create_new_file now s path m =
     (let path_len = int (length path) in
      case get_parent_path path path_len of
        None \<Rightarrow> Some (- ENOENT, None, s)
      | Some parent_path \<Rightarrow> do {
          (parent_inode_num, s) \<leftarrow> get_inode_num_from_path s parent_path;
          if parent_inode_num = -1 then Some (- ENOENT, None, s)
          else do {
            (child_inode_num, s) \<leftarrow> get_inode_num_from_path s path;
            if child_inode_num \<noteq> -1 then Some (- EEXIST, None, s)
            else do {
              parent_ptr \<leftarrow> read_inode s parent_inode_num;
              parent_inode \<leftarrow> parent_ptr;
              if \<not> S_ISDIR (mode parent_inode) then Some (- ENOENT, None, s)
              else case get_child_name path path_len of
                None \<Rightarrow> Some (-1, None, s)
              | Some child_name \<Rightarrow> do {
                  (child_inode_num, s) \<leftarrow> create_new_inode s;
                  if child_inode_num = -1 then Some (- EDQUOT, None, s)
                  else do {
                    (ok, parent_inode, s) \<leftarrow> add_new_entry s parent_inode child_inode_num child_name;
                    if \<not> ok then do {
                      (freed, s) \<leftarrow> free_inode s child_inode_num;
                      Some (- EDQUOT, None, s) }
                    else do {
                      let parent_inode = parent_inode\<lparr>modification_time := now,
                        status_change_time := now, access_time := now\<rparr>;
                      (ok, s) \<leftarrow> write_inode s parent_inode_num parent_inode;
                      if \<not> ok then Some (-1, None, s)
                      else do {
                        child_ptr \<leftarrow> read_inode s child_inode_num;
                        child \<leftarrow> child_ptr;
                        Some (child_inode_num,
                          Some (child\<lparr>link_count := link_count child + 1, mode := m,
                            num_blocks := 0, file_size := 0, access_time := now,
                            modification_time := now, creation_time := now,
                            status_change_time := now\<rparr>), s) } } } } } } })"

text \<open>Both entries get the number of the new directory itself.\<close>

definition custom_mkdir :: "int \<Rightarrow> 'a fstate_scheme \<Rightarrow> string \<Rightarrow> 32 word \<Rightarrow> (bool \<times> 'a fstate_scheme) option" where
  "custom_mkdir now s path m = do {
     (child_inode_num, child_ptr, s) \<leftarrow> create_new_file now s path (S_IFDIR OR m);
     if child_inode_num \<le> -1 then Some (False, s)
     else do {
       child_inode \<leftarrow> child_ptr;
       (ok, child_inode, s) \<leftarrow> add_new_entry s child_inode child_inode_num ''.'';
       if \<not> ok then Some (False, s)
       else do {
         (ok, child_inode, s) \<leftarrow> add_new_entry s child_inode child_inode_num ''..'';
         if \<not> ok then Some (False, s)
         else do {
           (ok, s) \<leftarrow> write_inode s child_inode_num child_inode;
           if \<not> ok then Some (False, s) else Some (True, s) } } } }"

definition custom_mknod ::
  "int \<Rightarrow> 'a fstate_scheme \<Rightarrow> string \<Rightarrow> 32 word \<Rightarrow> int \<Rightarrow> (bool \<times> 'a fstate_scheme) option" where
  "custom_mknod now s path m dev = do {
     (child_inode_num, child_ptr, s) \<leftarrow> create_new_file now s path m;
     if child_inode_num \<le> -1 then Some (False, s)
     else do {
       child_inode \<leftarrow> child_ptr;
       (ok, s) \<leftarrow> write_inode s child_inode_num child_inode;
       if \<not> ok then Some (False, s) else Some (True, s) } }"

section \<open>Truncating\<close>

definition custom_truncate :: "'a fstate_scheme \<Rightarrow> string \<Rightarrow> int \<Rightarrow> (int \<times> 'a fstate_scheme) option" where
  "custom_truncate s path offset = do {
     (inode_num, s) \<leftarrow> get_inode_num_from_path s path;
     if inode_num = -1 then Some (-1, s)
     else do {
       ptr \<leftarrow> read_inode s inode_num;
       inode \<leftarrow> ptr;
       if offset > u64 (file_size inode) then Some (-1, s)
       else if offset = 0 \<and> file_size inode = 0 then Some (0, s)
       else do {
         let curr_block = offset div BLOCK_SIZE;
         (ok, inode, s) \<leftarrow>
           (if num_blocks inode > curr_block + 1 then remove_dblocks_from_inode s inode (curr_block + 1)
            else Some (True, inode, s));
         dblock_num \<leftarrow> fblock_num_to_dblock_num s inode curr_block;
         if dblock_num \<le> 0 then Some (-1, s)
         else do {
           dblock_buff \<leftarrow> read_dblock s dblock_num;
           let block_offset = offset mod BLOCK_SIZE;
           let dblock_buff = memset0 dblock_buff block_offset (BLOCK_SIZE - block_offset);
           let s = snd (write_dblock s dblock_num dblock_buff);
           (ok, s) \<leftarrow> write_inode s inode_num (inode\<lparr>file_size := s64 offset\<rparr>);
           Some (0, s) } } } }"

section \<open>Unlinking\<close>

text \<open>
  \<open>memcpy\<close> within one buffer: overlapping ranges are undefined.
\<close>

definition memcpy_within :: "buffer \<Rightarrow> int \<Rightarrow> int \<Rightarrow> int \<Rightarrow> buffer option" where
  "memcpy_within b p q n =
     (if in_block p n \<and> in_block q n \<and> (p + n \<le> q \<or> q + n \<le> p) then Some (memcpy b p b q n) else None)"

text \<open>
  Taking a record out of its block: its predecessor swallows it; or its successor is moved
  over it; or, when it is the only one, the block is released and the directory's last block
  takes its place. \<open>False\<close> in the first component is the code's \<open>return -1\<close>.
\<close>

definition remove_record ::
  "'a fstate_scheme \<Rightarrow> iNode \<Rightarrow> file_pos_in_dir \<Rightarrow> (bool \<times> iNode \<times> 'a fstate_scheme) option" where
  "remove_record s parent_inode file = do {
     next_off \<leftarrow> rd_s64 (fp_dblock file) (start_pos file + INODE_SZ);
     if prev_entry file \<noteq> -1 then do {
       v \<leftarrow> rd_s64 (fp_dblock file) (prev_entry file + INODE_SZ);
       dblock \<leftarrow> wr_s64 (fp_dblock file) (prev_entry file + INODE_SZ) (v + next_off);
       Some (True, parent_inode, snd (write_dblock s (fp_dblock_num file) dblock)) }
     else if start_pos file = 0 \<and> next_off \<noteq> BLOCK_SIZE then do {
       next_name_len \<leftarrow> rd_u16 (fp_dblock file) (next_off + INODE_SZ + ADDRESS_PTR_SZ);
       let next_len = INODE_SZ + ADDRESS_PTR_SZ + STRING_LENGTH_SZ + next_name_len;
       dblock \<leftarrow> memcpy_within (fp_dblock file) 0 next_off next_len;
       v \<leftarrow> rd_s64 dblock INODE_SZ;
       dblock \<leftarrow> wr_s64 dblock INODE_SZ (v + next_off);
       Some (True, parent_inode, snd (write_dblock s (fp_dblock_num file) dblock)) }
     else if start_pos file = 0 then do {
       end_dblock_num \<leftarrow> fblock_num_to_dblock_num s parent_inode (num_blocks parent_inode - 1);
       curr_dblock_num \<leftarrow> fblock_num_to_dblock_num s parent_inode (fp_fblock_num file);
       if curr_dblock_num \<le> 0 then Some (False, parent_inode, s)
       else if end_dblock_num \<le> 0 then Some (False, parent_inode, s)
       else do {
         (ok, s) \<leftarrow> free_dblock s curr_dblock_num;
         (ok, parent_inode, s) \<leftarrow>
           write_dblock_to_inode s parent_inode (fp_fblock_num file) end_dblock_num;
         Some (True, parent_inode\<lparr>num_blocks := num_blocks parent_inode - 1\<rparr>, s) } }
     else Some (True, parent_inode, s) }"

text \<open>Dropping one link of the inode: the last link releases it and its cache entry.\<close>

definition drop_link ::
  "int \<Rightarrow> 'a fstate_scheme \<Rightarrow> string \<Rightarrow> int \<Rightarrow> iNode \<Rightarrow> 'a fstate_scheme option" where
  "drop_link now s path inum inode =
     (let inode = inode\<lparr>link_count := link_count inode - 1\<rparr> in
      if link_count inode = 0 then do {
        s \<leftarrow> cache_pop s path;
        (ok, s) \<leftarrow> free_inode s inum;
        Some s }
      else do {
        (ok, s) \<leftarrow> write_inode s inum (inode\<lparr>status_change_time := now\<rparr>);
        Some s })"

definition custom_unlink :: "int \<Rightarrow> 'a fstate_scheme \<Rightarrow> string \<Rightarrow> (int \<times> 'a fstate_scheme) option" where
  "custom_unlink now s path = do {
     let path_len = int (length path);
     (inum, s) \<leftarrow> get_inode_num_from_path s path;
     if inum = -1 then Some (- EEXIST, s)
     else do {
       ptr \<leftarrow> read_inode s inum;
       inode \<leftarrow> ptr;
       keep \<leftarrow> (if S_ISDIR (mode inode) then do { e \<leftarrow> is_empty_dir s inode; Some (\<not> e) } else Some False);
       if keep then Some (- ENOTEMPTY, s)
       else case get_parent_path path path_len of
         None \<Rightarrow> Some (- EINVAL, s)
       | Some parent_path \<Rightarrow> do {
           (parent_inode_num, s) \<leftarrow> get_inode_num_from_path s parent_path;
           if parent_inode_num = -1 then Some (-1, s)
           else do {
             parent_ptr \<leftarrow> read_inode s parent_inode_num;
             case get_child_name path path_len of
               None \<Rightarrow> Some (-1, s)
             | Some child_name \<Rightarrow> do {
                 parent_inode \<leftarrow> parent_ptr;
                 file \<leftarrow> find_file s child_name parent_inode;
                 if start_pos file = -1 then Some (-1, s)
                 else do {
                   (ok, parent_inode, s) \<leftarrow> remove_record s parent_inode file;
                   if \<not> ok then Some (-1, s)
                   else do {
                     let parent_inode = parent_inode\<lparr>access_time := now,
                       modification_time := now, status_change_time := now\<rparr>;
                     s \<leftarrow> drop_link now s path inum inode;
                     (ok, s) \<leftarrow> write_inode s parent_inode_num parent_inode;
                     Some (0, s) } } } } } } }"

section \<open>Opening\<close>

unbundle bit_operations_syntax

definition custom_open :: "int \<Rightarrow> 'a fstate_scheme \<Rightarrow> string \<Rightarrow> int \<Rightarrow> (int \<times> 'a fstate_scheme) option" where
  "custom_open now s path oflag = do {
     (inode_num, s) \<leftarrow> get_inode_num_from_path s path;
     (ok, inode_num, s) \<leftarrow>
       (if oflag AND O_CREAT \<noteq> 0 \<and> inode_num \<le> -1 then do {
          (inode_num, ptr, s) \<leftarrow> create_new_file now s path (S_IFREG OR DEFAULT_PERMS);
          if inode_num \<le> -1 then Some (False, inode_num, s)
          else do {
            inode \<leftarrow> ptr;
            (ok, s) \<leftarrow> write_inode s inode_num inode;
            Some (True, inode_num, s) } }
        else Some (True, inode_num, s));
     if \<not> ok then Some (-1, s)
     else if oflag AND O_TRUNC \<noteq> 0 then do {
       (r, s) \<leftarrow> custom_truncate s path 0;
       if r = -1 then Some (-1, s) else Some (inode_num, s) }
     else Some (inode_num, s) }"

definition custom_close :: "int \<Rightarrow> int" where
  "custom_close file_descriptor = 0"

section \<open>Reading\<close>

text \<open>\<open>memcpy\<close> between a block buffer and a caller's buffer.\<close>

definition copy_out :: "byte list \<Rightarrow> int \<Rightarrow> buffer \<Rightarrow> int \<Rightarrow> int \<Rightarrow> byte list option" where
  "copy_out buff p b q n =
     (if 0 \<le> p \<and> 0 \<le> n \<and> p + n \<le> int (length buff) \<and> in_block q n
      then Some (take (nat p) buff @ map (\<lambda>i. b (q + int i)) [0..<nat n] @ drop (nat (p + n)) buff)
      else None)"

definition copy_in :: "buffer \<Rightarrow> int \<Rightarrow> byte list \<Rightarrow> int \<Rightarrow> int \<Rightarrow> buffer option" where
  "copy_in b p buff q n =
     (if 0 \<le> q \<and> 0 \<le> n \<and> q + n \<le> int (length buff) \<and> in_block p n
      then Some (\<lambda>i. if p \<le> i \<and> i < p + n then buff ! nat (q + (i - p)) else b i)
      else None)"

text \<open>Loop body: block \<open>i\<close> of a read that spans several blocks.\<close>

definition read_step ::
  "'a disk_scheme \<Rightarrow> iNode \<Rightarrow> int \<Rightarrow> int \<Rightarrow> int \<Rightarrow> int \<Rightarrow> int \<Rightarrow> byte list \<times> int \<Rightarrow>
   (byte list \<times> int, byte list) ctl option" where
  "read_step s inode start_block top_ceil bottom_floor nblocks = (\<lambda>i (buff, bytes_read). do {
     dblock_num \<leftarrow> fblock_num_to_dblock_num s inode (start_block + i);
     if dblock_num \<le> 0 then Some (Return buff)
     else case read_dblock s dblock_num of
       None \<Rightarrow> Some (Return buff)
     | Some buf_read \<Rightarrow>
         if i = 0 then do {
           buff \<leftarrow> copy_out buff 0 buf_read top_ceil (BLOCK_SIZE - top_ceil);
           Some (Next (buff, bytes_read + (BLOCK_SIZE - top_ceil))) }
         else if i = nblocks - 1 then do {
           buff \<leftarrow> copy_out buff bytes_read buf_read 0 (BLOCK_SIZE - bottom_floor);
           Some (Next (buff, bytes_read + (BLOCK_SIZE - bottom_floor))) }
         else do {
           buff \<leftarrow> copy_out buff bytes_read buf_read 0 BLOCK_SIZE;
           Some (Next (buff, bytes_read + BLOCK_SIZE)) } })"

text \<open>The copying part; \<open>Inr\<close> is the code's \<open>return -1\<close>.\<close>

definition read_blocks ::
  "'a disk_scheme \<Rightarrow> iNode \<Rightarrow> byte list \<Rightarrow> int \<Rightarrow> int \<Rightarrow> (byte list \<times> int + byte list) option" where
  "read_blocks s inode buff nbytes offset =
     (let start_block = offset div BLOCK_SIZE;
          top_ceil = offset mod BLOCK_SIZE;
          end_block = u64 (offset + nbytes) div BLOCK_SIZE;
          bottom_floor = BLOCK_SIZE - u64 (offset + nbytes) mod BLOCK_SIZE;
          nblocks_read = end_block - start_block + 1 in
      if nblocks_read = 1 then do {
        dblock_num \<leftarrow> fblock_num_to_dblock_num s inode start_block;
        if dblock_num \<le> 0 then Some (Inr buff)
        else case read_dblock s dblock_num of
          None \<Rightarrow> Some (Inr buff)
        | Some buf_read \<Rightarrow> do {
            buff \<leftarrow> copy_out buff 0 buf_read top_ceil nbytes;
            Some (Inl (buff, nbytes)) } }
      else for_loop 0 nblocks_read (read_step s inode start_block top_ceil bottom_floor nblocks_read) (buff, 0))"

definition custom_read ::
  "int \<Rightarrow> 'a fstate_scheme \<Rightarrow> string \<Rightarrow> byte list \<Rightarrow> int \<Rightarrow> int \<Rightarrow>
   (int \<times> byte list \<times> 'a fstate_scheme) option" where
  "custom_read now s path buff nbytes offset = do {
     buff \<leftarrow> (if nbytes \<le> int (length buff)
       then Some (replicate (nat nbytes) 0 @ drop (nat nbytes) buff) else None);
     (inum, s) \<leftarrow> get_inode_num_from_path s path;
     if inum = -1 then Some (-1, buff, s)
     else do {
       ptr \<leftarrow> read_inode s inum;
       inode \<leftarrow> ptr;
       if file_size inode = 0 then Some (0, buff, s)
       else if offset > u64 (file_size inode) then Some (-1, buff, s)
       else do {
         let nbytes = (if u64 (offset + nbytes) > u64 (file_size inode)
                       then u64 (file_size inode - offset) else nbytes);
         r \<leftarrow> read_blocks s inode buff nbytes offset;
         case r of
           Inr buff \<Rightarrow> Some (-1, buff, s)
         | Inl (buff, bytes_read) \<Rightarrow> do {
             (ok, s) \<leftarrow> write_inode s inum (inode\<lparr>access_time := now\<rparr>);
             Some (s64 bytes_read, buff, s) } } } }"

section \<open>Writing\<close>

text \<open>Loop body: one more block for the file.\<close>

definition grow_step ::
  "int \<Rightarrow> iNode \<times> 'a fstate_scheme \<Rightarrow> (iNode \<times> 'a fstate_scheme, 'a fstate_scheme) ctl option" where
  "grow_step = (\<lambda>i (inode, s). do {
     (new_block_id, s) \<leftarrow> create_new_dblock s;
     if new_block_id \<le> 0 then Some (Return s)
     else do {
       (ok, inode, s) \<leftarrow> add_dblock_to_inode s inode new_block_id;
       if \<not> ok then Some (Return s) else Some (Next (inode, s)) } })"

text \<open>Loop body: block \<open>i\<close> of a write that spans several blocks.\<close>

definition write_step ::
  "iNode \<Rightarrow> byte list \<Rightarrow> int \<Rightarrow> int \<Rightarrow> int \<Rightarrow> int \<Rightarrow> int \<Rightarrow> 'a fstate_scheme \<times> int \<Rightarrow>
   ('a fstate_scheme \<times> int, 'a fstate_scheme) ctl option" where
  "write_step inode buff start_block top_ceil bottom_floor nblocks = (\<lambda>i (s, bytes_written). do {
     dblock_num \<leftarrow> fblock_num_to_dblock_num s inode (start_block + i);
     if dblock_num \<le> 0 then Some (Return s)
     else case read_dblock s dblock_num of
       None \<Rightarrow> Some (Return s)
     | Some buf_read \<Rightarrow> do {
         (buf_read, bytes_written) \<leftarrow>
           (if i = 0 then do {
              b \<leftarrow> copy_in buf_read top_ceil buff 0 (BLOCK_SIZE - top_ceil);
              Some (b, bytes_written + (BLOCK_SIZE - top_ceil)) }
            else if i = nblocks - 1 then do {
              b \<leftarrow> copy_in buf_read 0 buff bytes_written (BLOCK_SIZE - bottom_floor);
              Some (b, bytes_written + (BLOCK_SIZE - bottom_floor)) }
            else do {
              b \<leftarrow> copy_in buf_read 0 buff bytes_written BLOCK_SIZE;
              Some (b, bytes_written + BLOCK_SIZE) });
         let (ok, s) = write_dblock s dblock_num buf_read;
         if \<not> ok then Some (Return s) else Some (Next (s, bytes_written)) } })"

text \<open>The copying part; \<open>Inr\<close> is the code's \<open>return -1\<close>.\<close>

definition write_blocks ::
  "'a fstate_scheme \<Rightarrow> iNode \<Rightarrow> byte list \<Rightarrow> int \<Rightarrow> int \<Rightarrow>
   ('a fstate_scheme \<times> int + 'a fstate_scheme) option" where
  "write_blocks s inode buff nbytes offset =
     (let start_block = offset div BLOCK_SIZE;
          top_ceil = offset mod BLOCK_SIZE;
          end_block = u64 (offset + nbytes) div BLOCK_SIZE;
          bottom_floor = BLOCK_SIZE - u64 (offset + nbytes) mod BLOCK_SIZE;
          nblocks_write = end_block - start_block + 1 in
      if nblocks_write = 1 then do {
        dblock_num \<leftarrow> fblock_num_to_dblock_num s inode start_block;
        if dblock_num \<le> 0 then Some (Inr s)
        else case read_dblock s dblock_num of
          None \<Rightarrow> Some (Inr s)
        | Some buf_read \<Rightarrow> do {
            buf_read \<leftarrow> copy_in buf_read top_ceil buff 0 nbytes;
            let (ok, s) = write_dblock s dblock_num buf_read;
            if \<not> ok then Some (Inr s) else Some (Inl (s, 0)) } }
      else for_loop 0 nblocks_write (write_step inode buff start_block top_ceil bottom_floor nblocks_write) (s, 0))"

definition custom_write ::
  "int \<Rightarrow> 'a fstate_scheme \<Rightarrow> string \<Rightarrow> byte list \<Rightarrow> int \<Rightarrow> int \<Rightarrow> (int \<times> 'a fstate_scheme) option" where
  "custom_write now s path buff nbytes offset = do {
     (inum, s) \<leftarrow> get_inode_num_from_path s path;
     if inum = -1 then Some (-1, s)
     else do {
       ptr \<leftarrow> read_inode s inum;
       inode \<leftarrow> ptr;
       let total = u64 (offset + nbytes);
       let grows = total > u64 (file_size inode);
       let bytes_to_add = (if grows then s64 (total - file_size inode) else 0);
       let new_blocks = (if grows then s64 (total div BLOCK_SIZE - num_blocks inode + 1) else 0);
       r \<leftarrow> for_loop 0 new_blocks grow_step (inode, s);
       case r of
         Inr s \<Rightarrow> Some (-1, s)
       | Inl (inode, s) \<Rightarrow> do {
           r \<leftarrow> write_blocks s inode buff nbytes offset;
           case r of
             Inr s \<Rightarrow> Some (-1, s)
           | Inl (s, bytes_written) \<Rightarrow> do {
               let inode = inode\<lparr>file_size := file_size inode + bytes_to_add, access_time := now,
                 modification_time := now, status_change_time := now\<rparr>;
               (ok, s) \<leftarrow> write_inode s inum inode;
               if \<not> ok then Some (-1, s) else Some (s64 nbytes, s) } } } }"

section \<open>Starting the file layer\<close>

definition init_file_layer ::
  "int \<Rightarrow> iNode \<Rightarrow> 'a fstate_scheme \<Rightarrow> (bool \<times> 'a fstate_scheme) option" where
  "init_file_layer now junk s = do {
     (ok, s) \<leftarrow> make_fs junk s;
     if \<not> ok then Some (False, s)
     else do {
       ptr \<leftarrow> read_inode s ROOT_INODE;
       case ptr of
         None \<Rightarrow> Some (False, s)
       | Some root \<Rightarrow> do {
           let root = root\<lparr>allocated := True, link_count := link_count root + 1,
             mode := S_IFDIR OR DEFAULT_PERMS, num_blocks := 0, file_size := 0, access_time := now,
             creation_time := now, modification_time := now, status_change_time := now\<rparr>;
           (ok, root, s) \<leftarrow> add_new_entry s root ROOT_INODE ''.'';
           if \<not> ok then Some (False, s)
           else do {
             (ok, root, s) \<leftarrow> add_new_entry s root ROOT_INODE ''..'';
             if \<not> ok then Some (False, s)
             else do {
               (ok, s) \<leftarrow> write_inode s ROOT_INODE root;
               if \<not> ok then Some (False, s)
               else Some (True, s\<lparr>iname_cache := create_cache (iname_cache s) CACHE_SIZE\<rparr>) } } } } }"

end
