(* ===== verification/FileBlocks.thy ===== *)
theory FileBlocks
  imports InodeBlocks
begin

text \<open>
  The block map of a file. \<open>fblk bs i k\<close> is the data block that holds block \<open>k\<close> of the file
  with inode \<open>i\<close>, read through the direct numbers, the single indirect and the double
  indirect list blocks; \<open>wf_file\<close> says that these blocks and the list blocks are different
  data blocks in use. A volume has fewer data blocks than the double indirect level can list,
  so no such file reaches the triple indirect level.

  The lemmas show that \<open>fblock_num_to_dblock_num\<close> computes this map, that
  \<open>add_dblock_to_inode\<close> appends one block to it and \<open>write_dblock_to_inode\<close> replaces one.
\<close>

section \<open>The map\<close>

definition word_at :: "(int \<Rightarrow> buffer) \<Rightarrow> int \<Rightarrow> int \<Rightarrow> int" where
  "word_at bs b j = ld_s64 (bs b) (8 * j)"

definition fblk :: "(int \<Rightarrow> buffer) \<Rightarrow> iNode \<Rightarrow> int \<Rightarrow> int" where
  "fblk bs i k =
     (if k < 10 then direct_blocks i ! nat k
      else if k < 522 then word_at bs (single_indirect i) (k - 10)
      else word_at bs (word_at bs (double_indirect i) ((k - 522) div 512)) ((k - 522) mod 512))"

definition data_of :: "(int \<Rightarrow> buffer) \<Rightarrow> iNode \<Rightarrow> int list" where
  "data_of bs i = map (fblk bs i) [0..num_blocks i - 1]"

definition list_blocks :: "(int \<Rightarrow> buffer) \<Rightarrow> iNode \<Rightarrow> int list" where
  "list_blocks bs i =
     (if num_blocks i \<le> 10 then [] else [single_indirect i]) @
     (if num_blocks i \<le> 522 then []
      else double_indirect i # map (word_at bs (double_indirect i)) [0..(num_blocks i - 523) div 512])"

definition owned :: "(int \<Rightarrow> buffer) \<Rightarrow> iNode \<Rightarrow> int list" where
  "owned bs i = data_of bs i @ list_blocks bs i"

definition wf_file :: "'a bstate_scheme \<Rightarrow> iNode \<Rightarrow> bool" where
  "wf_file s i \<longleftrightarrow> 0 \<le> num_blocks i \<and> length (direct_blocks i) = 10 \<and>
     distinct (owned (blocks s) i) \<and>
     (\<forall>b \<in> set (owned (blocks s) i). data_block b \<and> b \<notin> free_set s)"

lemma in_data_of: "x \<in> set (data_of bs i) \<longleftrightarrow> (\<exists>k. 0 \<le> k \<and> k < num_blocks i \<and> x = fblk bs i k)"
  by (auto simp: data_of_def)

lemma length_data_of [simp]: "length (data_of bs i) = nat (num_blocks i)"
  by (simp add: data_of_def)

lemma nth_data_of: "0 \<le> k \<Longrightarrow> k < num_blocks i \<Longrightarrow> data_of bs i ! nat k = fblk bs i k"
  by (simp add: data_of_def)

lemma single_in_list_blocks: "10 < num_blocks i \<Longrightarrow> single_indirect i \<in> set (list_blocks bs i)"
  by (simp add: list_blocks_def)

lemma double_in_list_blocks: "522 < num_blocks i \<Longrightarrow> double_indirect i \<in> set (list_blocks bs i)"
  by (simp add: list_blocks_def)

lemma word_in_list_blocks:
  "522 < num_blocks i \<Longrightarrow> 0 \<le> q \<Longrightarrow> q \<le> (num_blocks i - 523) div 512 \<Longrightarrow>
   word_at bs (double_indirect i) q \<in> set (list_blocks bs i)"
  by (auto simp: list_blocks_def)

lemma wf_file_blocks:
  assumes "wf_file s i"
  shows "x \<in> set (data_of (blocks s) i) \<Longrightarrow> data_block x \<and> x \<notin> free_set s"
    "x \<in> set (list_blocks (blocks s) i) \<Longrightarrow> data_block x \<and> x \<notin> free_set s"
    "x \<in> set (data_of (blocks s) i) \<Longrightarrow> x \<notin> set (list_blocks (blocks s) i)"
    "distinct (data_of (blocks s) i)" "distinct (list_blocks (blocks s) i)"
  using assms by (auto simp: wf_file_def owned_def)

lemma wf_file_size: "wf_file s i \<Longrightarrow> num_blocks i \<le> 235929"
  using distinct_data_blocks [of "owned (blocks s) i"] by (simp add: wf_file_def owned_def)

lemma wf_file_fblk:
  "wf_file s i \<Longrightarrow> 0 \<le> k \<Longrightarrow> k < num_blocks i \<Longrightarrow>
   data_block (fblk (blocks s) i k) \<and> fblk (blocks s) i k \<notin> free_set s \<and>
   fblk (blocks s) i k \<notin> set (list_blocks (blocks s) i)"
  using wf_file_blocks [of s i] in_data_of [of _ "blocks s" i] by blast

lemma wf_file_inj:
  assumes "wf_file s i" "0 \<le> k" "k < num_blocks i" "0 \<le> l" "l < num_blocks i"
  shows "fblk (blocks s) i k = fblk (blocks s) i l \<longleftrightarrow> k = l"
proof -
  have "data_of (blocks s) i ! nat k = data_of (blocks s) i ! nat l \<longleftrightarrow> nat k = nat l"
    using assms wf_file_blocks(4) [OF assms(1)] by (intro nth_eq_iff_index_eq) auto
  with assms show ?thesis by (simp add: nth_data_of eq_nat_nat_iff)
qed

lemma read_dblock_healthy: "healthy s \<Longrightarrow> data_block n \<Longrightarrow> read_dblock s n = Some (blocks s n)"
  by (simp add: read_dblock_cases data_block_ok)

lemma write_dblock_healthy:
  "healthy s \<Longrightarrow> data_block n \<Longrightarrow> write_dblock s n b = (True, s\<lparr>blocks := (blocks s)(n := b)\<rparr>)"
  by (simp add: write_dblock_cases data_block_ok)

lemma data_block_pos: "data_block n \<Longrightarrow> 0 < n"
  by (simp add: data_block_def geometry)

lemma double_index:
  fixes k n :: int
  assumes "522 \<le> k" "k < n" "n \<le> 235929"
  shows "0 \<le> (k - 522) div 512" "(k - 522) div 512 \<le> (n - 523) div 512" "(k - 522) div 512 < 512"
    "0 \<le> (k - 522) mod 512" "(k - 522) mod 512 < 512"
  using assms by (auto simp: div_le_mono zdiv_mono1 pos_imp_zdiv_nonneg_iff div_less_iff_less_mult)

lemma fblock_lookup:
  assumes "healthy s" "wf_file s i" "0 \<le> k" "k < num_blocks i"
  shows "fblock_num_to_dblock_num s i k = Some (fblk (blocks s) i k)"
proof -
  have n: "num_blocks i \<le> 235929" using assms(2) by (rule wf_file_size)
  have l: "length (direct_blocks i) = 10" using assms(2) by (simp add: wf_file_def)
  note d = wf_file_blocks(2) [OF assms(2)]
  consider "k < 10" | "10 \<le> k" "k < 522" | "522 \<le> k" by linarith
  then show ?thesis
  proof cases
    case 1
    with assms l show ?thesis by (simp add: fblock_num_to_dblock_num_def fblk_def geometry)
  next
    case 2
    then have "data_block (single_indirect i)"
      using d assms single_in_list_blocks [of i] by simp
    with 2 assms show ?thesis
      using data_block_pos [of "single_indirect i"]
      by (simp add: fblock_num_to_dblock_num_def fblk_def geometry read_dblock_healthy word_at_def)
  next
    case 3
    define q where "q = (k - 522) div 512"
    define r where "r = (k - 522) mod 512"
    note qr = double_index [OF 3 assms(4) n, folded q_def r_def]
    have x: "data_block (double_indirect i)" "data_block (word_at (blocks s) (double_indirect i) q)"
      using d double_in_list_blocks [of i] word_in_list_blocks [of i q] 3 assms(4) qr by auto
    have "fblock_num_to_dblock_num s i k = Some (word_at (blocks s) (word_at (blocks s) (double_indirect i) q) r)"
      using 3 assms n x qr data_block_pos [OF x(1)] data_block_pos [OF x(2)]
      by (simp add: fblock_num_to_dblock_num_def geometry read_dblock_healthy word_at_def
          diff_diff_eq q_def [symmetric] r_def [symmetric])
    with 3 show ?thesis by (simp add: fblk_def q_def r_def)
  qed
qed

section \<open>Steps on the volume\<close>

text \<open>\<open>s'\<close> is \<open>s\<close> after writing blocks in use and allocating others.\<close>

lemma fl_inv_write_used:
  assumes "fl_inv s" "n \<notin> free_set s"
  shows "fl_inv (s\<lparr>blocks := (blocks s)(n := b)\<rparr>)"
    "free_set (s\<lparr>blocks := (blocks s)(n := b)\<rparr>) = free_set s"
proof -
  let ?bs = "(blocks s)(n := b)"
  from assms(1) obtain sb xs where s: "healthy s" "super_block s = Some sb"
    "fl_ok (blocks s) (free_list_head sb) xs" "free_set s = set (fl_blocks (blocks s) xs)"
    by (rule fl_invE)
  have "?bs x = blocks s x" if "x \<in> set (fl_blocks (blocks s) xs)" for x
    using that assms(2) s(4) by auto
  note F = fl_ok_cong [where cs = ?bs, OF s(3) this]
  then show "fl_inv (s\<lparr>blocks := ?bs\<rparr>)" using s by (auto simp: fl_inv_def)
  show "free_set (s\<lparr>blocks := ?bs\<rparr>) = free_set s"
    using free_set_eq [of "s\<lparr>blocks := ?bs\<rparr>" sb xs] F s by (auto simp: fl_ok_def)
qed

lemma word_at_store:
  assumes "in_s64 v" "0 \<le> j" "0 \<le> l"
  shows "word_at (bs(n := st_s64 (bs n) (8 * j) v)) m l = (if m = n \<and> l = j then v else word_at bs m l)"
proof -
  have "l = j \<or> 8 * j + 8 \<le> 8 * l \<or> 8 * l + 8 \<le> 8 * j" by linarith
  with assms show ?thesis by (auto simp: word_at_def ld_st_s64_same ld_st_s64_other)
qed

lemma word_at_zeroed:
  assumes "zeroed (bs n)" "0 \<le> j" "j < 512"
  shows "word_at bs n j = 0"
proof -
  have "ld_s64 (bs n) (8 * j) = ld_s64 zero_buf (8 * j)"
    using assms by (intro ld_s64_cong) (auto simp: zeroed_def geometry)
  then show ?thesis by (simp add: word_at_def)
qed

text \<open>Writing word \<open>j\<close> of a data block in use.\<close>

lemma store_word:
  assumes "fl_inv s" "data_block n" "n \<notin> free_set s" "in_s64 v" "0 \<le> j"
  obtains s' where "write_dblock s n (st_s64 (blocks s n) (8 * j) v) = (True, s')" "fl_inv s'"
    "core s' = core s" "free_set s' = free_set s" "\<And>x. x \<noteq> n \<Longrightarrow> blocks s' x = blocks s x"
    "\<And>m l. 0 \<le> l \<Longrightarrow> word_at (blocks s') m l = (if m = n \<and> l = j then v else word_at (blocks s) m l)"
proof
  let ?s = "s\<lparr>blocks := (blocks s)(n := st_s64 (blocks s n) (8 * j) v)\<rparr>"
  have "healthy s" using assms(1) by (simp add: fl_inv_def)
  with assms(2) show "write_dblock s n (st_s64 (blocks s n) (8 * j) v) = (True, ?s)"
    by (simp add: write_dblock_healthy)
  show "fl_inv ?s" "free_set ?s = free_set s" using fl_inv_write_used [OF assms(1,3)] by auto
  show "core ?s = core s" by simp
  show "blocks ?s x = blocks s x" if "x \<noteq> n" for x using that by simp
  show "word_at (blocks ?s) m l = (if m = n \<and> l = j then v else word_at (blocks s) m l)"
    if "0 \<le> l" for m l
    using word_at_store [OF assms(4,5) that, of "blocks s" n m] by simp
qed

text \<open>Allocating a block for the caller.\<close>

lemma alloc_block:
  assumes "fl_inv s" "free_set s \<noteq> {}"
  obtains n s' where "create_new_dblock s = Some (n, s')" "fl_inv s'" "core s' = core s"
    "data_block n" "n \<in> free_set s" "free_set s' = free_set s - {n}"
    "card (free_set s) = Suc (card (free_set s'))"
    "\<And>j. 0 \<le> j \<Longrightarrow> j < 512 \<Longrightarrow> word_at (blocks s') n j = 0" "zeroed (blocks s' n)"
    "\<And>b. b \<noteq> 0 \<Longrightarrow> b \<notin> free_set s \<Longrightarrow> blocks s' b = blocks s b"
proof -
  from dblocks.alloc_one [OF assms] obtain n s' where n: "create_new_dblock s = Some (n, s')" "fl_inv s'"
    "n \<in> free_set s" "free_set s' = free_set s - {n}" "zeroed (blocks s' n)"
    "\<forall>b. b \<noteq> 0 \<longrightarrow> b \<notin> free_set s \<longrightarrow> blocks s' b = blocks s b" by blast
  have "card (free_set s) = Suc (card (free_set s'))"
    using n(3,4) fl_inv_finite [OF assms(1)] by (metis card_Suc_Diff1)
  with n show thesis
    using fl_inv_data_block [OF assms(1) n(3)] create_new_dblock_core [OF n(1)] word_at_zeroed
    by (intro that [of n s']) auto
qed

section \<open>Appending a block\<close>

text \<open>The parts of an inode that the block map does not use.\<close>

definition inode_rest :: "iNode \<Rightarrow> iNode" where
  "inode_rest i = i\<lparr>direct_blocks := [], single_indirect := 0, double_indirect := 0,
     triple_indirect := 0, num_blocks := 0\<rparr>"

text \<open>
  An inode that has grown: the old one, where it was copied, still describes the first blocks.
\<close>

definition extends :: "iNode \<Rightarrow> iNode \<Rightarrow> bool" where
  "extends i i' \<longleftrightarrow> 0 \<le> num_blocks i \<and> num_blocks i \<le> num_blocks i' \<and> length (direct_blocks i) = 10 \<and>
     (\<forall>k < 10. int k < num_blocks i \<longrightarrow> direct_blocks i' ! k = direct_blocks i ! k) \<and>
     (10 < num_blocks i \<longrightarrow> single_indirect i' = single_indirect i) \<and>
     (522 < num_blocks i \<longrightarrow> double_indirect i' = double_indirect i)"

lemma extends_refl: "wf_file s i \<Longrightarrow> extends i i"
  by (simp add: extends_def wf_file_def)

lemma extends_trans: "extends i j \<Longrightarrow> extends j k \<Longrightarrow> extends i k"
  by (auto simp: extends_def)

lemma extends_fblk: "extends i i' \<Longrightarrow> 0 \<le> k \<Longrightarrow> k < num_blocks i \<Longrightarrow> fblk bs i' k = fblk bs i k"
  by (auto simp: extends_def fblk_def)

lemma extends_data:
  assumes "extends i i'"
  shows "\<exists>ys. data_of bs i' = data_of bs i @ ys"
proof -
  have "[0..num_blocks i' - 1] = [0..num_blocks i - 1] @ [num_blocks i..num_blocks i' - 1]"
    using assms upto_split1 [of 0 "num_blocks i" "num_blocks i' - 1"]
    by (cases "num_blocks i = num_blocks i'") (auto simp: extends_def)
  moreover have "map (fblk bs i') [0..num_blocks i - 1] = map (fblk bs i) [0..num_blocks i - 1]"
    using extends_fblk [OF assms] by (intro map_cong) auto
  ultimately show ?thesis by (simp add: data_of_def)
qed

lemma extends_lists:
  assumes "extends i i'"
  shows "\<exists>ys. list_blocks bs i' = list_blocks bs i @ ys"
proof (cases "522 < num_blocks i")
  case False
  then show ?thesis using assms by (auto simp: list_blocks_def extends_def)
next
  case True
  define a where "a = (num_blocks i - 523) div 512"
  define b where "b = (num_blocks i' - 523) div 512"
  have ab: "0 \<le> a" "a \<le> b"
    using True assms by (auto simp: a_def b_def zdiv_mono1 pos_imp_zdiv_nonneg_iff extends_def)
  have "[0..b] = [0..a] @ [a + 1..b]" using ab by (intro upto_split2) auto
  with True assms show ?thesis by (auto simp: list_blocks_def extends_def a_def b_def)
qed

lemma extends_wf:
  assumes "extends i i'" "wf_file s i'"
  shows "wf_file s i"
proof -
  obtain ys zs where "data_of (blocks s) i' = data_of (blocks s) i @ ys"
    "list_blocks (blocks s) i' = list_blocks (blocks s) i @ zs"
    using extends_data [OF assms(1)] extends_lists [OF assms(1)] by blast
  then show ?thesis using assms by (auto simp: wf_file_def owned_def extends_def)
qed

text \<open>
  \<open>d\<close> is the new last block of the file; list blocks the append needed came from the free
  blocks, and the blocks in use kept their contents, but for the file's list blocks.
\<close>

definition appended :: "'a bstate_scheme \<Rightarrow> iNode \<Rightarrow> int \<Rightarrow> iNode \<Rightarrow> 'a bstate_scheme \<Rightarrow> bool" where
  "appended s i d i' s' \<longleftrightarrow>
     fl_inv s' \<and> core s' = core s \<and> wf_file s' i' \<and> inode_rest i' = inode_rest i \<and>
     (wf_inode i \<longrightarrow> wf_inode i') \<and> num_blocks i' = num_blocks i + 1 \<and>
     data_of (blocks s') i' = data_of (blocks s) i @ [d] \<and>
     extends i i' \<and>
     set (list_blocks (blocks s) i) \<subseteq> set (list_blocks (blocks s') i') \<and>
     set (list_blocks (blocks s') i') \<subseteq> set (list_blocks (blocks s) i) \<union> free_set s \<and>
     free_set s' = free_set s - set (list_blocks (blocks s') i') \<and>
     card (free_set s) \<le> card (free_set s') + 2 \<and>
     (\<forall>b. b \<noteq> 0 \<longrightarrow> b \<notin> free_set s \<longrightarrow> b \<notin> set (list_blocks (blocks s) i) \<longrightarrow> blocks s' b = blocks s b)"

text \<open>The append failed for want of list blocks; a list block may be lost to it.\<close>

definition append_refused :: "'a bstate_scheme \<Rightarrow> 'a bstate_scheme \<Rightarrow> bool" where
  "append_refused s s' \<longleftrightarrow>
     fl_inv s' \<and> core s' = core s \<and> free_set s' \<subseteq> free_set s \<and> card (free_set s) < 2 \<and>
     (\<forall>b. b \<noteq> 0 \<longrightarrow> b \<notin> free_set s \<longrightarrow> blocks s' b = blocks s b)"

lemma data_of_Suc:
  assumes "0 \<le> num_blocks i" "num_blocks i' = num_blocks i + 1"
    "\<And>k. 0 \<le> k \<Longrightarrow> k < num_blocks i \<Longrightarrow> fblk bs' i' k = fblk bs i k"
  shows "data_of bs' i' = data_of bs i @ [fblk bs' i' (num_blocks i)]"
proof -
  have "[0..num_blocks i] = [0..num_blocks i - 1] @ [num_blocks i]"
    using assms(1) by (simp add: upto_rec2)
  with assms show ?thesis by (simp add: data_of_def)
qed

lemma wf_file_append:
  assumes "wf_file s i" "d \<notin> free_set s" "data_block d" "d \<notin> set (owned (blocks s) i)"
    "length (direct_blocks i') = 10" "num_blocks i' = num_blocks i + 1"
    "data_of (blocks s') i' = data_of (blocks s) i @ [d]"
    "list_blocks (blocks s') i' = list_blocks (blocks s) i @ new"
    "set new \<subseteq> free_set s" "distinct new" "\<And>b. b \<in> set new \<Longrightarrow> data_block b"
    "free_set s' = free_set s - set new"
  shows "wf_file s' i'"
  using assms by (auto simp: wf_file_def owned_def)

lemma wf_inode_words:
  assumes "wf_inode i" "list_all in_s64 ds" "length ds = 10" "in_s64 x" "in_s64 y" "in_s64 n"
  shows "wf_inode (i\<lparr>direct_blocks := ds, single_indirect := x, double_indirect := y, num_blocks := n\<rparr>)"
  using assms by (simp add: wf_inode_def)

lemma appendedI:
  assumes "fl_inv s" "wf_file s i" "d \<notin> free_set s" "data_block d" "d \<notin> set (owned (blocks s) i)"
    and "fl_inv s'" "core s' = core s"
    and i': "i' = i\<lparr>direct_blocks := ds, single_indirect := x, double_indirect := y,
      num_blocks := num_blocks i + 1\<rparr>"
    and "length ds = 10" "list_all in_s64 (direct_blocks i) \<Longrightarrow> list_all in_s64 ds"
    and "in_s64 (single_indirect i) \<Longrightarrow> in_s64 x" "in_s64 (double_indirect i) \<Longrightarrow> in_s64 y"
    and data: "data_of (blocks s') i' = data_of (blocks s) i @ [d]"
    and lists: "list_blocks (blocks s') i' = list_blocks (blocks s) i @ new"
    and new: "set new \<subseteq> free_set s" "distinct new" "length new \<le> 2"
    and free: "free_set s' = free_set s - set new"
    and "\<And>b. b \<noteq> 0 \<Longrightarrow> b \<notin> free_set s \<Longrightarrow> b \<notin> set (list_blocks (blocks s) i) \<Longrightarrow> blocks s' b = blocks s b"
    and old: "\<And>k. k < nat (num_blocks i) \<Longrightarrow> k < 10 \<Longrightarrow> ds ! k = direct_blocks i ! k"
      "10 < num_blocks i \<Longrightarrow> x = single_indirect i" "522 < num_blocks i \<Longrightarrow> y = double_indirect i"
  shows "appended s i d i' s'"
proof -
  have fin: "finite (free_set s)" using assms(1) by (rule fl_inv_finite)
  have wf: "wf_file s' i'"
    by (rule wf_file_append [OF assms(2-5) _ _ data lists new(1,2) _ free])
      (use assms(9) new(1) fl_inv_data_block [OF assms(1)] in \<open>auto simp: i'\<close>)
  have "card (set new) \<le> 2" using new(3) card_length [of new] by linarith
  then have card: "card (free_set s) \<le> card (free_set s') + 2"
    unfolding free using fin new(1) by (simp add: card_Diff_subset card_mono)
  have "num_blocks i + 1 \<le> 235929" "0 \<le> num_blocks i"
    using wf_file_size [OF wf] assms(2) by (auto simp: i' wf_file_def)
  then have "in_s64 (num_blocks i + 1)" by (simp add: in_s64_def)
  then have "wf_inode i \<longrightarrow> wf_inode i'"
    using assms(9-12) unfolding i' by (auto simp: wf_inode_def)
  moreover have "set (list_blocks (blocks s) i) \<inter> free_set s = {}"
    using wf_file_blocks(2) [OF assms(2)] by blast
  moreover have "inode_rest i' = inode_rest i" by (simp add: inode_rest_def i')
  moreover have ext: "extends i i'" using assms(2) old by (auto simp: extends_def wf_file_def i')
  ultimately show ?thesis
    unfolding appended_def
    using assms(6,7) wf card data lists new(1) free assms(19) ext
    by (auto simp: i')
qed

text \<open>The three ranges.\<close>

lemma append_direct:
  assumes "fl_inv s" "wf_file s i" "d \<notin> free_set s" "data_block d" "d \<notin> set (owned (blocks s) i)"
    and "num_blocks i < 10"
  shows "\<exists>i'. add_dblock_to_inode s i d = Some (True, i', s) \<and> appended s i d i' s"
proof -
  let ?n = "num_blocks i"
  let ?ds = "(direct_blocks i)[nat ?n := d]"
  let ?i = "i\<lparr>direct_blocks := ?ds, num_blocks := ?n + 1\<rparr>"
  have n: "0 \<le> ?n" "length (direct_blocks i) = 10" using assms(2) by (auto simp: wf_file_def)
  have run: "add_dblock_to_inode s i d = Some (True, ?i, s)"
    using assms(6) n by (simp add: add_dblock_to_inode_def Let_def geometry)
  have eq: "fblk (blocks s) ?i k = fblk (blocks s) i k" if "0 \<le> k" "k < ?n" for k
    using that assms(6) by (simp add: fblk_def)
  have "fblk (blocks s) ?i ?n = d" using n assms(6) by (simp add: fblk_def)
  then have data: "data_of (blocks s) ?i = data_of (blocks s) i @ [d]"
    using data_of_Suc [of i ?i "blocks s" "blocks s"] n eq by simp
  have lists: "list_blocks (blocks s) ?i = list_blocks (blocks s) i @ []"
    using assms(6) by (simp add: list_blocks_def)
  have ds: "list_all in_s64 ?ds" if "list_all in_s64 (direct_blocks i)"
    using that data_block_in_s64 [OF assms(4)] set_update_subset_insert [of "direct_blocks i" "nat ?n" d]
    by (auto simp: list_all_iff)
  have "appended s i d ?i s"
    by (rule appendedI [OF assms(1-5) assms(1) refl _ _ ds _ _ data lists]) (use n in auto)
  with run show ?thesis by blast
qed

text \<open>A list block the append works on: allocated in this step (\<open>new\<close>) or there already.\<close>

lemma single_words:
  assumes "10 \<le> num_blocks i" "num_blocks i < 522" "length (direct_blocks i) = 10"
    and i': "i' = i\<lparr>direct_blocks := direct_blocks i, single_indirect := m,
      double_indirect := double_indirect i, num_blocks := num_blocks i + 1\<rparr>"
    and old: "10 < num_blocks i \<Longrightarrow> m = single_indirect i"
    and words: "\<And>j. 0 \<le> j \<Longrightarrow> j < num_blocks i - 10 \<Longrightarrow> word_at bs' m j = word_at bs m j"
    and last: "word_at bs' m (num_blocks i - 10) = d"
  shows "data_of bs' i' = data_of bs i @ [d]"
    "list_blocks bs' i' = list_blocks bs i @ (if num_blocks i = 10 then [m] else [])"
proof -
  have "fblk bs' i' k = fblk bs i k" if "0 \<le> k" "k < num_blocks i" for k
    using that assms(2) old words [of "k - 10"] by (simp add: i' fblk_def)
  moreover have "fblk bs' i' (num_blocks i) = d" using assms(1,2) last by (simp add: i' fblk_def)
  ultimately show "data_of bs' i' = data_of bs i @ [d]"
    using data_of_Suc [of i i' bs' bs] assms(1) i' by simp
  show "list_blocks bs' i' = list_blocks bs i @ (if num_blocks i = 10 then [m] else [])"
    using assms(1,2) old by (auto simp: list_blocks_def i')
qed

lemma append_single:
  assumes "fl_inv s" "wf_file s i" "d \<notin> free_set s" "data_block d" "d \<notin> set (owned (blocks s) i)"
    and n: "10 \<le> num_blocks i" "num_blocks i < 522"
  shows "(\<exists>i' s'. add_dblock_to_inode s i d = Some (True, i', s') \<and> appended s i d i' s') \<or>
    (\<exists>i' s'. add_dblock_to_inode s i d = Some (False, i', s') \<and> append_refused s s')"
proof (cases "num_blocks i = 10 \<and> free_set s = {}")
  case True
  then have "add_dblock_to_inode s i d = Some (False, i, s)"
    using dblocks.alloc_full [OF assms(1)]
    by (simp add: add_dblock_to_inode_def Let_def add_single_def geometry)
  moreover have "append_refused s s" using assms(1) True by (simp add: append_refused_def)
  ultimately show ?thesis by blast
next
  case False
  have l: "length (direct_blocks i) = 10" using assms(2) by (simp add: wf_file_def)
  let ?n = "num_blocks i"
  obtain m t where t: "add_single s i ?n d = do {
       single_buff \<leftarrow> read_dblock t m;
       single_buff \<leftarrow> word_set single_buff (?n - 10) d;
       let (ok, s) = write_dblock t m single_buff;
       Some (ok, i\<lparr>single_indirect := m\<rparr>, s) }"
    and m: "data_block m" "m \<notin> free_set t" "fl_inv t" "core t = core s"
      "free_set t = free_set s - (if ?n = 10 then {m} else {})"
      "if ?n = 10 then m \<in> free_set s else m = single_indirect i"
      "\<And>b. b \<noteq> 0 \<Longrightarrow> b \<notin> free_set s \<Longrightarrow> blocks t b = blocks s b"
  proof (cases "?n = 10")
    case True
    with False have "free_set s \<noteq> {}" by simp
    from alloc_block [OF assms(1) this] obtain m t where mt: "create_new_dblock s = Some (m, t)"
      "fl_inv t" "core t = core s" "data_block m" "m \<in> free_set s" "free_set t = free_set s - {m}"
      "\<And>b. b \<noteq> 0 \<Longrightarrow> b \<notin> free_set s \<Longrightarrow> blocks t b = blocks s b" by metis
    show thesis
      by (rule that [of t m])
        (use True mt data_block_pos [OF mt(4)] in \<open>auto simp: add_single_def geometry\<close>)
  next
    case F: False
    then have "single_indirect i \<in> set (list_blocks (blocks s) i)"
      using n by (simp add: single_in_list_blocks)
    with wf_file_blocks(2) [OF assms(2)] F assms(1) show thesis
      by (intro that [of s "single_indirect i"]) (auto simp: add_single_def geometry)
  qed
  obtain s' where s': "write_dblock t m (st_s64 (blocks t m) (8 * (?n - 10)) d) = (True, s')"
    "fl_inv s'" "core s' = core t" "free_set s' = free_set t" "\<And>x. x \<noteq> m \<Longrightarrow> blocks s' x = blocks t x"
    "\<And>b l. 0 \<le> l \<Longrightarrow> word_at (blocks s') b l = (if b = m \<and> l = ?n - 10 then d else word_at (blocks t) b l)"
    using store_word [OF m(3,1,2) data_block_in_s64 [OF assms(4)], of "?n - 10"] n(1) by auto
  let ?i = "i\<lparr>direct_blocks := direct_blocks i, single_indirect := m,
      double_indirect := double_indirect i, num_blocks := ?n + 1\<rparr>"
  have "healthy t" using m(3) by (simp add: fl_inv_def)
  then have run: "add_dblock_to_inode s i d = Some (True, ?i, s')"
    using t s'(1) n m(1) by (simp add: add_dblock_to_inode_def Let_def geometry read_dblock_healthy)
  have same: "word_at (blocks t) m j = word_at (blocks s) m j" if "?n \<noteq> 10" for j
    using m(6,7) that wf_file_blocks(2) [OF assms(2)] single_in_list_blocks [of i] n data_block_nonzero [OF m(1)]
    by (simp add: word_at_def)
  have w: "word_at (blocks s') m j = word_at (blocks s) m j" if "0 \<le> j" "j < ?n - 10" for j
    using that s'(6) [of j m] same by simp
  note SW = single_words [OF n l refl _ w, where d = d]
  have data: "data_of (blocks s') ?i = data_of (blocks s) i @ [d]"
    and lists: "list_blocks (blocks s') ?i = list_blocks (blocks s) i @ (if ?n = 10 then [m] else [])"
    using SW m(6) s'(6) [of "?n - 10" m] n(1) by simp_all
  have "appended s i d ?i s'"
  proof (rule appendedI [OF assms(1-5) s'(2) _ refl l _ _ _ data lists])
    show "in_s64 m" using m(1) by (rule data_block_in_s64)
    show "blocks s' b = blocks s b"
      if "b \<noteq> 0" "b \<notin> free_set s" "b \<notin> set (list_blocks (blocks s) i)" for b
      using that s'(5) m(6,7) n single_in_list_blocks [of i] by (cases "b = m") (auto split: if_splits)
  qed (use s' m in auto)
  with run show ?thesis by blast
qed

lemma add_below_refused:
  assumes "fl_inv t" "data_block D" "free_set t = {}" "j = 0"
  shows "add_below t D q j d = Some (False, t)"
  using assms dblocks.alloc_full [OF assms(1,3)]
  by (simp add: add_below_def fl_inv_def read_dblock_healthy)

lemma add_below_ok:
  assumes "fl_inv t" "data_block D" "D \<notin> free_set t" "0 \<le> q" "q < 512" "0 \<le> r" "r < 512" "in_s64 d"
    and old: "r \<noteq> 0 \<Longrightarrow> data_block (word_at (blocks t) D q) \<and> word_at (blocks t) D q \<notin> free_set t \<and>
      word_at (blocks t) D q \<noteq> D"
    and new: "r = 0 \<Longrightarrow> free_set t \<noteq> {}"
  obtains S s' where "add_below t D q r d = Some (True, s')" "fl_inv s'" "core s' = core t"
    "data_block S" "S \<noteq> D" "if r = 0 then S \<in> free_set t else S = word_at (blocks t) D q"
    "free_set s' = free_set t - (if r = 0 then {S} else {})"
    "\<And>b. b \<noteq> 0 \<Longrightarrow> b \<notin> free_set t \<Longrightarrow> b \<noteq> D \<Longrightarrow> b \<noteq> S \<Longrightarrow> blocks s' b = blocks t b"
    "\<And>j. 0 \<le> j \<Longrightarrow> word_at (blocks s') D j = (if j = q then S else word_at (blocks t) D j)"
    "word_at (blocks s') S r = d"
    "\<And>j. 0 \<le> j \<Longrightarrow> j \<noteq> r \<Longrightarrow> r \<noteq> 0 \<Longrightarrow> word_at (blocks s') S j = word_at (blocks t) S j"
proof (cases "r = 0")
  case False
  let ?S = "word_at (blocks t) D q"
  have o: "data_block ?S" "?S \<notin> free_set t" using old [OF False] by auto
  obtain s' where s': "write_dblock t ?S (st_s64 (blocks t ?S) (8 * r) d) = (True, s')"
    "fl_inv s'" "core s' = core t" "free_set s' = free_set t" "\<And>x. x \<noteq> ?S \<Longrightarrow> blocks s' x = blocks t x"
    "\<And>b l. 0 \<le> l \<Longrightarrow> word_at (blocks s') b l = (if b = ?S \<and> l = r then d else word_at (blocks t) b l)"
    using store_word [OF assms(1) o assms(8,6)] by blast
  have h: "healthy t" using assms(1) by (simp add: fl_inv_def)
  have "add_below t D q r d = Some (True, s')"
    using False s'(1) h assms(2,4-7) old [OF False] data_block_pos [of ?S]
    by (simp add: add_below_def read_dblock_healthy word_at_def)
  then show thesis
    by (rule that [of s' ?S]) (use s' old [OF False] False assms(4,6) in auto)
next
  case True
  from alloc_block [OF assms(1) new [OF True]] obtain S u where S: "create_new_dblock t = Some (S, u)"
    "fl_inv u" "core u = core t" "data_block S" "S \<in> free_set t" "free_set u = free_set t - {S}"
    "\<And>b. b \<noteq> 0 \<Longrightarrow> b \<notin> free_set t \<Longrightarrow> blocks u b = blocks t b" by metis
  have SD: "S \<noteq> D" "D \<noteq> 0" "0 < S" "0 < D" using S(4,5) assms(2,3) data_block_pos by auto
  then have Du: "blocks u D = blocks t D" using S(7) assms(3) by simp
  obtain v where v: "write_dblock u D (st_s64 (blocks t D) (8 * q) S) = (True, v)"
    "fl_inv v" "core v = core u" "free_set v = free_set u" "\<And>x. x \<noteq> D \<Longrightarrow> blocks v x = blocks u x"
    "\<And>b l. 0 \<le> l \<Longrightarrow> word_at (blocks v) b l = (if b = D \<and> l = q then S else word_at (blocks u) b l)"
    using store_word [OF S(2) assms(2) _ data_block_in_s64 [OF S(4)] assms(4)] S(6) assms(3) Du by auto
  obtain s' where s': "write_dblock v S (st_s64 (blocks v S) 0 d) = (True, s')"
    "fl_inv s'" "core s' = core v" "free_set s' = free_set v" "\<And>x. x \<noteq> S \<Longrightarrow> blocks s' x = blocks v x"
    "\<And>b l. 0 \<le> l \<Longrightarrow> word_at (blocks s') b l = (if b = S \<and> l = 0 then d else word_at (blocks v) b l)"
    using store_word [OF v(2) S(4) _ assms(8), of 0] v(4) S(6) by auto
  have h: "healthy t" "healthy v" using assms(1) v(2) by (auto simp: fl_inv_def)
  have "ld_s64 (st_s64 (blocks t D) (8 * q) S) (8 * q) = S"
    using S(4) by (simp add: ld_st_s64_same data_block_in_s64)
  then have "add_below t D q r d = Some (True, s')"
    using True S(1,4) v(1) s'(1) h assms(2,4,5) SD by (simp add: add_below_def read_dblock_healthy)
  then show thesis
  proof (rule that [of s' S])
    show "word_at (blocks s') D j = (if j = q then S else word_at (blocks t) D j)" if "0 \<le> j" for j
      using that s'(6) v(6) SD(1) Du by (simp add: word_at_def)
  qed (use s' v S SD True assms(3) in auto)
qed

lemma double_words:
  fixes i defines "n \<equiv> num_blocks i"
  defines "q \<equiv> (n - 522) div 512" and "r \<equiv> (n - 522) mod 512"
  assumes "522 \<le> n"
    and i': "i' = i\<lparr>direct_blocks := direct_blocks i, single_indirect := single_indirect i,
      double_indirect := D, num_blocks := n + 1\<rparr>"
    and old: "522 < n \<Longrightarrow> D = double_indirect i"
    and single: "\<And>j. 0 \<le> j \<Longrightarrow> j < 512 \<Longrightarrow> word_at bs' (single_indirect i) j = word_at bs (single_indirect i) j"
    and D: "\<And>p. 0 \<le> p \<Longrightarrow> p < q \<or> p = q \<and> r \<noteq> 0 \<Longrightarrow> word_at bs' D p = word_at bs D p"
    and S: "word_at bs' D q = S" and last: "word_at bs' S r = d"
    and below: "\<And>p j. 0 \<le> p \<Longrightarrow> p < q \<Longrightarrow> 0 \<le> j \<Longrightarrow> j < 512 \<Longrightarrow>
      word_at bs' (word_at bs D p) j = word_at bs (word_at bs D p) j"
    and here: "\<And>j. 0 \<le> j \<Longrightarrow> j < r \<Longrightarrow> word_at bs' S j = word_at bs S j"
  shows "data_of bs' i' = data_of bs i @ [d]"
    "list_blocks bs' i' = list_blocks bs i @ (if n = 522 then [D, S] else if r = 0 then [S] else [])"
proof -
  have nqr: "n - 522 = 512 * q + r" "0 \<le> r" "r < 512" "0 \<le> q"
    using assms(4) by (auto simp: q_def r_def pos_imp_zdiv_nonneg_iff)
  have "fblk bs' i' k = fblk bs i k" if k: "0 \<le> k" "k < n" for k
  proof (cases "k < 522")
    case True
    with k single [of "k - 10"] show ?thesis by (auto simp: fblk_def i')
  next
    case False
    define p where "p = (k - 522) div 512"
    define j where "j = (k - 522) mod 512"
    have pj: "k - 522 = 512 * p + j" "0 \<le> j" "j < 512" "0 \<le> p"
      using False by (auto simp: p_def j_def pos_imp_zdiv_nonneg_iff)
    have pq: "p < q \<or> p = q \<and> j < r" using pj nqr k by auto
    have "word_at bs' (word_at bs' D p) j = word_at bs (word_at bs D p) j"
    proof (cases "p < q")
      case True
      with D [of p] below [of p j] pj show ?thesis by simp
    next
      case F: False
      with pq pj D [of p] here [of j] S show ?thesis by auto
    qed
    with False k old show ?thesis by (simp add: fblk_def i' p_def j_def)
  qed
  moreover have "fblk bs' i' n = d" using assms(4) S last by (simp add: fblk_def i' q_def r_def)
  ultimately show "data_of bs' i' = data_of bs i @ [d]"
    using data_of_Suc [of i i' bs' bs] assms(4) i' by (simp add: n_def)
  have up: "[0..q] = [0..q - 1] @ [q]" using nqr(4) by (simp add: upto_rec2)
  show "list_blocks bs' i' = list_blocks bs i @ (if n = 522 then [D, S] else if r = 0 then [S] else [])"
  proof (cases "n = 522")
    case True
    then have "q = 0" by (simp add: q_def)
    with True S show ?thesis by (simp add: list_blocks_def i' n_def [symmetric])
  next
    case False
    then have n: "522 < n" using assms(4) by simp
    have "(n - 523) div 512 = (if r = 0 then q - 1 else q)"
    proof -
      have "n - 523 = (r - 1) + q * 512" using nqr(1) by simp
      then have "(n - 523) div 512 = q + (r - 1) div 512" by (simp only: div_mult_self1)
      moreover have "(r - 1) div 512 = (if r = 0 then -1 else 0)" using nqr by auto
      ultimately show ?thesis by simp
    qed
    moreover have "map (word_at bs' D) [0..q - 1] = map (word_at bs D) [0..q - 1]"
      using D by (intro map_cong refl) auto
    moreover have "(n + 1 - 523) div 512 = q" by (simp add: q_def)
    ultimately show ?thesis using n S old D [of q] nqr(4) up
      by (simp add: list_blocks_def i' n_def [symmetric])
  qed
qed

lemma list_blocks_distinct:
  assumes "wf_file s i" "522 < num_blocks i"
  defines "W \<equiv> word_at (blocks s) (double_indirect i)" and "hi \<equiv> (num_blocks i - 523) div 512"
  shows "single_indirect i \<noteq> double_indirect i"
    "\<And>p. 0 \<le> p \<Longrightarrow> p \<le> hi \<Longrightarrow> W p \<noteq> single_indirect i \<and> W p \<noteq> double_indirect i"
    "\<And>p p'. 0 \<le> p \<Longrightarrow> p \<le> hi \<Longrightarrow> 0 \<le> p' \<Longrightarrow> p' \<le> hi \<Longrightarrow> W p = W p' \<Longrightarrow> p = p'"
proof -
  have d: "distinct (single_indirect i # double_indirect i # map W [0..hi])"
    using wf_file_blocks(5) [OF assms(1)] assms(2) by (simp add: list_blocks_def W_def hi_def)
  then show "single_indirect i \<noteq> double_indirect i" by simp
  have in_W: "W p \<in> set (map W [0..hi])" if "0 \<le> p" "p \<le> hi" for p using that by simp
  show "W p \<noteq> single_indirect i \<and> W p \<noteq> double_indirect i" if "0 \<le> p" "p \<le> hi" for p
    using d in_W [OF that] by (metis distinct.simps(2) list.set_intros(2))
  show "p = p'" if "0 \<le> p" "p \<le> hi" "0 \<le> p'" "p' \<le> hi" "W p = W p'" for p p'
    using d that by (simp add: distinct_map inj_on_def)
qed

text \<open>The double indirect block the append works on.\<close>

lemma double_stage:
  assumes "fl_inv s" "wf_file s i" "522 \<le> num_blocks i" "num_blocks i \<noteq> 522 \<or> free_set s \<noteq> {}"
  obtains D t where "add_double s i (num_blocks i) d = do {
       (ok, s) \<leftarrow> add_below t D ((num_blocks i - 522) div 512) ((num_blocks i - 522) mod 512) d;
       Some (ok, i\<lparr>double_indirect := D\<rparr>, s) }"
    "data_block D" "D \<notin> free_set t" "fl_inv t" "core t = core s"
    "free_set t = free_set s - (if num_blocks i = 522 then {D} else {})"
    "if num_blocks i = 522 then D \<in> free_set s else D = double_indirect i"
    "\<And>b. b \<noteq> 0 \<Longrightarrow> b \<notin> free_set s \<Longrightarrow> blocks t b = blocks s b"
proof (cases "num_blocks i = 522")
  case True
  with assms(4) have "free_set s \<noteq> {}" by simp
  from alloc_block [OF assms(1) this] obtain D t where Dt: "create_new_dblock s = Some (D, t)"
    "fl_inv t" "core t = core s" "data_block D" "D \<in> free_set s" "free_set t = free_set s - {D}"
    "\<And>b. b \<noteq> 0 \<Longrightarrow> b \<notin> free_set s \<Longrightarrow> blocks t b = blocks s b" by metis
  show thesis
    by (rule that [of t D])
      (use True Dt data_block_pos [OF Dt(4)] in \<open>auto simp: add_double_def Let_def geometry diff_diff_eq\<close>)
next
  case F: False
  then have "double_indirect i \<in> set (list_blocks (blocks s) i)"
    using assms(3) by (simp add: double_in_list_blocks)
  with wf_file_blocks(2) [OF assms(2)] F assms(1) show thesis
    by (intro that [of s "double_indirect i"]) (auto simp: add_double_def Let_def geometry diff_diff_eq)
qed

lemma append_double:
  assumes "fl_inv s" "wf_file s i" "d \<notin> free_set s" "data_block d" "d \<notin> set (owned (blocks s) i)"
    and n: "522 \<le> num_blocks i" "num_blocks i < 235929"
  shows "(\<exists>i' s'. add_dblock_to_inode s i d = Some (True, i', s') \<and> appended s i d i' s') \<or>
    (\<exists>i' s'. add_dblock_to_inode s i d = Some (False, i', s') \<and> append_refused s s')"
proof (cases "num_blocks i = 522 \<and> free_set s = {}")
  case True
  then have "add_dblock_to_inode s i d = Some (False, i, s)"
    using dblocks.alloc_full [OF assms(1)]
    by (simp add: add_dblock_to_inode_def add_double_def geometry)
  moreover have "append_refused s s" using assms(1) True by (simp add: append_refused_def)
  ultimately show ?thesis by blast
next
  case room: False
  define q where "q = (num_blocks i - 522) div 512"
  define r where "r = (num_blocks i - 522) mod 512"
  define hi where "hi = (num_blocks i - 523) div 512"
  have nqr: "num_blocks i - 522 = 512 * q + r" "0 \<le> q" "q < 512" "0 \<le> r" "r < 512"
    using n by (auto simp: q_def r_def pos_imp_zdiv_nonneg_iff)
  have hi: "hi = (if r = 0 then q - 1 else q)" if "num_blocks i \<noteq> 522"
    using nqr n by (auto simp: hi_def)
  note l = wf_file_blocks(2) [OF assms(2)]
  have room': "num_blocks i \<noteq> 522 \<or> free_set s \<noteq> {}" using room by blast
  obtain D t where D: "add_double s i (num_blocks i) d = do {
       (ok, s) \<leftarrow> add_below t D q r d; Some (ok, i\<lparr>double_indirect := D\<rparr>, s) }"
    "data_block D" "D \<notin> free_set t" "fl_inv t" "core t = core s"
    "free_set t = free_set s - (if num_blocks i = 522 then {D} else {})"
    "if num_blocks i = 522 then D \<in> free_set s else D = double_indirect i"
    "\<And>b. b \<noteq> 0 \<Longrightarrow> b \<notin> free_set s \<Longrightarrow> blocks t b = blocks s b"
    by (rule double_stage [OF assms(1,2) n(1) room', where d = d, folded q_def r_def])
      (rule that; assumption)
  have run: "add_dblock_to_inode s i d = do {
      (ok, u) \<leftarrow> add_below t D q r d;
      if \<not> ok then Some (False, i\<lparr>double_indirect := D\<rparr>, u)
      else Some (True, i\<lparr>double_indirect := D, num_blocks := num_blocks i + 1\<rparr>, u) }"
    using n D(1) by (cases "add_below t D q r d") (auto simp: add_dblock_to_inode_def geometry)
  have Wt: "word_at (blocks t) D p = word_at (blocks s) D p" if "num_blocks i \<noteq> 522" for p
    using that D(7,8) l double_in_list_blocks [of i] n data_block_nonzero [OF D(2)]
    by (simp add: word_at_def)
  have W: "word_at (blocks s) (double_indirect i) p \<in> set (list_blocks (blocks s) i)"
    if "num_blocks i \<noteq> 522" "0 \<le> p" "p \<le> hi" for p
    using that n word_in_list_blocks [of i p] by (simp add: hi_def)
  show ?thesis
  proof (cases "r = 0 \<and> free_set t = {}")
    case True
    then have "add_dblock_to_inode s i d = Some (False, i\<lparr>double_indirect := D\<rparr>, t)"
      using add_below_refused [OF D(4,2)] by (simp add: run)
    moreover have "append_refused s t"
    proof -
      have "free_set s \<subseteq> {D}" using D(6) True by (auto split: if_splits)
      then have "card (free_set s) < 2" using card_mono [of "{D}" "free_set s"] by simp
      with D(4,5,6,8) show ?thesis by (auto simp: append_refused_def)
    qed
    ultimately show ?thesis by blast
  next
    case False
    have old: "data_block (word_at (blocks t) D q) \<and> word_at (blocks t) D q \<notin> free_set t \<and>
        word_at (blocks t) D q \<noteq> D" if "r \<noteq> 0"
    proof -
      have n': "num_blocks i \<noteq> 522" using that nqr by auto
      then have q: "q \<le> hi" using that by (simp add: hi)
      show ?thesis
        using W [OF n' nqr(2) q] l Wt [OF n'] D(6,7) n n' nqr(2) q
          list_blocks_distinct(2) [OF assms(2), of q] by (simp add: hi_def)
    qed
    obtain S s' where S: "add_below t D q r d = Some (True, s')" "fl_inv s'" "core s' = core t"
      "data_block S" "S \<noteq> D" "if r = 0 then S \<in> free_set t else S = word_at (blocks t) D q"
      "free_set s' = free_set t - (if r = 0 then {S} else {})"
      "\<And>b. b \<noteq> 0 \<Longrightarrow> b \<notin> free_set t \<Longrightarrow> b \<noteq> D \<Longrightarrow> b \<noteq> S \<Longrightarrow> blocks s' b = blocks t b"
      "\<And>j. 0 \<le> j \<Longrightarrow> word_at (blocks s') D j = (if j = q then S else word_at (blocks t) D j)"
      "word_at (blocks s') S r = d"
      "\<And>j. 0 \<le> j \<Longrightarrow> j \<noteq> r \<Longrightarrow> r \<noteq> 0 \<Longrightarrow> word_at (blocks s') S j = word_at (blocks t) S j"
      by (rule add_below_ok [OF D(4,2,3) nqr(2-5) data_block_in_s64 [OF assms(4)] old]) (use False in auto)
    let ?i = "i\<lparr>direct_blocks := direct_blocks i, single_indirect := single_indirect i,
      double_indirect := D, num_blocks := num_blocks i + 1\<rparr>"
    let ?new = "if num_blocks i = 522 then [D, S] else if r = 0 then [S] else []"
    have S_old: "S \<in> set (list_blocks (blocks s) i) \<and> S = word_at (blocks s) (double_indirect i) q"
      if "r \<noteq> 0"
    proof -
      have n': "num_blocks i \<noteq> 522" using that nqr by auto
      with that W [OF n' nqr(2)] S(6) Wt [OF n'] D(7) show ?thesis by (simp add: hi)
    qed
    have S_new: "S \<in> free_set s" if "r = 0" using that S(6) D(6) by (auto split: if_splits)
    have F: "word_at (blocks s') x j = word_at (blocks s) x j"
      if "x \<in> set (list_blocks (blocks s) i)" "x \<noteq> D" "x \<noteq> S" for x j
    proof -
      have "x \<noteq> 0" "x \<notin> free_set s" "x \<notin> free_set t"
        using l [OF that(1)] data_block_nonzero D(6) by auto
      with that S(8) D(8) show ?thesis by (simp add: word_at_def)
    qed
    have single: "single_indirect i \<in> set (list_blocks (blocks s) i)"
      using n by (simp add: single_in_list_blocks)
    have sD: "single_indirect i \<noteq> D" "single_indirect i \<noteq> S"
    proof -
      show "single_indirect i \<noteq> D"
        using D(7) l [OF single] list_blocks_distinct(1) [OF assms(2)] n by (auto split: if_splits)
      show "single_indirect i \<noteq> S"
      proof (cases "r = 0")
        case True
        with S_new l [OF single] show ?thesis by auto
      next
        case r: False
        then have "num_blocks i \<noteq> 522" using nqr by auto
        with r S_old list_blocks_distinct(2) [OF assms(2), of q] n nqr(2) hi show ?thesis
          by (simp add: hi_def)
      qed
    qed
    have below: "word_at (blocks s') (word_at (blocks s) D p) j = word_at (blocks s) (word_at (blocks s) D p) j"
      if p: "0 \<le> p" "p < q" for p j
    proof -
      have n': "num_blocks i \<noteq> 522" using p nqr by auto
      then have hi': "p \<le> hi" "522 < num_blocks i" and DD: "D = double_indirect i"
        using p hi n D(7) by auto
      have "word_at (blocks s) D p \<noteq> S"
      proof (cases "r = 0")
        case True
        with S_new W [OF n' p(1) hi'(1)] l DD show ?thesis by auto
      next
        case r: False
        with S_old list_blocks_distinct(3) [OF assms(2) hi'(2), of p q] p nqr(2) hi' hi [OF n'] DD
        show ?thesis by (auto simp: hi_def)
      qed
      moreover have "word_at (blocks s) D p \<noteq> D"
        using list_blocks_distinct(2) [OF assms(2) hi'(2), of p] p(1) hi'(1) DD by (simp add: hi_def)
      ultimately show ?thesis using F W [OF n' p(1) hi'(1)] DD by simp
    qed
    have here: "word_at (blocks s') S j = word_at (blocks s) S j" if "0 \<le> j" "j < r" for j
    proof -
      have "S \<in> set (list_blocks (blocks s) i)" "r \<noteq> 0" using S_old that by auto
      then have "blocks t S = blocks s S" using l D(8) data_block_nonzero [OF S(4)] by blast
      with that S(11) [of j] show ?thesis by (simp add: word_at_def)
    qed
    have Dw: "word_at (blocks s') D p = word_at (blocks s) D p"
      if "0 \<le> p" "p < q \<or> p = q \<and> r \<noteq> 0" for p
    proof -
      have "num_blocks i \<noteq> 522" using that nqr by auto
      with that S(9) [of p] S_old Wt D(7) show ?thesis by auto
    qed
    have words: "data_of (blocks s') ?i = data_of (blocks s) i @ [d]"
      "list_blocks (blocks s') ?i = list_blocks (blocks s) i @ ?new"
      using double_words [OF n(1) refl, of D "blocks s'" "blocks s" S d, folded q_def r_def]
        D(7) F [OF single sD] S(9) [OF nqr(2)] S(10) Dw below here n by auto
    have "appended s i d ?i s'"
    proof (rule appendedI [OF assms(1-5) S(2) _ refl _ _ _ _ words])
      show "blocks s' b = blocks s b"
        if "b \<noteq> 0" "b \<notin> free_set s" "b \<notin> set (list_blocks (blocks s) i)" for b
      proof -
        have "b \<noteq> D" using that D(7) double_in_list_blocks [of i] n by (auto split: if_splits)
        moreover have "b \<noteq> S" using that S_old S_new by auto
        ultimately show ?thesis using that S(8) D(6,8) by simp
      qed
      show "set ?new \<subseteq> free_set s" "free_set s' = free_set s - set ?new"
        using D(6,7) S_new S(7) nqr by (auto split: if_splits)
      show "in_s64 D" using D(2) by (rule data_block_in_s64)
      show "522 < num_blocks i \<Longrightarrow> D = double_indirect i" using D(7) by (simp split: if_splits)
    qed (use assms(2) S(3,5) D(5) in \<open>auto simp: wf_file_def\<close>)
    moreover have "add_dblock_to_inode s i d = Some (True, ?i, s')" using S(1) by (simp add: run)
    ultimately show ?thesis by blast
  qed
qed

lemma add_dblock_cases:
  assumes "fl_inv s" "wf_file s i" "d \<notin> free_set s" "data_block d" "d \<notin> set (owned (blocks s) i)"
  shows "(\<exists>i' s'. add_dblock_to_inode s i d = Some (True, i', s') \<and> appended s i d i' s') \<or>
    (\<exists>i' s'. add_dblock_to_inode s i d = Some (False, i', s') \<and> append_refused s s')"
proof -
  have "distinct (d # owned (blocks s) i)" using assms(2,5) by (simp add: wf_file_def)
  then have "length (d # owned (blocks s) i) \<le> 235929"
    by (rule distinct_data_blocks) (use assms(2,4) in \<open>auto simp: wf_file_def\<close>)
  then have n: "num_blocks i < 235929" by (simp add: owned_def)
  consider "num_blocks i < 10" | "10 \<le> num_blocks i" "num_blocks i < 522" | "522 \<le> num_blocks i"
    by linarith
  then show ?thesis
  proof cases
    case 1
    with append_direct [OF assms] show ?thesis by blast
  next
    case 2
    then show ?thesis by (rule append_single [OF assms])
  next
    case 3
    then show ?thesis using n by (rule append_double [OF assms])
  qed
qed

section \<open>Replacing a block\<close>

text \<open>The file after block \<open>k\<close> of it was replaced by \<open>d\<close>.\<close>

definition replaced :: "'a bstate_scheme \<Rightarrow> iNode \<Rightarrow> int \<Rightarrow> int \<Rightarrow> iNode \<Rightarrow> 'a bstate_scheme \<Rightarrow> bool" where
  "replaced s i k d i' s' \<longleftrightarrow>
     fl_inv s' \<and> core s' = core s \<and> free_set s' = free_set s \<and> num_blocks i' = num_blocks i \<and>
     inode_rest i' = inode_rest i \<and> length (direct_blocks i') = length (direct_blocks i) \<and>
     data_of (blocks s') i' = (data_of (blocks s) i)[nat k := d] \<and>
     list_blocks (blocks s') i' = list_blocks (blocks s) i \<and>
     (\<forall>b. b \<notin> set (list_blocks (blocks s) i) \<longrightarrow> blocks s' b = blocks s b)"

lemma data_of_update:
  assumes "num_blocks i' = num_blocks i" "0 \<le> k" "k < num_blocks i"
    "\<And>l. 0 \<le> l \<Longrightarrow> l < num_blocks i \<Longrightarrow> fblk bs' i' l = (if l = k then d else fblk bs i l)"
  shows "data_of bs' i' = (data_of bs i)[nat k := d]"
proof (rule nth_equalityI)
  fix x assume "x < length (data_of bs' i')"
  then have "0 \<le> int x" "int x < num_blocks i" using assms(1) by auto
  from nth_data_of [of "int x" i' bs'] nth_data_of [of "int x" i bs] this assms
  show "data_of bs' i' ! x = (data_of bs i)[nat k := d] ! x" by (auto simp: nth_list_update)
qed (simp add: assms(1))

lemma write_dblock_to_inode_replaces:
  assumes "fl_inv s" "wf_file s i" "0 \<le> k" "k < num_blocks i" "in_s64 d"
  shows "\<exists>i' s'. write_dblock_to_inode s i k d = Some (True, i', s') \<and> replaced s i k d i' s'"
proof -
  have n: "num_blocks i \<le> 235929" using assms(2) by (rule wf_file_size)
  have len: "length (direct_blocks i) = 10" using assms(2) by (simp add: wf_file_def)
  have h: "healthy s" using assms(1) by (simp add: fl_inv_def)
  note l = wf_file_blocks(2) [OF assms(2)]
  have step: "\<exists>s'. write_dblock s m (st_s64 (blocks s m) (8 * j) d) = (True, s') \<and> replaced s i k d i s'"
    if m: "m \<in> set (list_blocks (blocks s) i)" and j: "0 \<le> j"
      and hit: "\<And>bs' l. 0 \<le> l \<Longrightarrow> l < num_blocks i \<Longrightarrow>
        (\<And>b x. 0 \<le> x \<Longrightarrow> word_at bs' b x = (if b = m \<and> x = j then d else word_at (blocks s) b x)) \<Longrightarrow>
        fblk bs' i l = (if l = k then d else fblk (blocks s) i l)"
      and keep: "\<And>bs'. (\<And>b x. 0 \<le> x \<Longrightarrow> word_at bs' b x = (if b = m \<and> x = j then d else word_at (blocks s) b x)) \<Longrightarrow>
        list_blocks bs' i = list_blocks (blocks s) i"
    for m j
  proof -
    obtain s' where s': "write_dblock s m (st_s64 (blocks s m) (8 * j) d) = (True, s')" "fl_inv s'"
      "core s' = core s" "free_set s' = free_set s" "\<And>x. x \<noteq> m \<Longrightarrow> blocks s' x = blocks s x"
      "\<And>b x. 0 \<le> x \<Longrightarrow> word_at (blocks s') b x = (if b = m \<and> x = j then d else word_at (blocks s) b x)"
      using store_word [OF assms(1) conjunct1 [OF l [OF m]] conjunct2 [OF l [OF m]] assms(5) j] by metis
    have "data_of (blocks s') i = (data_of (blocks s) i)[nat k := d]"
      using hit s'(6) assms(3,4) by (intro data_of_update) auto
    moreover have "\<forall>b. b \<notin> set (list_blocks (blocks s) i) \<longrightarrow> blocks s' b = blocks s b"
      using s'(5) m by metis
    moreover have "list_blocks (blocks s') i = list_blocks (blocks s) i" using s'(6) by (rule keep)
    ultimately show ?thesis using s'(1-4) by (auto simp: replaced_def)
  qed
  consider "k < 10" | "10 \<le> k" "k < 522" | "522 \<le> k" by linarith
  then show ?thesis
  proof cases
    case 1
    let ?i = "i\<lparr>direct_blocks := (direct_blocks i)[nat k := d]\<rparr>"
    have "fblk (blocks s) ?i l = (if l = k then d else fblk (blocks s) i l)" if "0 \<le> l" for l
      using 1 that len assms(3) by (auto simp: fblk_def nth_list_update eq_nat_nat_iff)
    then have "data_of (blocks s) ?i = (data_of (blocks s) i)[nat k := d]"
      using assms(3,4) by (intro data_of_update) auto
    moreover have "list_blocks (blocks s) ?i = list_blocks (blocks s) i" by (simp add: list_blocks_def)
    moreover have "write_dblock_to_inode s i k d = Some (True, ?i, s)"
      using 1 assms(3,4) len by (simp add: write_dblock_to_inode_def geometry)
    ultimately show ?thesis using assms(1) by (auto simp: replaced_def inode_rest_def)
  next
    case 2
    let ?m = "single_indirect i"
    have m: "?m \<in> set (list_blocks (blocks s) i)" using 2 assms(4) by (simp add: single_in_list_blocks)
    have "\<exists>s'. write_dblock s ?m (st_s64 (blocks s ?m) (8 * (k - 10)) d) = (True, s') \<and> replaced s i k d i s'"
    proof (rule step [OF m])
      fix bs' l
      assume w: "\<And>b x. 0 \<le> x \<Longrightarrow> word_at bs' b x = (if b = ?m \<and> x = k - 10 then d else word_at (blocks s) b x)"
        and l: "0 \<le> l" "l < num_blocks i"
      have D: "word_at bs' (double_indirect i) q = word_at (blocks s) (double_indirect i) q \<and>
          word_at (blocks s) (double_indirect i) q \<noteq> ?m"
        if "522 < num_blocks i" "0 \<le> q" "q \<le> (num_blocks i - 523) div 512" for q
        using that w [of q "double_indirect i"] list_blocks_distinct(1,2) [OF assms(2)] by metis
      show "fblk bs' i l = (if l = k then d else fblk (blocks s) i l)"
        using 2 l w D [of "(l - 522) div 512"] double_index [of l "num_blocks i"] n
        by (auto simp: fblk_def)
    next
      fix bs'
      assume w: "\<And>b x. 0 \<le> x \<Longrightarrow> word_at bs' b x = (if b = ?m \<and> x = k - 10 then d else word_at (blocks s) b x)"
      show "list_blocks bs' i = list_blocks (blocks s) i"
        using w list_blocks_distinct(1) [OF assms(2)] by (auto simp: list_blocks_def)
    qed (use 2 in simp)
    with 2 assms(4) l [OF m] data_block_pos [of ?m] h show ?thesis
      by (auto simp: write_dblock_to_inode_def geometry read_dblock_healthy)
  next
    case 3
    define q where "q = (k - 522) div 512"
    define r where "r = (k - 522) mod 512"
    note qr = double_index [OF 3 assms(4) n, folded q_def r_def]
    let ?D = "double_indirect i"
    let ?m = "word_at (blocks s) ?D q"
    have n': "522 < num_blocks i" using 3 assms(4) by simp
    have m: "?m \<in> set (list_blocks (blocks s) i)" "?D \<in> set (list_blocks (blocks s) i)"
      using n' qr by (auto intro: word_in_list_blocks double_in_list_blocks)
    note dist = list_blocks_distinct [OF assms(2) n']
    have mD: "?m \<noteq> ?D" "?m \<noteq> single_indirect i" using dist(2) [OF qr(1,2)] by auto
    have "\<exists>s'. write_dblock s ?m (st_s64 (blocks s ?m) (8 * r) d) = (True, s') \<and> replaced s i k d i s'"
    proof (rule step [OF m(1) qr(4)])
      fix bs' l
      assume w: "\<And>b x. 0 \<le> x \<Longrightarrow> word_at bs' b x = (if b = ?m \<and> x = r then d else word_at (blocks s) b x)"
        and l: "0 \<le> l" "l < num_blocks i"
      show "fblk bs' i l = (if l = k then d else fblk (blocks s) i l)"
      proof (cases "l < 522")
        case True
        with l w mD(2) 3 show ?thesis by (auto simp: fblk_def)
      next
        case False
        then have l': "522 \<le> l" by simp
        note pj = double_index [OF l' l(2) n]
        have "(l - 522) div 512 = q \<and> (l - 522) mod 512 = r \<longleftrightarrow> l = k"
          unfolding q_def r_def by (metis add_diff_cancel_right' diff_add_cancel mult_div_mod_eq)
        moreover have "word_at (blocks s) ?D ((l - 522) div 512) = ?m \<longleftrightarrow> (l - 522) div 512 = q"
          using dist(3) [OF pj(1,2) qr(1,2)] by auto
        ultimately show ?thesis using False w mD(1) pj by (auto simp: fblk_def)
      qed
    next
      fix bs'
      assume w: "\<And>b x. 0 \<le> x \<Longrightarrow> word_at bs' b x = (if b = ?m \<and> x = r then d else word_at (blocks s) b x)"
      show "list_blocks bs' i = list_blocks (blocks s) i"
        using w mD(1) by (auto simp: list_blocks_def)
    qed
    then obtain s' where s': "write_dblock s ?m (st_s64 (blocks s ?m) (8 * r) d) = (True, s')"
      "replaced s i k d i s'" by blast
    have "write_dblock_to_inode s i k d = Some (True, i, s')"
      using 3 assms(4) n l [OF m(1)] l [OF m(2)] data_block_pos [of ?m] data_block_pos [of ?D] h qr s'(1)
      by (simp add: write_dblock_to_inode_def geometry read_dblock_healthy word_at_def Let_def
          diff_diff_eq q_def [symmetric] r_def [symmetric])
    with s'(2) show ?thesis by blast
  qed
qed

lemma replaced_wf:
  assumes "wf_file s i" "replaced s i k d i' s'" "length (direct_blocks i') = 10" "data_block d"
    and "d \<notin> free_set s" "d \<notin> set (owned (blocks s) i)"
  shows "wf_file s' i'"
proof -
  have n: "num_blocks i' = num_blocks i" "free_set s' = free_set s"
    "data_of (blocks s') i' = (data_of (blocks s) i)[nat k := d]"
    "list_blocks (blocks s') i' = list_blocks (blocks s) i" using assms(2) by (auto simp: replaced_def)
  have sub: "set ((data_of (blocks s) i)[nat k := d]) \<subseteq> insert d (set (data_of (blocks s) i))"
    by (rule set_update_subset_insert)
  show ?thesis
    unfolding wf_file_def owned_def n
    using assms(1,3-6) sub by (auto simp: wf_file_def owned_def intro!: distinct_list_update)
qed

section \<open>The interface of a file's blocks\<close>

text \<open>
  What the file layer relies on: a file is a flexible array of block numbers, with lookup,
  append and replacement; an append may be refused.
\<close>

locale block_file =
  fixes inv :: "'f \<Rightarrow> bool"
    and list :: "'f \<Rightarrow> int list"
    and usable :: "'f \<Rightarrow> int \<Rightarrow> bool"
    and lookup :: "'f \<Rightarrow> int \<Rightarrow> int option"
    and append_block :: "'f \<Rightarrow> int \<Rightarrow> (bool \<times> 'f) option"
    and replace_block :: "'f \<Rightarrow> int \<Rightarrow> int \<Rightarrow> (bool \<times> 'f) option"
  assumes lookup_in: "inv f \<Longrightarrow> 0 \<le> k \<Longrightarrow> k < int (length (list f)) \<Longrightarrow> lookup f k = Some (list f ! nat k)"
    and append_one: "inv f \<Longrightarrow> usable f d \<Longrightarrow>
      \<exists>ok f'. append_block f d = Some (ok, f') \<and> (ok \<longrightarrow> inv f' \<and> list f' = list f @ [d])"
    and replace_one: "inv f \<Longrightarrow> usable f d \<Longrightarrow> 0 \<le> k \<Longrightarrow> k < int (length (list f)) \<Longrightarrow>
      \<exists>f'. replace_block f k d = Some (True, f') \<and> inv f' \<and> list f' = (list f)[nat k := d]"
begin

lemma lookup_appended:
  assumes "inv f" "usable f d" "append_block f d = Some (True, f')"
  shows "inv f'" "lookup f' (int (length (list f))) = Some d"
    "\<And>k. 0 \<le> k \<Longrightarrow> k < int (length (list f)) \<Longrightarrow> lookup f' k = lookup f k"
proof -
  from append_one [OF assms(1,2)] assms(3) have f': "inv f'" "list f' = list f @ [d]" by auto
  then show "inv f'" "lookup f' (int (length (list f))) = Some d"
    using lookup_in [of f' "int (length (list f))"] by auto
  show "lookup f' k = lookup f k" if "0 \<le> k" "k < int (length (list f))" for k
    using that f' lookup_in [OF assms(1), of k] lookup_in [OF f'(1), of k]
    by (simp add: nth_append nat_less_iff)
qed

lemma lookup_replaced:
  assumes "inv f" "usable f d" "0 \<le> k" "k < int (length (list f))"
  obtains f' where "replace_block f k d = Some (True, f')" "inv f'"
    "\<And>l. 0 \<le> l \<Longrightarrow> l < int (length (list f)) \<Longrightarrow>
      lookup f' l = (if l = k then Some d else lookup f l)"
proof -
  from replace_one [OF assms] obtain f' where f': "replace_block f k d = Some (True, f')" "inv f'"
    "list f' = (list f)[nat k := d]" by blast
  show thesis
  proof (rule that [OF f'(1,2)])
    fix l assume "0 \<le> l" "l < int (length (list f))"
    with f' lookup_in [OF assms(1), of l] lookup_in [OF f'(2), of l] assms(3,4)
    show "lookup f' l = (if l = k then Some d else lookup f l)"
      by (auto simp: nth_list_update nat_less_iff eq_nat_nat_iff)
  qed
qed

end

definition file_inv :: "iNode \<times> 'a bstate_scheme \<Rightarrow> bool" where
  "file_inv = (\<lambda>(i, s). fl_inv s \<and> wf_file s i)"

definition file_usable :: "iNode \<times> 'a bstate_scheme \<Rightarrow> int \<Rightarrow> bool" where
  "file_usable = (\<lambda>(i, s) d. data_block d \<and> d \<notin> free_set s \<and> d \<notin> set (owned (blocks s) i))"

definition regroup :: "bool \<times> iNode \<times> 's \<Rightarrow> bool \<times> iNode \<times> 's" where
  "regroup = (\<lambda>(ok, i, s). (ok, (i, s)))"

lemma write_dblock_to_inode_wf:
  assumes "fl_inv s" "wf_file s i" "0 \<le> k" "k < num_blocks i"
    and "data_block d" "d \<notin> free_set s" "d \<notin> set (owned (blocks s) i)"
  shows "\<exists>i' s'. write_dblock_to_inode s i k d = Some (True, i', s') \<and> replaced s i k d i' s' \<and> wf_file s' i'"
proof -
  obtain i' s' where r: "write_dblock_to_inode s i k d = Some (True, i', s')" "replaced s i k d i' s'"
    using write_dblock_to_inode_replaces [OF assms(1-4) data_block_in_s64 [OF assms(5)]] by blast
  have "length (direct_blocks i') = 10" using r(2) assms(2) by (simp add: replaced_def wf_file_def)
  with r replaced_wf [OF assms(2) r(2) _ assms(5-7)] show ?thesis by blast
qed

interpretation file_blocks: block_file file_inv "\<lambda>(i, s). data_of (blocks s) i" file_usable
  "\<lambda>(i, s) k. fblock_num_to_dblock_num s i k"
  "\<lambda>(i, s) d. map_option regroup (add_dblock_to_inode s i d)"
  "\<lambda>(i, s) k d. map_option regroup (write_dblock_to_inode s i k d)"
proof unfold_locales
  fix f :: "iNode \<times> 'a bstate_scheme" and k
  obtain i s where f: "f = (i, s)" by (cases f)
  assume "file_inv f" "0 \<le> k" "k < int (length (case f of (i, s) \<Rightarrow> data_of (blocks s) i))"
  then show "(case f of (i, s) \<Rightarrow> \<lambda>k. fblock_num_to_dblock_num s i k) k =
      Some ((case f of (i, s) \<Rightarrow> data_of (blocks s) i) ! nat k)"
    using f fblock_lookup [of s i k] nth_data_of [of k i "blocks s"]
    by (auto simp: file_inv_def fl_inv_def split: if_splits)
next
  fix f :: "iNode \<times> 'a bstate_scheme" and d
  obtain i s where f: "f = (i, s)" by (cases f)
  assume "file_inv f" "file_usable f d"
  with f add_dblock_cases [of s i d]
  show "\<exists>ok f'. (case f of (i, s) \<Rightarrow> \<lambda>d. map_option regroup (add_dblock_to_inode s i d)) d = Some (ok, f') \<and>
      (ok \<longrightarrow> file_inv f' \<and>
        (case f' of (i, s) \<Rightarrow> data_of (blocks s) i) = (case f of (i, s) \<Rightarrow> data_of (blocks s) i) @ [d])"
    by (auto simp: file_inv_def file_usable_def regroup_def appended_def)
next
  fix f :: "iNode \<times> 'a bstate_scheme" and d k
  obtain i s where f: "f = (i, s)" by (cases f)
  assume "file_inv f" "file_usable f d" "0 \<le> k" "k < int (length (case f of (i, s) \<Rightarrow> data_of (blocks s) i))"
  then have pre: "fl_inv s" "wf_file s i" "0 \<le> k" "k < num_blocks i" "data_block d" "d \<notin> free_set s"
    "d \<notin> set (owned (blocks s) i)" using f by (auto simp: file_inv_def file_usable_def split: if_splits)
  obtain i' s' where "write_dblock_to_inode s i k d = Some (True, i', s')" "replaced s i k d i' s'" "wf_file s' i'"
    using write_dblock_to_inode_wf [OF pre] by blast
  with f show "\<exists>f'. (case f of (i, s) \<Rightarrow> \<lambda>k d. map_option regroup (write_dblock_to_inode s i k d)) k d = Some (True, f') \<and>
      file_inv f' \<and>
      (case f' of (i, s) \<Rightarrow> data_of (blocks s) i) = (case f of (i, s) \<Rightarrow> data_of (blocks s) i)[nat k := d]"
    by (intro exI [of _ "(i', s')"]) (auto simp: file_inv_def regroup_def replaced_def)
qed

section \<open>Properties\<close>

lemma sample_file_blocks: "wf_file file_volume sample_file" "owned (blocks file_volume) sample_file = [30000, 30001]"
proof -
  have n: "num_blocks sample_file = 2" "direct_blocks sample_file = 30000 # 30001 # replicate 8 0"
    by (simp_all add: sample_file_def)
  have "[0..1 :: int] = [0, 1]" by (simp add: upto_rec1)
  then show o: "owned (blocks file_volume) sample_file = [30000, 30001]"
    by (simp add: owned_def data_of_def list_blocks_def n fblk_def)
  show "wf_file file_volume sample_file"
    unfolding wf_file_def o using file_volume_facts(2) by (simp add: n data_block_def geometry)
qed

text \<open>
  C23: \<open>fblock_num_to_dblock_num\<close> computes the block map: for every block of a well formed file
  it returns the data block the inode, its single or its double indirect list refers to.
\<close>

theorem fblock_num_to_dblock_num_reads_the_map:
  assumes "fl_inv s" "wf_file s i" "0 \<le> k" "k < num_blocks i"
  shows "fblock_num_to_dblock_num s i k = Some (fblk (blocks s) i k) \<and>
    data_block (fblk (blocks s) i k) \<and> fblk (blocks s) i k \<notin> free_set s"
  using assms fblock_lookup [of s i k] wf_file_fblk [of s i k] by (simp add: fl_inv_def)

theorem fblock_num_to_dblock_num_reads_the_map_witness:
  "fblock_num_to_dblock_num file_volume sample_file 1 = Some 30001"
  using fblock_num_to_dblock_num_reads_the_map [OF file_volume_facts(1) sample_file_blocks(1), of 1]
  by (simp add: sample_file_def fblk_def)

text \<open>
  C22: while two blocks are free for lists, \<open>add_dblock_to_inode\<close> makes the given block the last
  block of the file and keeps the blocks before it, the well-formedness of the file and of the
  free list, and the contents of every block in use that is no list block of the file.
\<close>

theorem add_dblock_to_inode_appends:
  assumes "fl_inv s" "wf_file s i" "2 \<le> card (free_set s)"
    and "data_block d" "d \<notin> free_set s" "d \<notin> set (owned (blocks s) i)"
  shows "\<exists>i' s'. add_dblock_to_inode s i d = Some (True, i', s') \<and> fl_inv s' \<and> wf_file s' i' \<and>
    num_blocks i' = num_blocks i + 1 \<and> fblock_num_to_dblock_num s' i' (num_blocks i) = Some d \<and>
    (\<forall>k. 0 \<le> k \<and> k < num_blocks i \<longrightarrow> fblock_num_to_dblock_num s' i' k = fblock_num_to_dblock_num s i k) \<and>
    (\<forall>b. data_block b \<longrightarrow> b \<notin> free_set s \<longrightarrow> b \<notin> set (list_blocks (blocks s) i) \<longrightarrow> blocks s' b = blocks s b)"
proof -
  obtain i' s' where r: "add_dblock_to_inode s i d = Some (True, i', s')" "appended s i d i' s'"
    using add_dblock_cases [OF assms(1,2,5,4,6)] assms(3) by (auto simp: append_refused_def)
  note L = file_blocks.lookup_appended [of "(i, s)" d "(i', s')"]
  have "file_inv (i, s)" "file_usable (i, s) d" using assms by (auto simp: file_inv_def file_usable_def)
  note L = L [OF this, simplified r(1), simplified, unfolded regroup_def, simplified]
  have "0 \<le> num_blocks i" using assms(2) by (simp add: wf_file_def)
  with r L show ?thesis
    by (intro exI [of _ i'] exI [of _ s']) (auto simp: appended_def file_inv_def dest: data_block_nonzero)
qed

theorem add_dblock_to_inode_appends_witness:
  "\<exists>i' s'. add_dblock_to_inode file_volume sample_file 30002 = Some (True, i', s') \<and>
    num_blocks i' = 3 \<and> fblock_num_to_dblock_num s' i' 2 = Some 30002"
proof -
  have n: "num_blocks sample_file = 2" by (simp add: sample_file_def)
  have "data_block 30002" by (simp add: data_block_def geometry)
  from add_dblock_to_inode_appends [OF file_volume_facts(1) sample_file_blocks(1) _ this] show ?thesis
    unfolding file_volume_facts(2) sample_file_blocks(2) n by auto
qed

text \<open>
  \<open>write_dblock_to_inode\<close> replaces one block of the file by another and no other.
\<close>

theorem write_dblock_to_inode_replaces_one_block:
  assumes "fl_inv s" "wf_file s i" "0 \<le> k" "k < num_blocks i"
    and "data_block d" "d \<notin> free_set s" "d \<notin> set (owned (blocks s) i)"
  shows "\<exists>i' s'. write_dblock_to_inode s i k d = Some (True, i', s') \<and> fl_inv s' \<and> wf_file s' i' \<and>
    num_blocks i' = num_blocks i \<and> free_set s' = free_set s \<and>
    (\<forall>l. 0 \<le> l \<and> l < num_blocks i \<longrightarrow>
      fblock_num_to_dblock_num s' i' l = (if l = k then Some d else fblock_num_to_dblock_num s i l)) \<and>
    (\<forall>b. b \<notin> set (list_blocks (blocks s) i) \<longrightarrow> blocks s' b = blocks s b)"
proof -
  obtain i' s' where r: "write_dblock_to_inode s i k d = Some (True, i', s')" "replaced s i k d i' s'" "wf_file s' i'"
    using write_dblock_to_inode_wf [OF assms] by blast
  have "file_inv (i, s)" "file_usable (i, s) d" using assms by (auto simp: file_inv_def file_usable_def)
  then obtain f' where f': "map_option regroup (write_dblock_to_inode s i k d) = Some (True, f')"
    "\<And>l. 0 \<le> l \<Longrightarrow> l < num_blocks i \<Longrightarrow>
      (case f' of (i, s) \<Rightarrow> fblock_num_to_dblock_num s i) l =
      (if l = k then Some d else fblock_num_to_dblock_num s i l)"
    by (rule file_blocks.lookup_replaced [of _ _ k]) (use assms(3,4) in auto)
  have "f' = (i', s')" using f'(1) r(1) by (simp add: regroup_def)
  with f'(2) have "\<forall>l. 0 \<le> l \<and> l < num_blocks i \<longrightarrow>
      fblock_num_to_dblock_num s' i' l = (if l = k then Some d else fblock_num_to_dblock_num s i l)"
    by simp
  with r show ?thesis by (auto simp: replaced_def)
qed

theorem write_dblock_to_inode_replaces_one_block_witness:
  "\<exists>i' s'. write_dblock_to_inode file_volume sample_file 0 30002 = Some (True, i', s') \<and>
    fblock_num_to_dblock_num s' i' 0 = Some 30002 \<and> fblock_num_to_dblock_num s' i' 1 = Some 30001"
proof -
  have n: "num_blocks sample_file = 2" by (simp add: sample_file_def)
  have d: "data_block 30002" by (simp add: data_block_def geometry)
  have l: "fblock_num_to_dblock_num file_volume sample_file 1 = Some 30001"
    by (simp add: fblock_num_to_dblock_num_def sample_file_def geometry)
  from write_dblock_to_inode_replaces_one_block [OF file_volume_facts(1) sample_file_blocks(1), of 0 30002] d l
  show ?thesis
    unfolding file_volume_facts(2) sample_file_blocks(2) n by auto
qed

end
