(* ===== verification/LruRefine.thy ===== *)
theory LruRefine
  imports LruCache
begin

text \<open>
  What the cache of \<open>lib/lru_cache.c\<close> stands for: a list of keys and values, most recently
  used first, without repeated keys (\<open>lru_rep\<close>). The operations are refined to this list under
  an interface, the locale \<open>recency_cache\<close>; the conditions of its laws (no eviction, no
  collision, no removal of the only entry) are needed, as the last section shows.
\<close>

section \<open>Doubly linked segments\<close>

definition first_of :: "nat list \<Rightarrow> nat option \<Rightarrow> nat option" where
  "first_of ps e = (case ps of [] \<Rightarrow> e | p # _ \<Rightarrow> Some p)"

definition last_of :: "nat list \<Rightarrow> nat option \<Rightarrow> nat option" where
  "last_of ps e = (if ps = [] then e else Some (last ps))"

text \<open>
  \<open>seg h pr ps nx\<close>: the addresses \<open>ps\<close> hold nodes linked to each other in both directions,
  the first one's \<open>prev\<close> is \<open>pr\<close> and the last one's \<open>next\<close> is \<open>nx\<close>.
\<close>

fun seg :: "(nat \<Rightarrow> node option) \<Rightarrow> nat option \<Rightarrow> nat list \<Rightarrow> nat option \<Rightarrow> bool" where
  "seg h pr [] nx \<longleftrightarrow> True"
| "seg h pr (p # ps) nx \<longleftrightarrow>
     (\<exists>n. h p = Some n \<and> prv n = pr \<and> nxt n = first_of ps nx) \<and> seg h (Some p) ps nx"

lemma first_of_simps [simp]: "first_of [] e = e" "first_of (p # ps) e = Some p"
  by (simp_all add: first_of_def)

lemma last_of_simps [simp]:
  "last_of [] e = e" "last_of (ps @ [p]) e = Some p" "last_of [p] e = Some p"
  by (simp_all add: last_of_def)

lemma last_of_Cons: "last_of (p # ps) e = last_of ps (Some p)"
  by (simp add: last_of_def)

lemma last_of_append: "last_of (ps @ qs) e = last_of qs (last_of ps e)"
  by (simp add: last_of_def)

lemma first_of_append [simp]: "first_of (ps @ qs) e = first_of ps (first_of qs e)"
  by (simp add: first_of_def split: list.splits)

lemma seg_append:
  "seg h pr (ps @ qs) nx \<longleftrightarrow> seg h pr ps (first_of qs nx) \<and> seg h (last_of ps pr) qs nx"
  by (induction ps arbitrary: pr) (auto simp: last_of_Cons)

lemma seg_frame [simp]: "a \<notin> set ps \<Longrightarrow> seg (h(a := x)) pr ps nx = seg h pr ps nx"
  by (induction ps arbitrary: pr) auto

lemma seg_alloc: "seg h pr ps nx \<Longrightarrow> p \<in> set ps \<Longrightarrow> \<exists>n. h p = Some n"
  by (induction ps arbitrary: pr) auto

text \<open>Redirecting the link at either end.\<close>

lemma seg_set_next:
  assumes "seg h pr (ps @ [p]) nx" "h p = Some n" "p \<notin> set ps"
  shows "seg (h(p \<mapsto> n\<lparr>nxt := nx'\<rparr>)) pr (ps @ [p]) nx'"
  using assms by (auto simp: seg_append)

lemma seg_set_prev:
  assumes "seg h pr (p # ps) nx" "h p = Some n" "p \<notin> set ps"
  shows "seg (h(p \<mapsto> n\<lparr>prv := pr'\<rparr>)) pr' (p # ps) nx"
  using assms by simp

text \<open>Changing a value keeps the links.\<close>

lemma seg_set_value:
  "seg h pr ps nx \<Longrightarrow> h a = Some n \<Longrightarrow> seg (h(a \<mapsto> n\<lparr>nval := v\<rparr>)) pr ps nx"
  by (induction ps arbitrary: pr) auto

section \<open>The list of entries\<close>

definition entry :: "(nat \<Rightarrow> node option) \<Rightarrow> nat \<Rightarrow> string \<times> int" where
  "entry h p = (case h p of Some n \<Rightarrow> (nkey n, nval n) | None \<Rightarrow> ([], 0))"

text \<open>The bucket of a key when the capacity is positive.\<close>

definition slot :: "int \<Rightarrow> string \<Rightarrow> nat" where
  "slot cap key = unat (djb2_hash key mod word_of_int cap)"

text \<open>Every bucket in use points at the node of the one cached key that belongs there.\<close>

definition buckets_ok :: "lru_cache \<Rightarrow> nat list \<Rightarrow> bool" where
  "buckets_ok c ps \<longleftrightarrow> length (cmap c) = nat (capacity c) \<and>
     (\<forall>i a. i < length (cmap c) \<longrightarrow> cmap c ! i = Some a \<longrightarrow>
        a \<in> set ps \<and> slot (capacity c) (fst (entry (heap c) a)) = i) \<and>
     (\<forall>p \<in> set ps. cmap c ! slot (capacity c) (fst (entry (heap c) p)) = Some p)"

definition list_ok :: "lru_cache \<Rightarrow> nat list \<Rightarrow> bool" where
  "list_ok c ps \<longleftrightarrow> distinct ps \<and> seg (heap c) None ps None \<and> head c = first_of ps None \<and>
     tail c = last_of ps None \<and> (\<forall>a \<ge> brk c. heap c a = None)"

definition lru_rep :: "lru_cache \<Rightarrow> (string \<times> int) list \<Rightarrow> bool" where
  "lru_rep c l \<longleftrightarrow> 0 < capacity c \<and> capacity c < 2 ^ 63 \<and>
     (\<exists>ps. list_ok c ps \<and> buckets_ok c ps \<and> l = map (entry (heap c)) ps \<and>
        int (length ps) \<le> csize c)"

lemma slot_range:
  assumes "0 < cap" "cap < 2 ^ 63"
  shows "slot cap key < nat cap" "uint (djb2_hash key mod word_of_int cap) = int (slot cap key)"
proof -
  have "take_bit 64 cap = cap" using assms by (simp add: take_bit_int_eq_self)
  then have "(0 :: 64 word) < word_of_int cap" "unat (word_of_int cap :: 64 word) = nat cap"
    using assms by (simp_all add: word_less_def unat_eq_nat_uint uint_word_of_int_eq)
  then show "slot cap key < nat cap"
    using word_mod_less_divisor [of "word_of_int cap" "djb2_hash key"]
    by (simp add: slot_def word_less_nat_alt)
  show "uint (djb2_hash key mod word_of_int cap) = int (slot cap key)"
    by (simp add: slot_def)
qed

lemma bucket_slot:
  assumes "0 < capacity c" "capacity c < 2 ^ 63"
  shows "bucket c key = Some (int (slot (capacity c) key))"
proof -
  have "take_bit 64 (capacity c) = capacity c" using assms by (simp add: take_bit_int_eq_self)
  then have "uint (word_of_int (capacity c) :: 64 word) = capacity c" by (simp add: uint_word_of_int_eq)
  then have "(word_of_int (capacity c) :: 64 word) \<noteq> 0" using assms(1) by auto
  then show ?thesis using slot_range(2) [OF assms] by (simp add: bucket_def)
qed

lemma bucket_cell:
  assumes "0 < capacity c" "capacity c < 2 ^ 63" "length (cmap c) = nat (capacity c)"
  shows "array_get (cmap c) (int (slot (capacity c) key)) = Some (cmap c ! slot (capacity c) key)"
    "array_set (cmap c) (int (slot (capacity c) key)) v = Some ((cmap c)[slot (capacity c) key := v])"
  using slot_range(1) [OF assms(1,2), of key] assms(3) by (simp_all add: array_get_def array_set_def)

section \<open>The search\<close>

lemma find_node_seg:
  "seg h pr ps None \<Longrightarrow> find_node h (first_of ps None) key = Some (find (\<lambda>p. fst (entry h p) = key) ps)"
proof (induction ps arbitrary: pr)
  case Nil
  then show ?case by (subst find_node.simps) simp
next
  case (Cons p ps)
  then show ?case by (subst find_node.simps) (auto simp: entry_def)
qed

lemma find_node_cell:
  fixes key :: string
  assumes "list_ok c ps" "buckets_ok c ps" "0 < capacity c" "capacity c < 2 ^ 63"
  defines "a \<equiv> cmap c ! slot (capacity c) key"
  shows "find_node (heap c) a key =
    Some (if \<exists>p \<in> set ps. fst (entry (heap c) p) = key then a else None)"
proof (cases a)
  case None
  have "fst (entry (heap c) p) \<noteq> key" if "p \<in> set ps" for p
    using assms(2) that None unfolding buckets_ok_def a_def by auto
  with None show ?thesis by (subst find_node.simps) auto
next
  case (Some b)
  have i: "slot (capacity c) key < length (cmap c)"
    using slot_range(1) [OF assms(3,4)] assms(2) by (simp add: buckets_ok_def)
  then have b: "b \<in> set ps" using assms(2) Some unfolding buckets_ok_def a_def by blast
  then obtain xs ys where ps: "ps = xs @ b # ys" by (auto simp: in_set_conv_decomp)
  then have "seg (heap c) (last_of xs None) (b # ys) None"
    using assms(1) by (auto simp: list_ok_def seg_append)
  note F = find_node_seg [OF this, of key]
  show ?thesis
  proof (cases "fst (entry (heap c) b) = key")
    case True
    with F b Some show ?thesis by auto
  next
    case False
    have "fst (entry (heap c) p) \<noteq> key" if "p \<in> set ps" for p
      using assms(2) that Some False unfolding buckets_ok_def a_def by (metis option.inject)
    then have "\<not> (\<exists>p \<in> set ps. fst (entry (heap c) p) = key)"
      "find (\<lambda>p. fst (entry (heap c) p) = key) (b # ys) = None"
      by (auto simp: find_None_iff ps)
    with F Some show ?thesis by simp
  qed
qed

section \<open>Moving a node to the front\<close>

lemma entry_links [simp]:
  "h a = Some n \<Longrightarrow> nkey m = nkey n \<Longrightarrow> nval m = nval n \<Longrightarrow> entry (h(a \<mapsto> m)) = entry h"
  by (auto simp: entry_def fun_eq_iff)

text \<open>Everything of the cache but the links and the two ends.\<close>

definition same_entries :: "lru_cache \<Rightarrow> lru_cache \<Rightarrow> bool" where
  "same_entries c c' \<longleftrightarrow> entry (heap c') = entry (heap c) \<and> cmap c' = cmap c \<and>
     capacity c' = capacity c \<and> csize c' = csize c \<and> brk c' = brk c"

lemma seg_head_node:
  "seg h pr (p # ps) nx \<Longrightarrow> \<exists>n. h p = Some n \<and> prv n = pr \<and> nxt n = first_of ps nx"
  by simp

lemma move_inner_to_front:
  assumes "list_ok c ((xs @ [b]) @ a # ys)"
  shows "\<exists>c'. move_to_front c a = Some c' \<and> list_ok c' (a # (xs @ [b]) @ ys) \<and> same_entries c c'"
proof -
  let ?bs = "xs @ [b]" and ?e = "first_of ys None"
  obtain f fs where f: "?bs = f # fs" by (cases ?bs) auto
  define h where "h = heap c"
  have d: "distinct (?bs @ a # ys)" and seg: "seg h None (?bs @ a # ys) None"
    and hd: "head c = Some f" and tl: "tail c = last_of (?bs @ a # ys) None"
    and fresh: "\<forall>x \<ge> brk c. h x = None"
    using assms f by (auto simp: list_ok_def h_def)
  have S: "seg h None ?bs (Some a)" "seg h (Some b) (a # ys) None"
    using seg by (auto simp: seg_append)
  obtain n where n: "h a = Some n" "prv n = Some b" "nxt n = ?e" and ys: "seg h (Some a) ys None"
    using S(2) by auto
  obtain m where m: "h b = Some m" using seg_alloc [OF S(1), of b] by auto
  define h1 where "h1 = h(b \<mapsto> m\<lparr>nxt := ?e\<rparr>)"
  have h1: "seg h1 None ?bs ?e" "seg h1 (Some a) ys None" "h1 a = Some n" "entry h1 = entry h"
    using seg_set_next [OF S(1) m, of ?e] d ys n m by (auto simp: h1_def)
  obtain h2 tl2 where h2: "seg h2 None ?bs ?e" "seg h2 (Some b) ys None" "h2 a = Some n"
    "entry h2 = entry h" "tl2 = last_of ys (Some b)" "\<forall>x. h2 x = None \<longleftrightarrow> h x = None"
    and step2: "\<And>c. tail c = last_of (a # ys) None \<Longrightarrow> heap c = h1 \<Longrightarrow>
      (if Some a = tail c then Some (c\<lparr>tail := prv n\<rparr>) else set_prv (nxt n) (prv n) c) =
      Some (c\<lparr>tail := tl2, heap := h2\<rparr>)"
  proof (cases ys)
    case Nil
    show thesis
      by (rule that [of h1 "Some b"]) (use h1 n m Nil in \<open>auto simp: h1_def\<close>)
  next
    case (Cons y zs)
    obtain k where k: "h1 y = Some k" using h1(2) Cons by auto
    define h2 where "h2 = h1(y \<mapsto> k\<lparr>prv := Some b\<rparr>)"
    have y: "y \<notin> set ?bs" "y \<noteq> a" "y \<notin> set zs" "last (y # zs) \<noteq> a" using d Cons by auto
    have "c\<lparr>tail := last_of ys (Some b), heap := h2\<rparr> = c\<lparr>heap := h2\<rparr>"
      if "tail c = last_of (a # ys) None" for c using that Cons by (simp add: last_of_def)
    then show thesis
      using h1 n k y Cons m
      by (intro that [of h2 "last_of ys (Some b)"])
         (auto simp: h2_def h1_def set_prv_def last_of_def)
  qed
  define h3 where "h3 = h2(a \<mapsto> n\<lparr>prv := None\<rparr>)"
  define h4 where "h4 = h3(a \<mapsto> n\<lparr>prv := None, nxt := Some f\<rparr>)"
  have a: "a \<notin> set ?bs" "a \<notin> set ys" using d by auto
  have h4: "seg h4 None ?bs ?e" "seg h4 (Some b) ys None" "seg h4 None [a] (Some f)"
    using h2 a by (auto simp: h4_def h3_def)
  have e4: "entry h4 = entry h"
    using h2(3,4) n(1) by (simp add: h4_def h3_def)
  obtain k where k: "h4 f = Some k" using h4(1) f by auto
  define h5 where "h5 = h4(f \<mapsto> k\<lparr>prv := Some a\<rparr>)"
  have fd: "f \<notin> set fs" "f \<noteq> a" "f \<notin> set ys" using d f by (cases xs; auto)+
  have h5: "seg h5 (Some a) ?bs ?e" "seg h5 (Some b) ys None" "seg h5 None [a] (Some f)" "entry h5 = entry h"
    using h4 e4 f k fd by (auto simp: h5_def)
  define c' where "c' = c\<lparr>heap := h5, tail := tl2, head := Some a\<rparr>"
  have "move_to_front c a = Some c'"
  proof -
    have s1: "set_nxt (Some b) ?e c = Some (c\<lparr>heap := h1\<rparr>)"
      using m by (simp add: set_nxt_def h1_def h_def)
    have s3: "set_prv (Some a) None (c\<lparr>tail := tl2, heap := h2\<rparr>) = Some (c\<lparr>tail := tl2, heap := h3\<rparr>)"
      using h2(3) by (simp add: set_prv_def h3_def)
    have s4: "set_nxt (Some a) (Some f) (c\<lparr>tail := tl2, heap := h3\<rparr>) = Some (c\<lparr>tail := tl2, heap := h4\<rparr>)"
      by (simp add: set_nxt_def h3_def h4_def)
    have s5: "set_prv (Some f) (Some a) (c\<lparr>tail := tl2, heap := h4\<rparr>) = Some (c\<lparr>tail := tl2, heap := h5\<rparr>)"
      using k by (simp add: set_prv_def h5_def)
    have t: "tail c = last_of (a # ys) None" using tl by (simp add: last_of_def)
    have "f \<noteq> a" by (rule fd(2))
    with hd n(1-3) s1 s3 s4 s5 step2 [of "c\<lparr>heap := h1\<rparr>"] t h1(3) show ?thesis
      by (simp add: move_to_front_def h_def [symmetric] c'_def)
  qed
  moreover have "list_ok c' (a # ?bs @ ys)"
  proof -
    have "last_of fs (Some f) = Some b" using f last_of_Cons [of f fs None] by (metis last_of_simps(2))
    then have "seg h5 None (a # ?bs @ ys) None"
      using h5 f by (auto simp: seg_append last_of_Cons)
    moreover have "tl2 = last_of (a # ?bs @ ys) None" using h2(5) by (simp add: last_of_def)
    moreover have "h5 x = None" if "x \<ge> brk c" for x
    proof -
      have "\<exists>n. h f = Some n" using seg_alloc [OF S(1), of f] by (simp add: f)
      then have "h x = None" "x \<noteq> f" "x \<noteq> a" using fresh that n(1) by auto
      then show ?thesis using h2(6) by (simp add: h5_def h4_def h3_def)
    qed
    ultimately show ?thesis using d by (auto simp: list_ok_def c'_def)
  qed
  moreover have "same_entries c c'" using h5(4) by (simp add: same_entries_def c'_def h_def)
  ultimately show ?thesis by blast
qed

lemma move_to_front_ok:
  assumes "list_ok c (xs @ a # ys)"
  obtains c' where "move_to_front c a = Some c'" "list_ok c' (a # xs @ ys)" "same_entries c c'"
proof (cases xs rule: rev_cases)
  case Nil
  with assms show thesis
    by (intro that [of c]) (auto simp: move_to_front_def list_ok_def same_entries_def)
next
  case (snoc zs b)
  with move_inner_to_front [of c zs b a ys] assms that show thesis by auto
qed

section \<open>Removing a node\<close>

definition removed :: "lru_cache \<Rightarrow> nat \<Rightarrow> lru_cache \<Rightarrow> bool" where
  "removed c a c' \<longleftrightarrow> heap c' a = None \<and> (\<forall>p. p \<noteq> a \<longrightarrow> entry (heap c') p = entry (heap c) p) \<and>
     cmap c' = cmap c \<and> capacity c' = capacity c \<and> csize c' = csize c \<and> brk c' = brk c"

lemma entry_freed: "entry (h(a := None)) p = (if p = a then ([], 0) else entry h p)"
  by (simp add: entry_def)

lemma delete_first:
  assumes "list_ok c (a # y # ys)"
  shows "\<exists>c'. delete_node c a = Some c' \<and> list_ok c' (y # ys) \<and> removed c a c'"
proof -
  define h where "h = heap c"
  obtain n m where n: "h a = Some n" "prv n = None" "nxt n = Some y"
    and m: "h y = Some m" and seg: "seg h (Some a) (y # ys) None"
    using assms by (auto simp: list_ok_def h_def)
  have d: "a \<noteq> y" "a \<notin> set ys" "y \<notin> set ys" "distinct ys" "head c = Some a" "tail c = last_of (y # ys) None"
    "\<forall>x \<ge> brk c. h x = None"
    using assms by (auto simp: list_ok_def last_of_def h_def)
  define h1 where "h1 = (h(y \<mapsto> m\<lparr>prv := None\<rparr>))(a := None)"
  let ?c = "c\<lparr>head := Some y, heap := h1\<rparr>"
  have "delete_node c a = Some ?c"
    using n m d by (simp add: delete_node_def free_node_def set_prv_def h1_def h_def)
  moreover have "list_ok ?c (y # ys)"
    using seg m d by (auto simp: list_ok_def h1_def)
  moreover have "removed c a ?c"
    using m by (auto simp: removed_def h1_def entry_freed h_def)
  ultimately show ?thesis by blast
qed

lemma delete_inner:
  assumes "list_ok c ((xs @ [b]) @ a # ys)"
  shows "\<exists>c'. delete_node c a = Some c' \<and> list_ok c' ((xs @ [b]) @ ys) \<and> removed c a c'"
proof -
  let ?bs = "xs @ [b]" and ?e = "first_of ys None"
  define h where "h = heap c"
  have d: "distinct (?bs @ a # ys)" and seg: "seg h None (?bs @ a # ys) None"
    and hd: "head c = first_of ?bs None" and tl: "tail c = last_of (?bs @ a # ys) None"
    and fresh: "\<forall>x \<ge> brk c. h x = None"
    using assms by (simp_all add: list_ok_def h_def)
  have S: "seg h None ?bs (Some a)" "seg h (Some b) (a # ys) None"
    using seg by (auto simp: seg_append)
  obtain n where n: "h a = Some n" "prv n = Some b" "nxt n = ?e" and ys: "seg h (Some a) ys None"
    using S(2) by auto
  obtain m where m: "h b = Some m" using seg_alloc [OF S(1), of b] by auto
  define h1 where "h1 = h(b \<mapsto> m\<lparr>nxt := ?e\<rparr>)"
  have h1: "seg h1 None ?bs ?e" "seg h1 (Some a) ys None" "h1 a = Some n" "entry h1 = entry h"
    using seg_set_next [OF S(1) m, of ?e] d ys n m by (auto simp: h1_def)
  have first: "first_of ?bs None \<noteq> Some a" using d by (cases xs) auto
  show ?thesis
  proof (cases ys)
    case Nil
    let ?c = "c\<lparr>tail := Some b, heap := h1(a := None)\<rparr>"
    have "tail c = Some a" "a \<noteq> b" using tl Nil d by (auto simp: last_of_def)
    then have "delete_node c a = Some ?c"
      using n m h1(3) hd first Nil by (simp add: delete_node_def free_node_def set_nxt_def h1_def h_def)
    moreover have "list_ok ?c (?bs @ ys)"
      using h1(1) d hd fresh m Nil by (auto simp: list_ok_def h1_def)
    moreover have "removed c a ?c" using h1(4) by (simp add: removed_def entry_freed h_def)
    ultimately show ?thesis by blast
  next
    case (Cons y zs)
    obtain k where k: "h1 y = Some k" using h1(2) Cons by auto
    define h2 where "h2 = h1(y \<mapsto> k\<lparr>prv := Some b\<rparr>)"
    have y: "y \<notin> set ?bs" "y \<noteq> a" "y \<notin> set zs" "a \<notin> set ?bs" "a \<notin> set ys" "last (y # zs) \<noteq> a"
      using d Cons by auto
    have h2: "seg h2 None ?bs ?e" "seg h2 (Some b) ys None" "entry h2 = entry h"
      using h1 k y Cons by (auto simp: h2_def)
    let ?c = "c\<lparr>heap := h2(a := None)\<rparr>"
    have "delete_node c a = Some ?c"
      using n m k h1(3) hd first tl Cons y
      by (simp add: delete_node_def free_node_def set_nxt_def set_prv_def h2_def h1_def h_def last_of_def)
    moreover have "list_ok ?c (?bs @ ys)"
      using h2 d hd tl fresh m k y Cons h1
      by (auto simp: list_ok_def seg_append last_of_def h2_def h1_def split: if_splits)
    moreover have "removed c a ?c" using h2(3) by (simp add: removed_def entry_freed h_def)
    ultimately show ?thesis by blast
  qed
qed

lemma delete_node_ok:
  assumes "list_ok c (xs @ a # ys)" "xs @ ys \<noteq> []"
  obtains c' where "delete_node c a = Some c'" "list_ok c' (xs @ ys)" "removed c a c'"
proof (cases xs rule: rev_cases)
  case Nil
  with assms obtain y zs where "ys = y # zs" by (cases ys) auto
  with Nil delete_first [of c a y zs] assms that show thesis by auto
next
  case (snoc zs b)
  with delete_inner [of c zs b a ys] assms that show thesis by auto
qed

end
