(* ===== verification/LruSpec.thy ===== *)
theory LruSpec
  imports LruRefine
begin

text \<open>
  The contract of the path cache (\<open>lib/lru_cache.c\<close>) as an interface, its interpretation on
  the model, and what happens outside the contract: removing the only entry, and evicting an
  entry when the cache is full.
\<close>

section \<open>The operations on the list of entries\<close>

definition without :: "string \<Rightarrow> (string \<times> int) list \<Rightarrow> (string \<times> int) list" where
  "without k l = filter (\<lambda>e. fst e \<noteq> k) l"

lemma buckets_same:
  "same_entries c c' \<Longrightarrow> set ps' = set ps \<Longrightarrow> buckets_ok c' ps' = buckets_ok c ps"
  by (simp add: buckets_ok_def same_entries_def)

lemma key_unique:
  "buckets_ok c ps \<Longrightarrow> p \<in> set ps \<Longrightarrow> q \<in> set ps \<Longrightarrow>
   fst (entry (heap c) p) = fst (entry (heap c) q) \<Longrightarrow> p = q"
  unfolding buckets_ok_def by (metis option.inject)

lemma without_split:
  assumes "buckets_ok c (xs @ a # ys)" "distinct (xs @ a # ys)"
  shows "without (fst (entry (heap c) a)) (map (entry (heap c)) (xs @ a # ys)) =
    map (entry (heap c)) (xs @ ys)"
proof -
  have "fst (entry (heap c) p) \<noteq> fst (entry (heap c) a)" if "p \<in> set xs \<union> set ys" for p
    using key_unique [OF assms(1), of p a] that assms(2) by auto
  then show ?thesis by (auto simp: without_def filter_map o_def intro!: filter_True)
qed

lemma lru_repE:
  assumes "lru_rep c l"
  obtains ps where "0 < capacity c" "capacity c < 2 ^ 63" "list_ok c ps" "buckets_ok c ps"
    "l = map (entry (heap c)) ps" "int (length ps) \<le> csize c" "distinct ps"
  using assms unfolding lru_rep_def list_ok_def by blast

lemma lru_repI:
  "0 < capacity c \<Longrightarrow> capacity c < 2 ^ 63 \<Longrightarrow> list_ok c ps \<Longrightarrow> buckets_ok c ps \<Longrightarrow>
   int (length ps) \<le> csize c \<Longrightarrow> lru_rep c (map (entry (heap c)) ps)"
  unfolding lru_rep_def by blast

text \<open>Where the search of the code ends.\<close>

lemma search_cases:
  assumes "lru_rep c l"
  defines "cell \<equiv> \<lambda>k. cmap c ! slot (capacity c) k"
  obtains (absent) "k \<notin> fst ` set l" "bucket c k = Some (int (slot (capacity c) k))"
      "array_get (cmap c) (int (slot (capacity c) k)) = Some (cell k)"
      "find_node (heap c) (cell k) k = Some None"
    | (present) xs a ys v where "list_ok c (xs @ a # ys)" "buckets_ok c (xs @ a # ys)"
      "l = map (entry (heap c)) (xs @ a # ys)" "entry (heap c) a = (k, v)" "map_of l k = Some v"
      "without k l = map (entry (heap c)) (xs @ ys)" "int (length (xs @ a # ys)) \<le> csize c"
      "bucket c k = Some (int (slot (capacity c) k))"
      "array_get (cmap c) (int (slot (capacity c) k)) = Some (cell k)"
      "find_node (heap c) (cell k) k = Some (Some a)"
proof -
  from assms(1) obtain ps where r: "0 < capacity c" "capacity c < 2 ^ 63" "list_ok c ps"
    "buckets_ok c ps" "l = map (entry (heap c)) ps" "int (length ps) \<le> csize c" "distinct ps"
    by (rule lru_repE)
  have cap: "length (cmap c) = nat (capacity c)" using r(4) by (simp add: buckets_ok_def)
  note S = bucket_slot [OF r(1,2), of k] bucket_cell(1) [OF r(1,2) cap, of k]
    find_node_cell [OF r(3,4,1,2), of k]
  show thesis
  proof (cases "\<exists>p \<in> set ps. fst (entry (heap c) p) = k")
    case False
    then have "k \<notin> fst ` set l" using r(5) by auto
    with S False show thesis by (intro absent) (auto simp: cell_def)
  next
    case True
    then obtain a where a: "a \<in> set ps" "fst (entry (heap c) a) = k" by blast
    then have cell: "cell k = Some a" using r(4) unfolding buckets_ok_def cell_def by blast
    obtain v where v: "entry (heap c) a = (k, v)" using a(2) by (cases "entry (heap c) a") auto
    from a(1) obtain xs ys where ps: "ps = xs @ a # ys" by (auto simp: in_set_conv_decomp)
    have "fst (entry (heap c) p) \<noteq> k" if "p \<in> set xs" for p
      using key_unique [OF r(4), of p a] that a r(7) unfolding ps by auto
    then have "k \<notin> fst ` set (map (entry (heap c)) xs)" unfolding set_map image_image by blast
    then have "map_of l k = Some v" unfolding r(5) ps using v
      by (simp add: map_add_def map_of_eq_None_iff [THEN iffD2])
    moreover have "without k l = map (entry (heap c)) (xs @ ys)"
      using without_split [of c xs a ys] r(4,5,7) a(2) unfolding ps by simp
    ultimately show thesis
      using S True cell r v unfolding ps by (intro present [of xs a ys v]) (auto simp: cell_def)
  qed
qed

lemma get_absent:
  assumes "lru_rep c l" "k \<notin> fst ` set l"
  shows "get_cache c (Some k) = Some (-1, c)"
  using assms(1)
proof (cases rule: search_cases [of c l k])
  case absent
  then show ?thesis by (simp add: get_cache_def)
next
  case (present xs a ys v)
  then have "k \<in> fst ` set l" by (auto simp: image_iff)
  with assms(2) show ?thesis by simp
qed

lemma moved_rep:
  assumes "lru_rep c l" "list_ok c' (a # xs @ ys)" "buckets_ok c (xs @ a # ys)" "same_entries c c'"
    "int (length (xs @ a # ys)) \<le> csize c"
  shows "lru_rep c' (entry (heap c) a # map (entry (heap c)) (xs @ ys))"
proof -
  have "0 < capacity c" "capacity c < 2 ^ 63" using assms(1) by (simp_all add: lru_rep_def)
  moreover have "buckets_ok c' (a # xs @ ys)" using buckets_same [OF assms(4), of "a # xs @ ys" "xs @ a # ys"] assms(3) by simp
  ultimately show ?thesis
    using lru_repI [of c' "a # xs @ ys"] assms(2,4,5) by (simp add: same_entries_def)
qed

lemma get_present:
  assumes "lru_rep c l" "map_of l k = Some v"
  shows "\<exists>c'. get_cache c (Some k) = Some (v, c') \<and> lru_rep c' ((k, v) # without k l) \<and>
    csize c' = csize c \<and> capacity c' = capacity c"
  using assms(1)
proof (cases rule: search_cases [of c l k])
  case absent
  with assms(2) show ?thesis by (metis map_of_eq_None_iff option.distinct(1))
next
  case (present xs a ys w)
  then have w: "w = v" using assms(2) by simp
  obtain c' where c': "move_to_front c a = Some c'" "list_ok c' (a # xs @ ys)" "same_entries c c'"
    using move_to_front_ok [OF present(1)] by blast
  have "\<exists>n. heap c' a = Some n" using c'(2) by (auto simp: list_ok_def)
  moreover have "entry (heap c') a = (k, v)" using c'(3) present(4) w by (simp add: same_entries_def)
  ultimately have "get_cache c (Some k) = Some (v, c')"
    using present c'(1) by (auto simp: get_cache_def entry_def)
  with moved_rep [OF assms(1) c'(2) present(2) c'(3) present(7)] present(4,6) c'(3) w show ?thesis
    by (auto simp: same_entries_def)
qed

lemma pop_absent:
  assumes "lru_rep c l" "k \<notin> fst ` set l"
  shows "pop_cache c (Some k) = Some (False, c)"
  using assms(1)
proof (cases rule: search_cases [of c l k])
  case absent
  then show ?thesis by (simp add: pop_cache_def)
next
  case (present xs a ys v)
  then have "k \<in> fst ` set l" by (auto simp: image_iff)
  with assms(2) show ?thesis by simp
qed

lemma pop_present:
  assumes "lru_rep c l" "k \<in> fst ` set l" "length l \<ge> 2"
  shows "\<exists>c'. pop_cache c (Some k) = Some (True, c') \<and> lru_rep c' (without k l) \<and>
    csize c' = csize c \<and> capacity c' = capacity c"
  using assms(1)
proof (cases rule: search_cases [of c l k])
  case absent
  with assms(2) show ?thesis by simp
next
  case (present xs a ys v)
  let ?i = "slot (capacity c) k"
  have cap: "0 < capacity c" "capacity c < 2 ^ 63" using assms(1) by (simp_all add: lru_rep_def)
  have len: "length (cmap c) = nat (capacity c)" using present(2) by (simp add: buckets_ok_def)
  have "xs @ ys \<noteq> []" using assms(3) present(3) by auto
  then obtain c1 where c1: "delete_node c a = Some c1" "list_ok c1 (xs @ ys)" "removed c a c1"
    using delete_node_ok [OF present(1)] by blast
  let ?c = "c1\<lparr>cmap := (cmap c)[?i := None]\<rparr>"
  have run: "pop_cache c (Some k) = Some (True, ?c)"
    using present c1(1,3) bucket_cell(2) [OF cap len, of k None] by (simp add: pop_cache_def removed_def)
  have d: "distinct (xs @ a # ys)" using present(1) by (simp add: list_ok_def)
  have same: "entry (heap c1) p = entry (heap c) p" if "p \<in> set (xs @ ys)" for p
    using c1(3) that d by (auto simp: removed_def)
  have slots: "slot (capacity c) (fst (entry (heap c) p)) \<noteq> ?i" if "p \<in> set (xs @ ys)" for p
  proof
    assume "slot (capacity c) (fst (entry (heap c) p)) = ?i"
    then have "Some p = Some a" using present(2,4) that unfolding buckets_ok_def by force
    with that d show False by auto
  qed
  have "buckets_ok ?c (xs @ ys)"
    unfolding buckets_ok_def
  proof (intro conjI allI impI ballI)
    show "length (cmap ?c) = nat (capacity ?c)" using len c1(3) by (simp add: removed_def)
  next
    fix i p assume i: "i < length (cmap ?c)" and p: "cmap ?c ! i = Some p"
    then have "i \<noteq> ?i" by auto
    with p have "i \<noteq> ?i" "cmap c ! i = Some p" by simp_all
    moreover from this have "p \<noteq> a" using present(2,4) i unfolding buckets_ok_def by force
    moreover from calculation have "p \<in> set (xs @ a # ys)" "slot (capacity c) (fst (entry (heap c) p)) = i"
      using present(2) i unfolding buckets_ok_def by auto
    ultimately show "p \<in> set (xs @ ys)" "slot (capacity ?c) (fst (entry (heap ?c) p)) = i"
      using c1(3) by (auto simp: removed_def)
  next
    fix p assume p: "p \<in> set (xs @ ys)"
    with slots [OF p] same [OF p] present(2) c1(3)
    show "cmap ?c ! slot (capacity ?c) (fst (entry (heap ?c) p)) = Some p"
      by (auto simp: buckets_ok_def removed_def nth_list_update)
  qed
  moreover have "list_ok ?c (xs @ ys)" using c1(2) by (simp add: list_ok_def)
  ultimately have "lru_rep ?c (map (entry (heap ?c)) (xs @ ys))"
    using c1(3) cap present(7) by (intro lru_repI) (auto simp: removed_def)
  moreover have "map (entry (heap ?c)) (xs @ ys) = without k l" using same present(6) by simp
  ultimately show ?thesis using run c1(3) by (auto simp: removed_def)
qed

lemma set_present:
  assumes "lru_rep c l" "k \<in> fst ` set l"
  shows "\<exists>c'. set_cache c (Some k) v = Some c' \<and> lru_rep c' ((k, v) # without k l) \<and>
    csize c' = csize c \<and> capacity c' = capacity c"
  using assms(1)
proof (cases rule: search_cases [of c l k])
  case absent
  with assms(2) show ?thesis by simp
next
  case (present xs a ys w)
  have cap: "0 < capacity c" "capacity c < 2 ^ 63" using assms(1) by (simp_all add: lru_rep_def)
  obtain n where n: "heap c a = Some n" using present(1) by (auto simp: list_ok_def seg_append)
  then have key: "nkey n = k" using present(4) by (simp add: entry_def)
  define c1 where "c1 = c\<lparr>heap := (heap c)(a \<mapsto> n\<lparr>nval := v\<rparr>)\<rparr>"
  have ent: "entry (heap c1) p = (if p = a then (k, v) else entry (heap c) p)" for p
    using n key by (simp add: c1_def entry_def)
  then have fst: "fst (entry (heap c1) p) = fst (entry (heap c) p)" for p
    using present(4) by simp
  have "list_ok c1 (xs @ a # ys)"
    using present(1) seg_set_value [of "heap c" None "xs @ a # ys" None a n v] n
    by (auto simp: list_ok_def c1_def)
  then obtain c' where c': "move_to_front c1 a = Some c'" "list_ok c' (a # xs @ ys)" "same_entries c1 c'"
    by (rule move_to_front_ok)
  have "buckets_ok c1 (xs @ a # ys)" using present(2) fst by (simp add: buckets_ok_def c1_def)
  then have "buckets_ok c' (a # xs @ ys)"
    using buckets_same [OF c'(3), of "a # xs @ ys" "xs @ a # ys"] by simp
  then have rep: "lru_rep c' (map (entry (heap c')) (a # xs @ ys))"
    using c'(2,3) cap present(7) by (intro lru_repI) (auto simp: same_entries_def c1_def)
  have "a \<notin> set (xs @ ys)" using present(1) by (auto simp: list_ok_def)
  then have "map (entry (heap c1)) (xs @ ys) = map (entry (heap c)) (xs @ ys)"
    by (intro map_cong refl) (auto simp: ent)
  then have "map (entry (heap c')) (a # xs @ ys) = (k, v) # without k l"
    using c'(3) present(6) ent by (simp add: same_entries_def)
  moreover have "set_cache c (Some k) v = Some c'"
    using present n c'(1) by (simp add: set_cache_def c1_def)
  ultimately show ?thesis using rep c'(3) by (auto simp: same_entries_def c1_def)
qed

lemma push_front_ok:
  assumes "list_ok c ps"
  obtains c' where "push_front c k v = Some (brk c, c')" "list_ok c' (brk c # ps)" "brk c \<notin> set ps"
    "\<And>p. entry (heap c') p = (if p = brk c then (k, v) else entry (heap c) p)"
    "cmap c' = cmap c" "capacity c' = capacity c" "csize c' = csize c + 1"
proof -
  let ?a = "brk c"
  define c0 where "c0 = c\<lparr>heap := (heap c)(?a \<mapsto> \<lparr>nkey = k, nval = v, prv = None, nxt = head c\<rparr>), brk := brk c + 1\<rparr>"
  have fresh: "heap c x = None" if "brk c \<le> x" for x using assms(1) that by (simp add: list_ok_def)
  have a: "?a \<notin> set ps"
    using seg_alloc [of "heap c" None ps None ?a] assms(1) fresh [of ?a] by (auto simp: list_ok_def)
  show thesis
  proof (cases ps)
    case Nil
    then show thesis
      using assms(1) a
      by (intro that [of "c0\<lparr>head := Some ?a, tail := Some ?a, csize := csize c + 1\<rparr>"])
        (auto simp: list_ok_def c0_def entry_def push_front_def Let_def)
  next
    case (Cons f fs)
    obtain n where n: "heap c f = Some n" "f < brk c"
      using assms(1) Cons fresh [of f] by (cases "f < brk c") (auto simp: list_ok_def)
    have fd: "f \<notin> set fs" "f \<noteq> ?a" using assms(1) a Cons by (auto simp: list_ok_def)
    let ?c = "c0\<lparr>heap := (heap c0)(f \<mapsto> n\<lparr>prv := Some ?a\<rparr>), head := Some ?a, csize := csize c + 1\<rparr>"
    have "push_front c k v = Some (?a, ?c)"
      using assms(1) Cons n fd by (simp add: push_front_def Let_def set_prv_def c0_def list_ok_def last_of_def)
    moreover have "list_ok ?c (?a # ps)"
      using assms(1) Cons n a fd fresh by (auto simp: list_ok_def c0_def last_of_def)
    ultimately show thesis
      using n a fd by (intro that [of ?c]) (auto simp: c0_def entry_def)
  qed
qed

lemma set_absent:
  assumes "lru_rep c l" "k \<notin> fst ` set l" "csize c < capacity c"
    and "\<And>k'. k' \<in> fst ` set l \<Longrightarrow> slot (capacity c) k' \<noteq> slot (capacity c) k"
  shows "\<exists>c'. set_cache c (Some k) v = Some c' \<and> lru_rep c' ((k, v) # l) \<and>
    csize c' = csize c + 1 \<and> capacity c' = capacity c"
  using assms(1)
proof (cases rule: search_cases [of c l k])
  case absent
  let ?i = "slot (capacity c) k" and ?a = "brk c"
  from assms(1) obtain ps where r: "0 < capacity c" "capacity c < 2 ^ 63" "list_ok c ps"
    "buckets_ok c ps" "l = map (entry (heap c)) ps" "int (length ps) \<le> csize c" "distinct ps"
    by (rule lru_repE)
  have len: "length (cmap c) = nat (capacity c)" "?i < length (cmap c)"
    using r(4) slot_range(1) [OF r(1,2)] by (simp_all add: buckets_ok_def)
  obtain c1 where c1: "push_front c k v = Some (?a, c1)" "list_ok c1 (?a # ps)"
    "\<And>p. entry (heap c1) p = (if p = ?a then (k, v) else entry (heap c) p)"
    "cmap c1 = cmap c" "capacity c1 = capacity c" "csize c1 = csize c + 1" "?a \<notin> set ps"
    using push_front_ok [OF r(3), of k v] by metis
  let ?c = "c1\<lparr>cmap := (cmap c)[?i := Some ?a]\<rparr>"
  have set: "array_set (cmap c) (int ?i) (Some ?a) = Some ((cmap c)[?i := Some ?a])"
    using bucket_cell(2) [OF r(1,2) len(1)] .
  have run: "set_cache c (Some k) v = Some ?c"
    using absent c1(1,4-6) set assms(3) by (simp add: set_cache_def evict_def)
  have lok: "list_ok ?c (?a # ps)" using c1(2) by (simp add: list_ok_def)
  have same: "entry (heap c1) p = entry (heap c) p" if "p \<in> set ps" for p
    using that c1(3,7) by auto
  have other: "slot (capacity c) (fst (entry (heap c) p)) \<noteq> ?i" if "p \<in> set ps" for p
    using assms(4) that r(5) by auto
  have bok: "buckets_ok ?c (?a # ps)"
    unfolding buckets_ok_def
  proof (intro conjI allI impI ballI)
    show "length (cmap ?c) = nat (capacity ?c)" using len c1(5) by simp
  next
    fix i p assume i: "i < length (cmap ?c)" and p: "cmap ?c ! i = Some p"
    have "p \<in> set (?a # ps) \<and> slot (capacity c) (fst (entry (heap c1) p)) = i"
    proof (cases "i = ?i")
      case True
      with p len have "p = ?a" by simp
      with True c1(3) show ?thesis by simp
    next
      case False
      with p i have "p \<in> set ps" "slot (capacity c) (fst (entry (heap c) p)) = i"
        using r(4) by (auto simp: buckets_ok_def)
      with same show ?thesis by simp
    qed
    then show "p \<in> set (?a # ps)" "slot (capacity ?c) (fst (entry (heap ?c) p)) = i"
      using c1(5) by auto
  next
    fix p assume p: "p \<in> set (?a # ps)"
    then consider "p = ?a" | "p \<in> set ps" "p \<noteq> ?a" using c1(7) by auto
    then show "cmap ?c ! slot (capacity ?c) (fst (entry (heap ?c) p)) = Some p"
    proof cases
      case 1
      then show ?thesis using c1(3,5) len by simp
    next
      case 2
      then show ?thesis using c1(5) same other [OF 2(1), symmetric] r(4) by (simp add: buckets_ok_def)
    qed
  qed
  have rep: "lru_rep ?c (map (entry (heap ?c)) (?a # ps))"
    using r(1,2,6) c1(5,6) by (intro lru_repI lok bok) simp_all
  have "map (entry (heap c1)) ps = map (entry (heap c)) ps" using same by simp
  then have "map (entry (heap ?c)) (?a # ps) = (k, v) # l" using c1(3) r(5) by simp
  with rep run c1(5,6) show ?thesis by (intro exI [of _ ?c]) simp
next
  case (present xs a ys w)
  then have "k \<in> fst ` set l" by (auto simp: image_iff)
  with assms(2) show ?thesis by simp
qed

section \<open>The interface\<close>

text \<open>
  What the file layer relies on: a lookup returns what was stored last, storing and removing
  concern one key only. \<open>room\<close> says when a new key may be stored, \<open>spare\<close> when an entry may
  be removed.
\<close>

locale recency_cache =
  fixes rep :: "'c \<Rightarrow> (string \<times> int) list \<Rightarrow> bool"
    and get :: "'c \<Rightarrow> string option \<Rightarrow> (int \<times> 'c) option"
    and put :: "'c \<Rightarrow> string option \<Rightarrow> int \<Rightarrow> 'c option"
    and del :: "'c \<Rightarrow> string option \<Rightarrow> (bool \<times> 'c) option"
    and room :: "'c \<Rightarrow> (string \<times> int) list \<Rightarrow> string \<Rightarrow> bool"
  assumes get_hit: "rep c l \<Longrightarrow> map_of l k = Some v \<Longrightarrow>
      \<exists>c'. get c (Some k) = Some (v, c') \<and> rep c' ((k, v) # without k l)"
    and get_miss: "rep c l \<Longrightarrow> k \<notin> fst ` set l \<Longrightarrow> get c (Some k) = Some (-1, c)"
    and put_hit: "rep c l \<Longrightarrow> k \<in> fst ` set l \<Longrightarrow>
      \<exists>c'. put c (Some k) v = Some c' \<and> rep c' ((k, v) # without k l)"
    and put_new: "rep c l \<Longrightarrow> k \<notin> fst ` set l \<Longrightarrow> room c l k \<Longrightarrow>
      \<exists>c'. put c (Some k) v = Some c' \<and> rep c' ((k, v) # l)"
    and del_hit: "rep c l \<Longrightarrow> k \<in> fst ` set l \<Longrightarrow> 2 \<le> length l \<Longrightarrow>
      \<exists>c'. del c (Some k) = Some (True, c') \<and> rep c' (without k l)"
    and del_miss: "rep c l \<Longrightarrow> k \<notin> fst ` set l \<Longrightarrow> del c (Some k) = Some (False, c)"
begin

lemma without_absent: "k \<notin> fst ` set l \<Longrightarrow> without k l = l"
  by (auto simp: without_def intro!: filter_True)

lemma map_of_without: "map_of (without k l) k' = (if k' = k then None else map_of l k')"
  by (induction l) (auto simp: without_def)

lemma get_total:
  assumes "rep c l"
  shows "\<exists>c'. get c (Some k) = Some (case map_of l k of None \<Rightarrow> -1 | Some v \<Rightarrow> v, c') \<and>
    rep c' (case map_of l k of None \<Rightarrow> l | Some v \<Rightarrow> (k, v) # without k l)"
proof (cases "map_of l k")
  case None
  then have "k \<notin> fst ` set l" by (simp add: map_of_eq_None_iff)
  with None assms get_miss show ?thesis by simp
next
  case (Some v)
  with get_hit [OF assms Some] show ?thesis by simp
qed

lemma put_total:
  assumes "rep c l" "k \<in> fst ` set l \<or> room c l k"
  shows "\<exists>c'. put c (Some k) v = Some c' \<and> rep c' ((k, v) # without k l)"
proof (cases "k \<in> fst ` set l")
  case True
  with put_hit [OF assms(1)] show ?thesis by blast
next
  case False
  with put_new [OF assms(1) False, of v] assms(2) show ?thesis by (simp add: without_absent)
qed

lemma put_get:
  assumes "rep c l" "k \<in> fst ` set l \<or> room c l k"
  shows "\<exists>c1 c2. put c (Some k) v = Some c1 \<and>
    get c1 (Some k') = Some (case ((map_of l)(k \<mapsto> v)) k' of None \<Rightarrow> -1 | Some v \<Rightarrow> v, c2)"
proof -
  from put_total [OF assms] obtain c1 where
    c1: "put c (Some k) v = Some c1" "rep c1 ((k, v) # without k l)" by blast
  from get_total [OF c1(2), of k'] c1(1) show ?thesis
    by (auto simp: map_of_without split: if_splits)
qed

lemma del_get:
  assumes "rep c l" "k \<in> fst ` set l \<longrightarrow> 2 \<le> length l"
  shows "\<exists>c1 c2. del c (Some k) = Some (k \<in> fst ` set l, c1) \<and>
    get c1 (Some k') = Some (case ((map_of l)(k := None)) k' of None \<Rightarrow> -1 | Some v \<Rightarrow> v, c2)"
proof -
  obtain c1 where c1: "del c (Some k) = Some (k \<in> fst ` set l, c1)" "rep c1 (without k l)"
    using del_hit [OF assms(1)] del_miss [OF assms(1)] assms without_absent
    by (cases "k \<in> fst ` set l") force+
  from get_total [OF c1(2), of k'] c1(1) show ?thesis
    by (auto simp: map_of_without split: if_splits)
qed

end

definition has_room :: "lru_cache \<Rightarrow> (string \<times> int) list \<Rightarrow> string \<Rightarrow> bool" where
  "has_room c l k \<longleftrightarrow> csize c < capacity c \<and>
     (\<forall>e \<in> set l. slot (capacity c) (fst e) \<noteq> slot (capacity c) k)"

interpretation path_cache: recency_cache lru_rep get_cache set_cache pop_cache has_room
proof unfold_locales
  fix c :: lru_cache and l :: "(string \<times> int) list" and k v
  show "lru_rep c l \<Longrightarrow> map_of l k = Some v \<Longrightarrow>
      \<exists>c'. get_cache c (Some k) = Some (v, c') \<and> lru_rep c' ((k, v) # without k l)"
    using get_present by blast
  show "lru_rep c l \<Longrightarrow> k \<notin> fst ` set l \<Longrightarrow> get_cache c (Some k) = Some (- 1, c)"
    by (rule get_absent)
  show "lru_rep c l \<Longrightarrow> k \<in> fst ` set l \<Longrightarrow>
      \<exists>c'. set_cache c (Some k) v = Some c' \<and> lru_rep c' ((k, v) # without k l)"
    using set_present by blast
  show "lru_rep c l \<Longrightarrow> k \<notin> fst ` set l \<Longrightarrow> has_room c l k \<Longrightarrow>
      \<exists>c'. set_cache c (Some k) v = Some c' \<and> lru_rep c' ((k, v) # l)"
    using set_absent [of c l k v] by (fastforce simp: has_room_def)
  show "lru_rep c l \<Longrightarrow> k \<in> fst ` set l \<Longrightarrow> 2 \<le> length l \<Longrightarrow>
      \<exists>c'. pop_cache c (Some k) = Some (True, c') \<and> lru_rep c' (without k l)"
    using pop_present by blast
  show "lru_rep c l \<Longrightarrow> k \<notin> fst ` set l \<Longrightarrow> pop_cache c (Some k) = Some (False, c)"
    by (rule pop_absent)
qed

section \<open>Outside the contract\<close>

lemma rep_create:
  "0 < cap \<Longrightarrow> cap < 2 ^ 63 \<Longrightarrow> \<forall>a \<ge> brk c. heap c a = None \<Longrightarrow> lru_rep (create_cache c cap) []"
  unfolding lru_rep_def
  by (intro conjI exI [of _ "[]"])
    (auto simp: create_cache_def list_ok_def buckets_ok_def)




text \<open>
  A key stored in the bucket of another one is found in its place; the other is reached through
  it, until it goes and clears the bucket.
\<close>

lemma pop_collision:
  assumes "lru_rep c l" "k \<in> fst ` set l" "d \<notin> fst ` set l" "slot (capacity c) d = slot (capacity c) k"
    and "csize c < capacity c"
  shows "\<exists>c1 c2. set_cache c (Some d) v = Some c1 \<and> pop_cache c1 (Some d) = Some (True, c2) \<and>
    get_cache c2 (Some k) = Some (-1, c2)"
  using assms(1)
proof (cases rule: search_cases [of c l d])
  case absent
  let ?i = "slot (capacity c) d" and ?a = "brk c"
  from assms(1) obtain ps where r: "0 < capacity c" "capacity c < 2 ^ 63" "list_ok c ps"
    "buckets_ok c ps" "l = map (entry (heap c)) ps" "int (length ps) \<le> csize c" "distinct ps"
    by (rule lru_repE)
  have len: "length (cmap c) = nat (capacity c)" "?i < length (cmap c)"
    using r(4) slot_range(1) [OF r(1,2)] by (simp_all add: buckets_ok_def)
  obtain c0 where c0: "push_front c d v = Some (?a, c0)" "list_ok c0 (?a # ps)"
    "\<And>p. entry (heap c0) p = (if p = ?a then (d, v) else entry (heap c) p)"
    "cmap c0 = cmap c" "capacity c0 = capacity c" "csize c0 = csize c + 1"
    using push_front_ok [OF r(3), of d v] by metis
  define c1 where "c1 = c0\<lparr>cmap := (cmap c)[?i := Some ?a]\<rparr>"
  have set: "set_cache c (Some d) v = Some c1"
    using absent c0 assms(5) bucket_cell(2) [OF r(1,2) len(1), of d "Some ?a"]
    by (simp add: set_cache_def evict_def c1_def)
  have bkt: "bucket x k' = Some (int (slot (capacity c) k'))" if "capacity x = capacity c" for x k'
    using bucket_slot [of x k'] r(1,2) that by simp
  have cap: "capacity c1 = capacity c" "length (cmap c1) = nat (capacity c)" using c0(5) len(1) by (simp_all add: c1_def)
  have "\<exists>n. heap c1 ?a = Some n" "list_ok c1 ([] @ ?a # ps)" using c0(2) by (auto simp: list_ok_def c1_def)
  moreover have "fst (entry (heap c1) ?a) = d" using c0(3) by (simp add: c1_def)
  ultimately have f: "find_node (heap c1) (Some ?a) d = Some (Some ?a)"
    by (subst find_node.simps) (auto simp: entry_def)
  have "[] @ ps \<noteq> []" using assms(2) r(5) by auto
  then obtain c2 where c2: "delete_node c1 ?a = Some c2" "removed c1 ?a c2"
    using delete_node_ok [OF \<open>list_ok c1 ([] @ ?a # ps)\<close>] by metis
  define c' where "c' = c2\<lparr>cmap := (cmap c)[?i := None]\<rparr>"
  have pop: "pop_cache c1 (Some d) = Some (True, c')"
    using f c2 len r(1) cap bkt [OF cap(1)]
    by (simp add: pop_cache_def c'_def removed_def c1_def array_get_def array_set_def)
  have "find_node hp None k = Some None" for hp by (subst find_node.simps) simp
  then have "get_cache c' (Some k) = Some (-1, c')"
    using bkt [of c' k] len r(1) c2(2) cap(1) assms(4) by (simp add: get_cache_def c'_def removed_def array_get_def)
  with set pop show ?thesis by blast
next
  case (present xs a ys w)
  then have "d \<in> fst ` set l" by (auto simp: image_iff)
  with assms(3) show ?thesis by simp
qed

text \<open>
  An eviction frees the last node but leaves its bucket pointing at it, unless the new key takes
  that bucket.
\<close>

lemma eviction_dangles:
  assumes "lru_rep c l" "l \<noteq> []" "k \<notin> fst ` set l" "csize c = capacity c"
  shows "\<exists>c'. set_cache c (Some k) v = Some c' \<and> get_cache c' (Some (fst (last l))) =
    (if slot (capacity c) k = slot (capacity c) (fst (last l)) then Some (-1, c') else None)"
  using assms(1)
proof (cases rule: search_cases [of c l k])
  case absent
  let ?i = "slot (capacity c) k" and ?a = "brk c"
  from assms(1) obtain ps where r: "0 < capacity c" "capacity c < 2 ^ 63" "list_ok c ps"
    "buckets_ok c ps" "l = map (entry (heap c)) ps" "int (length ps) \<le> csize c" "distinct ps"
    by (rule lru_repE)
  obtain qs t where ps: "ps = qs @ [t]" using assms(2) r(5) by (cases ps rule: rev_cases) auto
  let ?j = "slot (capacity c) (fst (entry (heap c) t))"
  have last: "fst (last l) = fst (entry (heap c) t)" using r(5) ps by simp
  have len: "length (cmap c) = nat (capacity c)" "?i < length (cmap c)" "?j < length (cmap c)"
    using r(4) slot_range(1) [OF r(1,2)] by (simp_all add: buckets_ok_def)
  have cell: "cmap c ! ?j = Some t" using r(4) ps by (simp add: buckets_ok_def)
  obtain c1 where c1: "push_front c k v = Some (?a, c1)" "list_ok c1 (?a # ps)"
    "cmap c1 = cmap c" "capacity c1 = capacity c" "csize c1 = csize c + 1"
    "\<And>p. entry (heap c1) p = (if p = ?a then (k, v) else entry (heap c) p)"
    using push_front_ok [OF r(3), of k v] by metis
  then have "list_ok c1 ((?a # qs) @ t # [])" "tail c1 = Some t" using ps by (auto simp: list_ok_def last_of_def)
  then obtain c2 where c2: "delete_node c1 t = Some c2" "removed c1 t c2" "list_ok c2 (?a # qs)"
    using delete_node_ok [of c1 "?a # qs" t "[]"] by auto
  define c' where "c' = c2\<lparr>csize := csize c2 - 1, cmap := (cmap c)[?i := Some ?a]\<rparr>"
  have "set_cache c (Some k) v = Some c'"
    using absent c1 c2 assms(4) \<open>tail c1 = Some t\<close> bucket_cell(2) [OF r(1,2) len(1), of k "Some ?a"]
    by (simp add: set_cache_def evict_def removed_def c'_def)
  moreover have "get_cache c' (Some (fst (last l))) = None" if "?i \<noteq> ?j"
  proof -
    have "find_node (heap c') (Some t) x = None" for x
      using c2(2) by (subst find_node.simps) (simp add: c'_def removed_def)
    then show ?thesis using cell len last that bucket_slot [of c' "fst (last l)"] r(1,2) c1(4) c2(2)
      by (simp add: get_cache_def c'_def removed_def array_get_def)
  qed
  moreover have "get_cache c' (Some (fst (last l))) = Some (-1, c')" if "?i = ?j"
  proof -
    have "fst (last l) \<in> fst ` set l" using assms(2) by simp
    then have new: "k \<noteq> fst (last l)" using assms(3) by auto
    have e: "entry (heap c') p = entry (heap c1) p" if "p \<noteq> t" for p using c2(2) that by (simp add: c'_def removed_def)
    have "fst (entry (heap c') p) \<noteq> fst (last l)" if p: "p \<in> set (?a # qs)" for p
    proof -
      have t: "t \<notin> set (?a # qs)" "?a \<notin> set qs" using \<open>list_ok c1 ((?a # qs) @ t # [])\<close> by (auto simp: list_ok_def)
      then have "p \<noteq> t" using p by auto
      show ?thesis
      proof (cases "p = ?a")
        case True
        then show ?thesis using e [OF \<open>p \<noteq> t\<close>] c1(6) new by simp
      next
        case False
        then have "p \<in> set ps" "t \<in> set ps" using p ps by auto
        then have "fst (entry (heap c) p) \<noteq> fst (entry (heap c) t)" using key_unique [OF r(4)] \<open>p \<noteq> t\<close> by blast
        then show ?thesis using e [OF \<open>p \<noteq> t\<close>] c1(6) False last by simp
      qed
    qed
    then have "find (\<lambda>p. fst (entry (heap c') p) = fst (last l)) (?a # qs) = None"
      by (simp only: find_None_iff) blast
    moreover have "seg (heap c') None (?a # qs) None" using c2(3) by (simp add: list_ok_def c'_def)
    ultimately have "find_node (heap c') (Some ?a) (fst (last l)) = Some None"
      using find_node_seg [of "heap c'" None "?a # qs" "fst (last l)"] by simp
    then show ?thesis using len last that bucket_slot [of c' "fst (last l)"] r(1,2) c1(4) c2(2)
      by (simp add: get_cache_def c'_def removed_def array_get_def)
  qed
  ultimately show ?thesis using last by (intro exI [of _ c']) simp
next
  case (present xs a ys w)
  then have "k \<in> fst ` set l" by (auto simp: image_iff)
  with assms(3) show ?thesis by simp
qed

section \<open>A small cache for closed examples\<close>

definition empty_cache :: lru_cache where
  "empty_cache = create_cache \<lparr>head = None, tail = None, csize = 0, capacity = 0, cmap = [],
     heap = (\<lambda>_. None), brk = 0\<rparr> 3"

lemma empty_cache_rep: "lru_rep empty_cache []" "capacity empty_cache = 3" "csize empty_cache = 0"
  unfolding empty_cache_def by (rule rep_create; simp) (simp_all add: create_cache_def)

lemma sample_slots: "slot 3 ''A'' = 2" "slot 3 ''B'' = 0" "slot 3 ''C'' = 1" "slot 3 ''D'' = 2"
  by code_simp+

lemma two_entries:
  "\<exists>c. lru_rep c [(''B'', 2), (''A'', 1)] \<and> capacity c = 3 \<and> csize c = 2"
proof -
  obtain c1 where c1: "lru_rep c1 [(''A'', 1)]" "csize c1 = 1" "capacity c1 = 3"
    using set_absent [OF empty_cache_rep(1), of "''A''" 1] empty_cache_rep(2,3) by auto
  show ?thesis using set_absent [OF c1(1), of "''B''" 2] c1(2,3) sample_slots by auto
qed

section \<open>Properties\<close>

text \<open>
  C27: a lookup returns the value stored under the key, or -1 when there is none, and makes
  the key the most recently used one; nothing else changes.
\<close>

theorem get_cache_follows_the_recency_list:
  assumes "lru_rep c l"
  shows "\<exists>c'. get_cache c (Some k) = Some (case map_of l k of None \<Rightarrow> -1 | Some v \<Rightarrow> v, c') \<and>
    lru_rep c' (case map_of l k of None \<Rightarrow> l | Some v \<Rightarrow> (k, v) # without k l)"
  using assms by (rule path_cache.get_total)

theorem get_cache_follows_the_recency_list_witness:
  "\<exists>c c'. lru_rep c [(''B'', 2), (''A'', 1)] \<and> get_cache c (Some ''A'') = Some (1, c') \<and>
    lru_rep c' [(''A'', 1), (''B'', 2)]"
proof -
  obtain c where c: "lru_rep c [(''B'', 2), (''A'', 1)]" using two_entries by blast
  from get_cache_follows_the_recency_list [OF c, of "''A''"] c show ?thesis
    by (auto simp: without_def)
qed

text \<open>
  C28: storing a value under a key that is cached, or under a new key while the cache is not
  full and the key's bucket is not in use, puts the pair in front and keeps the other pairs.
\<close>

theorem set_cache_stores_in_front:
  assumes "lru_rep c l" "k \<in> fst ` set l \<or> has_room c l k"
  shows "\<exists>c'. set_cache c (Some k) v = Some c' \<and> lru_rep c' ((k, v) # without k l)"
  using assms by (rule path_cache.put_total)

theorem set_cache_stores_in_front_witness:
  "\<exists>c c'. lru_rep c [(''B'', 2), (''A'', 1)] \<and> set_cache c (Some ''A'') 7 = Some c' \<and>
    lru_rep c' [(''A'', 7), (''B'', 2)]"
proof -
  obtain c where c: "lru_rep c [(''B'', 2), (''A'', 1)]" using two_entries by blast
  from set_cache_stores_in_front [OF c, of "''A''" 7] c show ?thesis
    by (auto simp: without_def)
qed

text \<open>
  C29: in a cache no two keys of which share a bucket (a part of \<open>lru_rep\<close>), after the removal of
  a key that is not the only one cached, the key is not found any more and every other key is
  found as before. Where a second key is stored in the bucket of a cached one, the removal of the
  second makes the first unreachable too.
\<close>

theorem pop_cache_removes_the_key:
  assumes "lru_rep c l" "k \<in> fst ` set l \<longrightarrow> 2 \<le> length l"
  shows "(\<exists>c1 c2. pop_cache c (Some k) = Some (k \<in> fst ` set l, c1) \<and>
      get_cache c1 (Some k') = Some (case ((map_of l)(k := None)) k' of None \<Rightarrow> -1 | Some v \<Rightarrow> v, c2)) \<and>
    (k' \<in> fst ` set l \<longrightarrow> k \<notin> fst ` set l \<longrightarrow> slot (capacity c) k = slot (capacity c) k' \<longrightarrow>
      csize c < capacity c \<longrightarrow> (\<exists>c1 c2. set_cache c (Some k) v = Some c1 \<and>
        pop_cache c1 (Some k) = Some (True, c2) \<and> get_cache c2 (Some k') = Some (-1, c2)))"
  using path_cache.del_get [OF assms] pop_collision [OF assms(1)] by blast

theorem pop_cache_removes_the_key_witness:
  "\<exists>c c1 c2. lru_rep c [(''B'', 2), (''A'', 1)] \<and> pop_cache c (Some ''B'') = Some (True, c1) \<and>
    get_cache c1 (Some ''B'') = Some (-1, c2) \<and>
    (\<exists>c3 c4. set_cache c (Some ''D'') 4 = Some c3 \<and> pop_cache c3 (Some ''D'') = Some (True, c4) \<and>
      get_cache c4 (Some ''A'') = Some (-1, c4))"
proof -
  obtain c where c: "lru_rep c [(''B'', 2), (''A'', 1)]" "capacity c = 3" "csize c = 2" using two_entries by blast
  from pop_cache_removes_the_key [OF c(1), of "''B''" "''B''"]
    pop_cache_removes_the_key [OF c(1), of "''D''" "''A''" 4] c sample_slots show ?thesis by auto
qed



text \<open>
  C35: when the cache counts as full, storing a new key frees the least recently used node
  without clearing the bucket that points at it. Where the new key takes that bucket, a lookup
  of the evicted key reports -1; where it lies in another bucket, the lookup reads freed memory.
\<close>

theorem eviction_leaves_a_dangling_pointer:
  assumes "lru_rep c l" "l \<noteq> []" "k \<notin> fst ` set l" "csize c = capacity c"
  shows "\<exists>c'. set_cache c (Some k) v = Some c' \<and> get_cache c' (Some (fst (last l))) =
    (if slot (capacity c) k = slot (capacity c) (fst (last l)) then Some (-1, c') else None)"
  using assms by (rule eviction_dangles)

theorem eviction_leaves_a_dangling_pointer_witness:
  "\<exists>c c'. lru_rep c [(''C'', 3), (''B'', 2), (''A'', 1)] \<and> set_cache c (Some ''E'') 5 = Some c' \<and>
    get_cache c' (Some ''A'') = None \<and>
    (\<exists>c''. set_cache c (Some ''D'') 4 = Some c'' \<and> get_cache c'' (Some ''A'') = Some (-1, c''))"
proof -
  obtain c2 where c2: "lru_rep c2 [(''B'', 2), (''A'', 1)]" "capacity c2 = 3" "csize c2 = 2"
    using two_entries by blast
  have "slot (capacity c2) k' \<noteq> slot (capacity c2) ''C''" if "k' \<in> fst ` set [(''B'', 2 :: int), (''A'', 1)]" for k'
    using that c2(2) sample_slots by auto
  then obtain c where c: "lru_rep c [(''C'', 3), (''B'', 2), (''A'', 1)]" "csize c = 3" "capacity c = 3"
    using set_absent [OF c2(1), of "''C''" 3] c2(2,3) by auto
  have "slot 3 ''E'' = 0" by code_simp
  then show ?thesis
    using eviction_leaves_a_dangling_pointer [OF c(1), of "''E''" 5]
      eviction_leaves_a_dangling_pointer [OF c(1), of "''D''" 4] c sample_slots by auto
qed

end
