(* ===== verification/FileData.thy ===== *)
theory FileData
  imports FileLayer FileBlocks LruSpec
begin

text \<open>
  Reading and writing files (\<open>custom_read\<close> and \<open>custom_write\<close> of \<open>lib/file_layer.c\<close>).
  The abstraction of a file is \<open>file_byte\<close>, its bytes by position, read through the block map
  of \<open>FileBlocks\<close>. The lemmas go bottom up: copying between a caller's buffer and a block,
  the loop over the blocks, growing the file, and the two operations as a whole.
\<close>

definition file_byte :: "'a disk_scheme \<Rightarrow> iNode \<Rightarrow> int \<Rightarrow> byte" where
  "file_byte s i x = blocks s (fblk (blocks s) i (x div 4096)) (x mod 4096)"

text \<open>The bytes from position \<open>a\<close> on, \<open>n\<close> of them.\<close>

definition file_bytes :: "'a disk_scheme \<Rightarrow> iNode \<Rightarrow> int \<Rightarrow> int \<Rightarrow> byte list" where
  "file_bytes s i a n = map (\<lambda>k. file_byte s i (a + int k)) [0..<nat n]"

text \<open>What the operations keep of the size: it ends within the blocks of the file.\<close>

definition size_ok :: "iNode \<Rightarrow> bool" where
  "size_ok i \<longleftrightarrow> 0 \<le> file_size i \<and> (file_size i = 0 \<or> file_size i < num_blocks i * 4096)"

lemma u64_id: "0 \<le> v \<Longrightarrow> v < 2 ^ 64 \<Longrightarrow> u64 v = v"
  by (simp add: u64_def)

lemma s64_id: "in_s64 v \<Longrightarrow> s64 v = v"
  using s64_of_mod [of v] by (simp add: s64_def)

lemma wf_file_bytes: "wf_file s i \<Longrightarrow> num_blocks i * 4096 \<le> 235929 * 4096"
  using wf_file_size [of s i] by simp

section \<open>The cache field\<close>

lemma with_cache [simp]:
  "fl_inv (s\<lparr>iname_cache := c\<rparr>) = fl_inv s" "free_set (s\<lparr>iname_cache := c\<rparr>) = free_set s"
  "sb_ok (s\<lparr>iname_cache := c\<rparr>) = sb_ok s" "wf_file (s\<lparr>iname_cache := c\<rparr>) i = wf_file s i"
  "inode_at (s\<lparr>iname_cache := c\<rparr>) n = inode_at s n" "file_byte (s\<lparr>iname_cache := c\<rparr>) i x = file_byte s i x"
  "file_bytes (s\<lparr>iname_cache := c\<rparr>) i a n = file_bytes s i a n"
  by (simp_all add: fl_inv_def free_set_def sb_ok_def wf_file_def inode_at_def file_byte_def
      file_bytes_def healthy_def device_works_def)

text \<open>Path lookup changes nothing but the cache.\<close>

lemma cache_get_frame: "cache_get s p = Some (v, s') \<Longrightarrow> \<exists>c. s' = s\<lparr>iname_cache := c\<rparr>"
  by (auto simp: cache_get_def bind_eq_Some_conv)

lemma cache_set_frame: "cache_set s p v = Some s' \<Longrightarrow> \<exists>c. s' = s\<lparr>iname_cache := c\<rparr>"
  by (auto simp: cache_set_def bind_eq_Some_conv)

lemma path_lookup_frame:
  "get_inode_num_from_path s path = Some (n, s') \<Longrightarrow> \<exists>c. s' = s\<lparr>iname_cache := c\<rparr>"
proof (induction s path arbitrary: n s' rule: get_inode_num_from_path.induct)
  case (1 s path)
  have same: "\<exists>c. s = s\<lparr>iname_cache := c\<rparr>" by (rule exI [of _ "iname_cache s"]) simp
  show ?case
  proof (cases "path = ''/''")
    case True
    with 1(2) same show ?thesis by (subst (asm) get_inode_num_from_path.simps) auto
  next
    case False
    from 1(2) False obtain v t where t: "cache_get s path = Some (v, t)"
      by (subst (asm) get_inode_num_from_path.simps) (auto simp: bind_eq_Some_conv Let_def)
    then obtain c where c: "t = s\<lparr>iname_cache := c\<rparr>" using cache_get_frame by blast
    show ?thesis
    proof (cases "v > 0 \<or> get_parent_path path (int (length path)) = None")
      case True
      with 1(2) False t c show ?thesis
        by (subst (asm) get_inode_num_from_path.simps) (auto simp: Let_def split: if_splits)
    next
      case F: False
      then obtain q where q: "get_parent_path path (int (length path)) = Some q" "\<not> v > 0" by auto
      from 1(2) False t q obtain m u where u: "get_inode_num_from_path t q = Some (m, u)"
        by (subst (asm) get_inode_num_from_path.simps) (auto simp: bind_eq_Some_conv Let_def)
      have "\<exists>c. u = t\<lparr>iname_cache := c\<rparr>"
        by (rule 1(1) [OF refl False _ _ _ _ u]) (use t q in auto)
      then obtain c' where c': "u = s\<lparr>iname_cache := c'\<rparr>" using c by auto
      from 1(2) False t q u have "s' = u \<or> (\<exists>v. cache_set u path v = Some s')"
        by (subst (asm) get_inode_num_from_path.simps)
          (auto simp: bind_eq_Some_conv Let_def split: if_splits option.splits)
      with c' show ?thesis using cache_set_frame [of u path _ s'] by auto
    qed
  qed
qed

text \<open>A path that is cached is found there, and stays cached.\<close>

lemma cached_lookup:
  assumes "lru_rep (iname_cache s) l" "map_of l path = Some n" "0 < n" "path \<noteq> ''/''"
  obtains c where "get_inode_num_from_path s path = Some (n, s\<lparr>iname_cache := c\<rparr>)"
    "lru_rep c ((path, n) # without path l)"
proof -
  from path_cache.get_hit [OF assms(1,2)] obtain c where
    c: "get_cache (iname_cache s) (Some path) = Some (n, c)" "lru_rep c ((path, n) # without path l)"
    by blast
  then have "get_inode_num_from_path s path = Some (n, s\<lparr>iname_cache := c\<rparr>)"
    using assms(3,4) by (subst get_inode_num_from_path.simps) (simp add: cache_get_def)
  with c(2) show thesis by (rule that [rotated])
qed

section \<open>Reading\<close>

lemma copy_out_step:
  assumes "buff = map f [0..<nat p] @ drop (nat p) old" "0 \<le> p" "0 \<le> n" "p + n \<le> int (length old)"
    and "in_block q n" "\<And>j. j < nat n \<Longrightarrow> f (nat p + j) = b (q + int j)"
  shows "copy_out buff p b q n = Some (map f [0..<nat (p + n)] @ drop (nat (p + n)) old)"
proof -
  have len: "length buff = length old" using assms(1-4) by simp
  have "[0..<nat (p + n)] = [0..<nat p] @ map (\<lambda>j. j + nat p) [0..<nat n]"
    using upt_add_eq_append [of 0 "nat p" "nat n"] assms(2,3)
    by (simp add: nat_add_distrib map_add_upt add.commute)
  moreover have "map (f \<circ> (\<lambda>j. j + nat p)) [0..<nat n] = map (\<lambda>j. b (q + int j)) [0..<nat n]"
    using assms(6) by (intro map_cong) (auto simp: add.commute)
  moreover have "take (nat p) buff = map f [0..<nat p]" using assms(1) by simp
  moreover have "drop (nat (p + n)) buff = drop (nat (p + n)) old"
    using assms(1-3) by (simp add: nat_add_distrib add.commute)
  ultimately show ?thesis using assms(2-5) len by (simp add: copy_out_def)
qed

lemma file_byte_at:
  "0 \<le> r \<Longrightarrow> r < 4096 \<Longrightarrow> file_byte s i (4096 * k + r) = blocks s (fblk (blocks s) i k) r"
  by (simp add: file_byte_def)

text \<open>The data block behind position \<open>4096 * k\<close>, as both loops fetch it.\<close>

lemma fetch_block:
  assumes "healthy s" "wf_file s i" "0 \<le> k" "k < num_blocks i"
  shows "fblock_num_to_dblock_num s i k = Some (fblk (blocks s) i k)" "0 < fblk (blocks s) i k"
    "read_dblock s (fblk (blocks s) i k) = Some (blocks s (fblk (blocks s) i k))"
  using fblock_lookup [OF assms] wf_file_fblk [OF assms(2-4)] assms(1) data_block_pos
  by (auto simp: read_dblock_healthy)

text \<open>
  A range of positions, cut into blocks as both operations cut it: what block \<open>j\<close> of the
  range contributes.
\<close>

lemma range_cut:
  fixes a n :: int
  assumes "0 \<le> a" "0 \<le> n"
  defines "lo \<equiv> a div 4096" and "t \<equiv> a mod 4096" and "hi \<equiv> (a + n) div 4096" and "m \<equiv> (a + n) mod 4096"
  shows "a = 4096 * lo + t" "a + n = 4096 * hi + m" "0 \<le> t" "t < 4096" "0 \<le> m" "m < 4096"
    "0 \<le> lo" "lo \<le> hi"
  using assms by (auto simp: zdiv_mono1 pos_imp_zdiv_nonneg_iff)

lemma read_blocks_ok:
  assumes s: "healthy s" "wf_file s i" and "0 \<le> a" "0 \<le> n" "a + n < 2 ^ 64"
    and "(a + n) div 4096 < num_blocks i" "n \<le> int (length buff)"
  shows "read_blocks s i buff n a = Some (Inl (file_bytes s i a n @ drop (nat n) buff, n))"
proof -
  define lo where "lo = a div 4096"
  define t where "t = a mod 4096"
  define hi where "hi = (a + n) div 4096"
  define m where "m = (a + n) mod 4096"
  note cut = range_cut [OF assms(3,4), folded lo_def t_def hi_def m_def]
  define f where "f = (\<lambda>k. file_byte s i (a + int k))"
  have f: "f (nat p + j) = blocks s (fblk (blocks s) i (lo + k)) (q + int j)"
    if "0 \<le> p" "t + p = 4096 * k + q" "0 \<le> q" "q + int j < 4096" for p k q j
  proof -
    have "a + int (nat p + j) = 4096 * (lo + k) + (q + int j)" using that(1,2) cut(1) by simp
    then show ?thesis unfolding f_def using file_byte_at [of "q + int j" s i "lo + k"] that(3,4)
      by (simp only:)
  qed
  have nb: "lo + k < num_blocks i" "0 \<le> lo + k" if "0 \<le> k" "k \<le> hi - lo" for k
    using that assms(6) cut by (auto simp: hi_def)
  have u: "u64 (a + n) = a + n" using assms(3-5) by (simp add: u64_id)
  have result: "file_bytes s i a n = map f [0..<nat n]" by (simp add: file_bytes_def f_def)
  show ?thesis
  proof (cases "lo = hi")
    case True
    then have "t + n < 4096" using cut by simp
    then have "copy_out buff 0 (blocks s (fblk (blocks s) i lo)) t n = Some (map f [0..<nat n] @ drop (nat n) buff)"
      using copy_out_step [of buff f 0 buff n t "blocks s (fblk (blocks s) i lo)"] f [of 0 0 t] cut assms(4,7)
      by (simp add: in_block_def geometry)
    moreover have "fblock_num_to_dblock_num s i lo = Some (fblk (blocks s) i lo)" "0 < fblk (blocks s) i lo"
      "read_dblock s (fblk (blocks s) i lo) = Some (blocks s (fblk (blocks s) i lo))"
      using fetch_block [OF s, of lo] nb [of 0] True by auto
    ultimately show ?thesis
      using True by (simp add: read_blocks_def Let_def u BLOCK_SIZE_val lo_def [symmetric]
          hi_def [symmetric] t_def [symmetric] result)
  next
    case False
    let ?N = "hi - lo + 1"
    let ?br = "\<lambda>j. if j = 0 then 0 else if j = ?N then n else 4096 * j - t"
    let ?I = "\<lambda>j (b, br). br = ?br j \<and> b = map f [0..<nat br] @ drop (nat br) buff"
    have N: "2 \<le> ?N" using False cut by simp
    have mt: "n = 4096 * (hi - lo) + m - t" using cut by simp
    have "\<exists>x. for_loop 0 ?N (read_step s i lo t (4096 - m) ?N) (buff, 0) = Some (Inl x) \<and> ?I ?N x"
    proof (rule for_loop_total [where I = ?I])
      show "?I 0 (buff, 0)" by simp
    next
      fix j x
      assume j: "0 \<le> j" "j < ?N" and I: "?I j x"
      obtain b br where x: "x = (b, br)" by (cases x)
      have j': "j \<le> hi - lo" using j by simp
      note F = fetch_block [OF s nb(2) nb(1), OF j(1) j' j(1) j']
      define q where "q = (if j = 0 then t else 0)"
      define w where "w = (if j = 0 then 4096 - t else if j = hi - lo then m else 4096)"
      have br: "0 \<le> br" "t + br = 4096 * j + q" and w: "0 \<le> w" "q + w \<le> 4096" "br + w = ?br (j + 1)"
        using I x j N mt cut by (auto simp: q_def w_def split: if_splits)
      have "br + w \<le> n"
        using w(3) j N mt cut mult_left_mono [of "j + 1" "hi - lo" 4096] by (auto split: if_splits)
      moreover have "f (nat br + l) = blocks s (fblk (blocks s) i (lo + j)) (q + int l)" if "l < nat w" for l
        using f [OF br(1,2), of l] that w(1,2) cut(3) by (simp add: q_def)
      ultimately have "copy_out b br (blocks s (fblk (blocks s) i (lo + j))) q w =
          Some (map f [0..<nat (br + w)] @ drop (nat (br + w)) buff)"
        using I x br(1) w(1,2) cut(3) assms(7)
        by (intro copy_out_step) (auto simp: in_block_def geometry q_def)
      then have "read_step s i lo t (4096 - m) ?N j x =
          Some (Next (map f [0..<nat (br + w)] @ drop (nat (br + w)) buff, br + w))"
        using F I x N j by (auto simp: read_step_def q_def w_def BLOCK_SIZE_val)
      with w(3) show "\<exists>x'. read_step s i lo t (4096 - m) ?N j x = Some (Next x') \<and> ?I (j + 1) x'"
        by auto
    qed (use N in simp)
    then show ?thesis
      using False N by (auto simp: read_blocks_def Let_def u BLOCK_SIZE_val lo_def [symmetric] hi_def [symmetric]
          t_def [symmetric] m_def [symmetric] result)
  qed
qed

section \<open>Frames\<close>

text \<open>A file depends on its list blocks, and its bytes on its data blocks.\<close>

lemma map_frame:
  assumes "wf_file s i" "\<And>b. b \<in> set (list_blocks (blocks s) i) \<Longrightarrow> bs b = blocks s b"
  shows "list_blocks bs i = list_blocks (blocks s) i" "data_of bs i = data_of (blocks s) i"
    "0 \<le> k \<Longrightarrow> k < num_blocks i \<Longrightarrow> fblk bs i k = fblk (blocks s) i k"
proof -
  have w: "word_at bs b j = word_at (blocks s) b j" if "b \<in> set (list_blocks (blocks s) i)" for b j
    using assms(2) [OF that] by (simp add: word_at_def)
  have f: "fblk bs i k = fblk (blocks s) i k" if "0 \<le> k" "k < num_blocks i" for k
  proof (cases "k < 522")
    case True
    with w single_in_list_blocks [of i] that show ?thesis by (simp add: fblk_def)
  next
    case False
    note d = double_index [of k "num_blocks i", OF _ that(2) wf_file_size [OF assms(1)]]
    have "double_indirect i \<in> set (list_blocks (blocks s) i)"
      "word_at (blocks s) (double_indirect i) ((k - 522) div 512) \<in> set (list_blocks (blocks s) i)"
      using False that d by (auto intro!: double_in_list_blocks word_in_list_blocks)
    with False w show ?thesis by (simp add: fblk_def)
  qed
  then show "0 \<le> k \<Longrightarrow> k < num_blocks i \<Longrightarrow> fblk bs i k = fblk (blocks s) i k" .
  show "data_of bs i = data_of (blocks s) i" using f by (auto simp: data_of_def intro!: map_cong)
  show "list_blocks bs i = list_blocks (blocks s) i"
    using w [OF double_in_list_blocks] by (auto simp: list_blocks_def)
qed

lemma byte_index:
  fixes x :: int
  assumes "0 \<le> x" "x < n * 4096"
  shows "0 \<le> x div 4096" "x div 4096 < n" "0 \<le> x mod 4096" "x mod 4096 < 4096"
  using assms by (auto simp: div_less_iff_less_mult pos_imp_zdiv_nonneg_iff)

lemma file_kept:
  assumes "wf_file s i" "set (owned (blocks s) i) \<inter> free_set s' = {}"
    and "\<And>b. b \<in> set (owned (blocks s) i) \<Longrightarrow> blocks s' b = blocks s b"
  shows "wf_file s' i" "owned (blocks s') i = owned (blocks s) i"
    "0 \<le> x \<Longrightarrow> x < num_blocks i * 4096 \<Longrightarrow> file_byte s' i x = file_byte s i x"
proof -
  note M = map_frame [OF assms(1), of "blocks s'"]
  have l: "\<And>b. b \<in> set (list_blocks (blocks s) i) \<Longrightarrow> blocks s' b = blocks s b"
    using assms(3) by (simp add: owned_def)
  show o: "owned (blocks s') i = owned (blocks s) i" using M(1,2) l by (simp add: owned_def)
  show "wf_file s' i" using assms(1,2) unfolding wf_file_def o by blast
  assume x: "0 \<le> x" "x < num_blocks i * 4096"
  have "fblk (blocks s) i (x div 4096) \<in> set (owned (blocks s) i)"
    using byte_index [OF x] by (auto simp: owned_def in_data_of)
  with assms(3) M(3) [OF l byte_index(1,2) [OF x]] show "file_byte s' i x = file_byte s i x"
    by (simp add: file_byte_def)
qed

lemma file_frame:
  assumes "wf_file s i" "free_set s' \<subseteq> free_set s"
    and "\<And>b. b \<in> set (owned (blocks s) i) \<Longrightarrow> blocks s' b = blocks s b"
  shows "wf_file s' i" "owned (blocks s') i = owned (blocks s) i"
    "0 \<le> x \<Longrightarrow> x < num_blocks i * 4096 \<Longrightarrow> file_byte s' i x = file_byte s i x"
proof -
  have "set (owned (blocks s) i) \<inter> free_set s' = {}" using assms(1,2) by (auto simp: wf_file_def)
  note K = file_kept [OF assms(1) this assms(3)]
  show "wf_file s' i" "owned (blocks s') i = owned (blocks s) i" using K(1,2) by blast+
  show "0 \<le> x \<Longrightarrow> x < num_blocks i * 4096 \<Longrightarrow> file_byte s' i x = file_byte s i x" using K(3) by blast
qed

lemma data_frame:
  assumes "wf_file s i" "free_set s' \<subseteq> free_set s" "\<forall>b. data_block b \<longrightarrow> blocks s' b = blocks s b"
  shows "wf_file s' i" "0 \<le> x \<Longrightarrow> x < num_blocks i * 4096 \<Longrightarrow> file_byte s' i x = file_byte s i x"
proof -
  have "\<And>b. b \<in> set (owned (blocks s) i) \<Longrightarrow> blocks s' b = blocks s b"
    using assms(1,3) by (simp add: wf_file_def)
  note F = file_frame [OF assms(1,2) this]
  show "wf_file s' i" by (rule F(1))
  show "0 \<le> x \<Longrightarrow> x < num_blocks i * 4096 \<Longrightarrow> file_byte s' i x = file_byte s i x" by (rule F(3))
qed

lemma wf_file_rest:
  "direct_blocks j = direct_blocks i \<Longrightarrow> single_indirect j = single_indirect i \<Longrightarrow>
   double_indirect j = double_indirect i \<Longrightarrow> num_blocks j = num_blocks i \<Longrightarrow>
   fblk bs j = fblk bs i \<and> wf_file s j = wf_file s i \<and> file_byte s j = file_byte s i"
proof -
  assume same: "direct_blocks j = direct_blocks i" "single_indirect j = single_indirect i"
    "double_indirect j = double_indirect i" "num_blocks j = num_blocks i"
  have f: "fblk bs j = fblk bs i" for bs by (simp add: fblk_def same fun_eq_iff)
  have "owned bs j = owned bs i" for bs by (simp add: owned_def data_of_def list_blocks_def f same)
  with f show ?thesis by (simp add: wf_file_def file_byte_def fun_eq_iff same)
qed

lemma file_bytes_cong:
  "(\<And>x. a \<le> x \<Longrightarrow> x < a + n \<Longrightarrow> file_byte s' j x = file_byte s i x) \<Longrightarrow> file_bytes s' j a n = file_bytes s i a n"
  by (auto simp: file_bytes_def intro!: map_cong)

text \<open>Storing an inode.\<close>

lemma store_inode:
  assumes "fl_inv s" "sb_ok s" "inum_ok n" "wf_inode i"
  obtains s' where "write_inode s n i = Some (True, s')" "fl_inv s'" "sb_ok s'" "core s' = core s"
    "free_set s' = free_set s" "\<And>b. data_block b \<Longrightarrow> blocks s' b = blocks s b"
    "\<And>m. inum_ok m \<Longrightarrow> inode_at s' m = (if m = n then i else inode_at s m)"
proof
  let ?bs = "(blocks s)(inode_block n := put_inode (blocks s (inode_block n)) (inode_slot n) i)"
  let ?s = "s\<lparr>blocks := ?bs\<rparr>"
  have "healthy s" using assms(1) by (simp add: fl_inv_def)
  then show "write_inode s n i = Some (True, ?s)" using assms(2,3) by (simp add: write_inode_ok)
  have d: "?bs b = blocks s b" if "data_block b" for b using that inode_block_not_data [OF assms(3)] by auto
  show "fl_inv ?s" "free_set ?s = free_set s"
    by (rule fl_inv_frame(1) [OF assms(1) d], assumption) (rule fl_inv_frame(2) [OF assms(1) d])
  show "sb_ok ?s" "core ?s = core s" using assms(2) by simp_all
  show "blocks ?s b = blocks s b" if "data_block b" for b using d [OF that] by simp
  show "inode_at ?s m = (if m = n then i else inode_at s m)" if "inum_ok m" for m
    using inode_at_write_same [OF assms(4), of s n] inode_at_write_other [OF assms(4), of n m s]
      that assms(3) by (auto simp: inum_ok_def)
qed

lemma core_cache: "core s' = core s \<Longrightarrow> iname_cache s' = iname_cache s"
proof -
  have "iname_cache (core t) = iname_cache t" for t :: "'a fstate_scheme" by (simp add: core_def)
  then show "core s' = core s \<Longrightarrow> iname_cache s' = iname_cache s" by metis
qed

section \<open>The read operation\<close>

lemma custom_read_ok:
  assumes look: "get_inode_num_from_path s path = Some (inum, s1)"
    and s: "fl_inv s" "sb_ok s" "inum_ok inum" "in_s64 now"
    and i: "i = inode_at s inum" "wf_file s i" "size_ok i"
    and a: "0 \<le> a" "a \<le> file_size i" and n: "0 \<le> n" "n \<le> int (length buff)" "a + n < 2 ^ 64"
  defines "r \<equiv> min n (file_size i - a)"
  obtains s' where
    "custom_read now s path buff n a =
       Some (r, file_bytes s i a r @ replicate (nat (n - r)) 0 @ drop (nat n) buff, s')"
    "fl_inv s'" "sb_ok s'" "free_set s' = free_set s" "core s' = core s1"
    "\<And>b. data_block b \<Longrightarrow> blocks s' b = blocks s b"
    "\<And>m. inum_ok m \<Longrightarrow> inode_at s' m =
       (if m = inum \<and> file_size i \<noteq> 0 then i\<lparr>access_time := now\<rparr> else inode_at s m)"
proof -
  obtain c where s1: "s1 = s\<lparr>iname_cache := c\<rparr>" using path_lookup_frame [OF look] by blast
  have h: "healthy s" "healthy s1" using s(1) s1 by (auto simp: fl_inv_def healthy_def device_works_def)
  have rd: "read_inode s1 inum = Some (Some i)"
    using read_inode_ok [OF h(2) _ s(3)] s(2) s1 i(1) by simp
  have inum: "inum \<noteq> -1" using s(3) by (auto simp: inum_ok_def)
  have size: "0 \<le> file_size i" "file_size i < 2 ^ 62"
    using i(3) wf_file_bytes [OF i(2)] by (auto simp: size_ok_def)
  define old where "old = replicate (nat n) (0 :: byte) @ drop (nat n) buff"
  show thesis
  proof (cases "file_size i = 0")
    case True
    then have "r = 0" using a n by (simp add: r_def)
    have "custom_read now s path buff n a = Some (0, old, s1)"
      using look inum rd n True by (simp add: custom_read_def old_def)
    with \<open>r = 0\<close> True s s1 show thesis
      by (intro that [of s1]) (auto simp: old_def file_bytes_def)
  next
    case False
    have r: "0 \<le> r" "r \<le> n" "a + r \<le> file_size i" using a n by (auto simp: r_def)
    have "(a + r) div 4096 \<le> file_size i div 4096" using r(3) by (rule zdiv_mono1) simp
    also have "\<dots> < num_blocks i"
      using i(3) False byte_index(2) [of "file_size i" "num_blocks i"] by (simp add: size_ok_def)
    finally have "read_blocks s1 i old r a = Some (Inl (file_bytes s1 i a r @ drop (nat r) old, r))"
      using h(2) i(2) a r n s1 by (intro read_blocks_ok) (auto simp: old_def)
    then have rb: "read_blocks s1 i old r a = Some (Inl (file_bytes s i a r @ drop (nat r) old, r))"
      by (simp add: s1)
    have wf: "wf_inode (i\<lparr>access_time := now\<rparr>)"
      using wf_get_inode [of "blocks s (inode_block inum)" "inode_slot inum"] s(4)
      by (simp add: i(1) inode_at_def wf_inode_def)
    obtain s' where s': "write_inode s1 inum (i\<lparr>access_time := now\<rparr>) = Some (True, s')" "fl_inv s'"
      "sb_ok s'" "core s' = core s1" "free_set s' = free_set s1" "\<And>b. data_block b \<Longrightarrow> blocks s' b = blocks s1 b"
      "\<And>m. inum_ok m \<Longrightarrow> inode_at s' m = (if m = inum then i\<lparr>access_time := now\<rparr> else inode_at s1 m)"
      using store_inode [of s1 inum "i\<lparr>access_time := now\<rparr>"] s s1 wf by auto
    have drop: "drop (nat r) old = replicate (nat (n - r)) 0 @ drop (nat n) buff"
      using r by (simp add: old_def nat_diff_distrib)
    have u: "u64 (a + n) = a + n" "u64 (file_size i) = file_size i" "u64 (file_size i - a) = file_size i - a"
      using a n size by (auto simp: u64_id)
    have rb': "file_size i < a + n \<Longrightarrow> read_blocks s1 i old (file_size i - a) a =
          Some (Inl (file_bytes s i a r @ drop (nat r) old, r))"
      "\<not> file_size i < a + n \<Longrightarrow> read_blocks s1 i old n a =
          Some (Inl (file_bytes s i a r @ drop (nat r) old, r))"
      using rb by (simp_all add: r_def)
    have "s64 r = r" using r size a by (intro s64_id) (simp add: in_s64_def)
    then have "custom_read now s path buff n a = Some (r, file_bytes s i a r @ drop (nat r) old, s')"
      using look inum rd n False a(2) u rb' s'(1)
      by (simp add: custom_read_def old_def [symmetric] Let_def)
    with drop show thesis
      by (intro that [of s']) (use s' s1 False in auto)
  qed
qed

section \<open>Writing into the blocks of a file\<close>

text \<open>Positions \<open>a\<close> to \<open>a + n\<close> now hold the first \<open>n\<close> bytes of \<open>buff\<close>; nothing else changed.\<close>

definition overwritten ::
  "'a bstate_scheme \<Rightarrow> iNode \<Rightarrow> int \<Rightarrow> int \<Rightarrow> byte list \<Rightarrow> 'a bstate_scheme \<Rightarrow> bool" where
  "overwritten s i a n buff s' \<longleftrightarrow>
     fl_inv s' \<and> core s' = core s \<and> free_set s' = free_set s \<and> wf_file s' i \<and>
     (\<forall>b. b \<notin> set (data_of (blocks s) i) \<longrightarrow> blocks s' b = blocks s b) \<and>
     (\<forall>x. 0 \<le> x \<and> x < num_blocks i * 4096 \<longrightarrow>
        file_byte s' i x = (if a \<le> x \<and> x < a + n then buff ! nat (x - a) else file_byte s i x))"

lemma overwritten_none: "fl_inv s \<Longrightarrow> wf_file s i \<Longrightarrow> overwritten s i a 0 buff s"
  by (auto simp: overwritten_def)

lemma data_write_frame:
  assumes "wf_file s i" "\<forall>b. b \<notin> set (data_of (blocks s) i) \<longrightarrow> bs b = blocks s b"
  shows "list_blocks bs i = list_blocks (blocks s) i" "data_of bs i = data_of (blocks s) i"
    "0 \<le> k \<Longrightarrow> k < num_blocks i \<Longrightarrow> fblk bs i k = fblk (blocks s) i k"
  using map_frame [OF assms(1), of bs] assms(2) wf_file_blocks(3) [OF assms(1)] by blast+

lemma wf_file_same:
  "wf_file s i \<Longrightarrow> free_set s' \<subseteq> free_set s \<Longrightarrow> list_blocks (blocks s') i = list_blocks (blocks s) i \<Longrightarrow>
   data_of (blocks s') i = data_of (blocks s) i \<Longrightarrow> wf_file s' i"
  by (auto simp: wf_file_def owned_def)

lemma overwrite_step:
  assumes u: "overwritten s i a p buff u" and wf: "wf_file s i"
    and k: "0 \<le> k" "k < num_blocks i" and pos: "0 \<le> p" "a + p = 4096 * k + q"
    and q: "0 \<le> q" "0 \<le> w" "q + w \<le> 4096" "p + w \<le> int (length buff)"
  obtains b u' where "copy_in (blocks u (fblk (blocks s) i k)) q buff p w = Some b"
    "write_dblock u (fblk (blocks s) i k) b = (True, u')" "overwritten s i a (p + w) buff u'"
proof -
  let ?y = "fblk (blocks s) i k"
  define b where "b = (\<lambda>j. if q \<le> j \<and> j < q + w then buff ! nat (p + (j - q)) else blocks u ?y j)"
  define u' where "u' = u\<lparr>blocks := (blocks u)(?y := b)\<rparr>"
  have bu: "blocks u' z = (if z = ?y then b else blocks u z)" for z by (simp add: u'_def)
  have y: "data_block ?y" "?y \<notin> free_set u" "?y \<in> set (data_of (blocks s) i)"
    using wf_file_fblk [OF wf k] u k by (auto simp: overwritten_def in_data_of)
  have fu: "fl_inv u" and frame: "\<forall>b. b \<notin> set (data_of (blocks s) i) \<longrightarrow> blocks u b = blocks s b"
    using u by (auto simp: overwritten_def)
  have frame': "\<forall>b. b \<notin> set (data_of (blocks s) i) \<longrightarrow> blocks u' b = blocks s b"
    using frame y(3) by (auto simp: bu)
  note M = data_write_frame [where bs = "blocks u'", OF wf frame']
    and Mu = data_write_frame [where bs = "blocks u", OF wf frame]
  have F: "fl_inv u'" "free_set u' = free_set u" using fl_inv_write_used [OF fu y(2)] by (auto simp: u'_def)
  have "free_set u' \<subseteq> free_set s" using F(2) u by (simp add: overwritten_def)
  then have "wf_file u' i" by (rule wf_file_same [OF wf _ M(1,2)])
  moreover have "file_byte u' i x = (if a \<le> x \<and> x < a + (p + w) then buff ! nat (x - a) else file_byte s i x)"
    if x: "0 \<le> x" "x < num_blocks i * 4096" for x
  proof -
    define l where "l = x div 4096"
    define r where "r = x mod 4096"
    have xlr: "x = 4096 * l + r" "0 \<le> r" "r < 4096" "0 \<le> l" "l < num_blocks i"
      using byte_index [OF x] by (auto simp: l_def r_def)
    have old: "file_byte u i x = (if a \<le> x \<and> x < a + p then buff ! nat (x - a) else file_byte s i x)"
      using u x by (simp add: overwritten_def)
    show ?thesis
    proof (cases "l = k")
      case True
      have "file_byte u' i x = b r"
        using True M(3) [OF k] by (simp add: file_byte_def bu l_def r_def)
      also have "\<dots> = (if q \<le> r \<and> r < q + w then buff ! nat (x - a) else file_byte u i x)"
      proof -
        have "file_byte u i x = blocks u ?y r"
          using True Mu(3) [OF k] by (simp add: file_byte_def l_def [symmetric] r_def [symmetric])
        moreover have "p + (r - q) = x - a" using True xlr(1) pos(2) by simp
        ultimately show ?thesis by (simp add: b_def)
      qed
      finally show ?thesis using old True xlr pos q by auto
    next
      case False
      then have "fblk (blocks s) i l \<noteq> ?y" using wf_file_inj [OF wf xlr(4,5) k] by simp
      then have "file_byte u' i x = file_byte u i x"
        using M(3) [OF xlr(4,5)] Mu(3) [OF xlr(4,5)] by (simp add: file_byte_def bu l_def [symmetric])
      moreover have "x < a + p \<longleftrightarrow> x < a + (p + w)" using False xlr pos q by auto
      ultimately show ?thesis using old by simp
    qed
  qed
  ultimately have "overwritten s i a (p + w) buff u'"
    using F u frame' by (auto simp: overwritten_def u'_def)
  moreover have "copy_in (blocks u ?y) q buff p w = Some b"
    using q pos(1) by (simp add: copy_in_def in_block_def geometry b_def)
  moreover have "write_dblock u ?y b = (True, u')"
    using fu y(1) unfolding u'_def by (intro write_dblock_healthy) (auto simp: fl_inv_def)
  ultimately show thesis by (intro that)
qed

text \<open>The block of a file that is being overwritten, as the loop fetches it.\<close>

lemma overwritten_fetch:
  assumes "overwritten s i a p buff u" "wf_file s i" "0 \<le> k" "k < num_blocks i"
  shows "fblock_num_to_dblock_num u i k = Some (fblk (blocks s) i k)" "0 < fblk (blocks s) i k"
    "read_dblock u (fblk (blocks s) i k) = Some (blocks u (fblk (blocks s) i k))"
proof -
  have u: "healthy u" "wf_file u i" "\<forall>b. b \<notin> set (data_of (blocks s) i) \<longrightarrow> blocks u b = blocks s b"
    using assms(1) by (auto simp: overwritten_def fl_inv_def)
  from fetch_block [OF u(1,2) assms(3,4)] data_write_frame(3) [OF assms(2) u(3) assms(3,4)]
  show "fblock_num_to_dblock_num u i k = Some (fblk (blocks s) i k)" "0 < fblk (blocks s) i k"
    "read_dblock u (fblk (blocks s) i k) = Some (blocks u (fblk (blocks s) i k))" by simp_all
qed

lemma write_blocks_ok:
  assumes s: "fl_inv s" "wf_file s i" and "0 \<le> a" "0 \<le> n" "a + n < 2 ^ 64"
    and "(a + n) div 4096 < num_blocks i" "n \<le> int (length buff)"
  obtains s' m where "write_blocks s i buff n a = Some (Inl (s', m))" "overwritten s i a n buff s'"
proof -
  define lo where "lo = a div 4096"
  define t where "t = a mod 4096"
  define hi where "hi = (a + n) div 4096"
  define m where "m = (a + n) mod 4096"
  note cut = range_cut [OF assms(3,4), folded lo_def t_def hi_def m_def]
  have nb: "lo + k < num_blocks i" "0 \<le> lo + k" if "0 \<le> k" "k \<le> hi - lo" for k
    using that assms(6) cut by (auto simp: hi_def)
  have u: "u64 (a + n) = a + n" using assms(3-5) by (simp add: u64_id)
  note start = overwritten_none [OF s, of a buff]
  show thesis
  proof (cases "lo = hi")
    case True
    then have "t + n < 4096" using cut by simp
    then obtain b u' where bu: "copy_in (blocks s (fblk (blocks s) i lo)) t buff 0 n = Some b"
      "write_dblock s (fblk (blocks s) i lo) b = (True, u')" "overwritten s i a (0 + n) buff u'"
      using overwrite_step [OF start s(2), of lo t n] nb [of 0] cut True assms(4,7) by auto
    have "fblock_num_to_dblock_num s i lo = Some (fblk (blocks s) i lo)" "0 < fblk (blocks s) i lo"
      "read_dblock s (fblk (blocks s) i lo) = Some (blocks s (fblk (blocks s) i lo))"
      using overwritten_fetch [OF start s(2), of lo] nb [of 0] True by auto
    then have "write_blocks s i buff n a = Some (Inl (u', 0))"
      using True bu(1,2) by (simp add: write_blocks_def Let_def u BLOCK_SIZE_val lo_def [symmetric]
          hi_def [symmetric] t_def [symmetric])
    with bu(3) show thesis by (intro that) simp_all
  next
    case False
    let ?N = "hi - lo + 1"
    let ?br = "\<lambda>j. if j = 0 then 0 else if j = ?N then n else 4096 * j - t"
    let ?I = "\<lambda>j (v, br). br = ?br j \<and> overwritten s i a br buff v"
    have N: "2 \<le> ?N" using False cut by simp
    have mt: "n = 4096 * (hi - lo) + m - t" using cut by simp
    have "\<exists>x. for_loop 0 ?N (write_step i buff lo t (4096 - m) ?N) (s, 0) = Some (Inl x) \<and> ?I ?N x"
    proof (rule for_loop_total [where I = ?I])
      show "?I 0 (s, 0)" using start by simp
    next
      fix j x
      assume j: "0 \<le> j" "j < ?N" and I: "?I j x"
      obtain v br where x: "x = (v, br)" by (cases x)
      have j': "j \<le> hi - lo" using j by simp
      define q where "q = (if j = 0 then t else 0)"
      define w where "w = (if j = 0 then 4096 - t else if j = hi - lo then m else 4096)"
      have br: "0 \<le> br" "a + br = 4096 * (lo + j) + q"
        and w: "0 \<le> w" "q + w \<le> 4096" "br + w = ?br (j + 1)" "0 \<le> q"
        using I x j N mt cut by (auto simp: q_def w_def split: if_splits)
      have "br + w \<le> n"
        using w(3) j N mt cut mult_left_mono [of "j + 1" "hi - lo" 4096] by (auto split: if_splits)
      then obtain b v' where b: "copy_in (blocks v (fblk (blocks s) i (lo + j))) q buff br w = Some b"
        "write_dblock v (fblk (blocks s) i (lo + j)) b = (True, v')" "overwritten s i a (br + w) buff v'"
        using overwrite_step [of s i a br buff v "lo + j" q w] I x s(2) nb [OF j(1) j'] br w assms(7) by auto
      note F = overwritten_fetch [OF _ s(2) nb(2) [OF j(1) j'] nb(1) [OF j(1) j'], of a br buff v]
      have "write_step i buff lo t (4096 - m) ?N j x = Some (Next (v', br + w))"
        using F I x N j b(1,2) by (auto simp: write_step_def q_def w_def BLOCK_SIZE_val)
      with w(3) b(3) show "\<exists>x'. write_step i buff lo t (4096 - m) ?N j x = Some (Next x') \<and> ?I (j + 1) x'"
        by auto
    qed (use N in simp)
    then obtain s' where "for_loop 0 ?N (write_step i buff lo t (4096 - m) ?N) (s, 0) = Some (Inl (s', n))"
      "overwritten s i a n buff s'" using N by auto
    then show thesis
      using False N by (intro that [of s' n]) (simp_all add: write_blocks_def Let_def u BLOCK_SIZE_val
          lo_def [symmetric] hi_def [symmetric] t_def [symmetric] m_def [symmetric])
  qed
qed

section \<open>Growing a file\<close>

text \<open>
  The file with inode \<open>i\<close> got \<open>k\<close> new blocks of zeros; the old bytes, and all blocks in use but
  the list blocks of the file, are as they were.
\<close>

definition grown :: "'a bstate_scheme \<Rightarrow> iNode \<Rightarrow> int \<Rightarrow> iNode \<Rightarrow> 'a bstate_scheme \<Rightarrow> bool" where
  "grown s i k i' s' \<longleftrightarrow>
     fl_inv s' \<and> core s' = core s \<and> wf_file s' i' \<and> extends i i' \<and> inode_rest i' = inode_rest i \<and>
     (wf_inode i \<longrightarrow> wf_inode i') \<and> num_blocks i' = num_blocks i + k \<and>
     free_set s' \<subseteq> free_set s \<and> int (card (free_set s)) \<le> int (card (free_set s')) + 3 * k \<and>
     set (owned (blocks s') i') \<subseteq> set (owned (blocks s) i) \<union> free_set s \<and>
     set (list_blocks (blocks s') i') \<subseteq> set (list_blocks (blocks s) i) \<union> free_set s \<and>
     (\<forall>b. b \<noteq> 0 \<longrightarrow> b \<notin> free_set s \<longrightarrow> b \<notin> set (list_blocks (blocks s) i) \<longrightarrow> blocks s' b = blocks s b) \<and>
     (\<forall>x. 0 \<le> x \<and> x < num_blocks i' * 4096 \<longrightarrow>
        file_byte s' i' x = (if x < num_blocks i * 4096 then file_byte s i x else 0))"

text \<open>The attempt failed; the file is as it was, but blocks may be lost.\<close>

definition not_grown :: "'a bstate_scheme \<Rightarrow> iNode \<Rightarrow> 'a bstate_scheme \<Rightarrow> bool" where
  "not_grown s i s' \<longleftrightarrow>
     fl_inv s' \<and> core s' = core s \<and> wf_file s' i \<and> free_set s' \<subseteq> free_set s \<and>
     set (owned (blocks s') i) \<subseteq> set (owned (blocks s) i) \<union> free_set s \<and>
     (\<forall>b. b \<noteq> 0 \<longrightarrow> b \<notin> free_set s \<longrightarrow> b \<notin> set (list_blocks (blocks s) i) \<longrightarrow> blocks s' b = blocks s b) \<and>
     (\<forall>x. 0 \<le> x \<and> x < num_blocks i * 4096 \<longrightarrow> file_byte s' i x = file_byte s i x)"

lemma grown_none: "fl_inv s \<Longrightarrow> wf_file s i \<Longrightarrow> grown s i 0 i s"
  by (auto simp: grown_def extends_refl owned_def)

lemma file_byte_extends:
  "extends i i' \<Longrightarrow> 0 \<le> x \<Longrightarrow> x < num_blocks i * 4096 \<Longrightarrow> file_byte s i' x = file_byte s i x"
  using extends_fblk [of i i' "x div 4096" "blocks s"] byte_index [of x "num_blocks i"]
  by (simp add: file_byte_def)

text \<open>One step after another; the bound on \<open>k\<close> keeps the positions of \<open>i\<close> below those of \<open>j\<close>.\<close>

lemma grown_trans:
  assumes "wf_file s i" "grown s i k j t" "grown t j 1 i' s'" "0 \<le> k"
  shows "grown s i (k + 1) i' s'"
proof -
  have frame: "blocks s' b = blocks s b"
    if "b \<noteq> 0" "b \<notin> free_set s" "b \<notin> set (list_blocks (blocks s) i)" for b
  proof -
    have "b \<notin> free_set t" "b \<notin> set (list_blocks (blocks t) j)" "blocks t b = blocks s b"
      using assms(2) that by (auto simp: grown_def)
    with that(1) assms(3) show ?thesis by (simp add: grown_def)
  qed
  have byte: "file_byte s' i' x = (if x < num_blocks i * 4096 then file_byte s i x else 0)"
    if "0 \<le> x" "x < num_blocks i' * 4096" for x
  proof -
    have n: "num_blocks j = num_blocks i + k" using assms(2) by (simp only: grown_def)
    have j: "file_byte s' i' x = (if x < num_blocks j * 4096 then file_byte t j x else 0)"
      using that assms(3) by (simp only: grown_def)
    have "file_byte t j x = (if x < num_blocks i * 4096 then file_byte s i x else 0)" if "x < num_blocks j * 4096"
      using that \<open>0 \<le> x\<close> assms(2) by (simp only: grown_def)
    then show ?thesis using j n assms(4) by simp
  qed
  show ?thesis
    unfolding grown_def
  proof (intro conjI)
    have "extends i j" "extends j i'" using assms(2,3) by (simp_all only: grown_def)
    then show "extends i i'" by (rule extends_trans)
    have t: "free_set t \<subseteq> free_set s" "set (owned (blocks t) j) \<subseteq> set (owned (blocks s) i) \<union> free_set s"
      "set (list_blocks (blocks t) j) \<subseteq> set (list_blocks (blocks s) i) \<union> free_set s"
      using assms(2) by (simp_all only: grown_def)
    have s': "free_set s' \<subseteq> free_set t" "set (owned (blocks s') i') \<subseteq> set (owned (blocks t) j) \<union> free_set t"
      "set (list_blocks (blocks s') i') \<subseteq> set (list_blocks (blocks t) j) \<union> free_set t"
      using assms(3) by (simp_all only: grown_def)
    show "set (owned (blocks s') i') \<subseteq> set (owned (blocks s) i) \<union> free_set s" using s'(2) t(1,2) by blast
    show "set (list_blocks (blocks s') i') \<subseteq> set (list_blocks (blocks s) i) \<union> free_set s"
      using s'(3) t(1,3) by blast
    show "free_set s' \<subseteq> free_set s" using s'(1) t(1) by blast
  qed (use assms(2,3) frame byte in \<open>simp_all add: grown_def\<close>)
qed

lemma extends_owned:
  assumes "extends i j"
  shows "set (owned bs i) \<subseteq> set (owned bs j)"
proof -
  obtain ys zs where "data_of bs j = data_of bs i @ ys" "list_blocks bs j = list_blocks bs i @ zs"
    using extends_data [OF assms] extends_lists [OF assms] by blast
  then show ?thesis by (auto simp: owned_def)
qed

lemma not_grown_trans:
  assumes "wf_file s i" "grown s i k j t" "not_grown t j s'"
  shows "not_grown s i s'"
proof -
  have e: "extends i j" "wf_file s' j" using assms(2,3) by (auto simp: grown_def not_grown_def)
  have frame: "blocks s' b = blocks s b"
    if "b \<noteq> 0" "b \<notin> free_set s" "b \<notin> set (list_blocks (blocks s) i)" for b
  proof -
    have "b \<notin> free_set t" "b \<notin> set (list_blocks (blocks t) j)" "blocks t b = blocks s b"
      using assms(2) that by (auto simp: grown_def)
    with that(1) assms(3) show ?thesis by (simp add: not_grown_def)
  qed
  have "num_blocks i \<le> num_blocks j" using e(1) by (simp add: extends_def)
  then have "file_byte s' i x = file_byte s i x" if "0 \<le> x" "x < num_blocks i * 4096" for x
    using that assms(2,3) file_byte_extends [OF e(1) that, of s'] by (simp add: grown_def not_grown_def)
  moreover have "set (owned (blocks s') i) \<subseteq> set (owned (blocks s) i) \<union> free_set s"
  proof -
    have "set (owned (blocks s') i) \<subseteq> set (owned (blocks s') j)" by (rule extends_owned [OF e(1)])
    moreover have "set (owned (blocks s') j) \<subseteq> set (owned (blocks t) j) \<union> free_set t"
      using assms(3) by (simp add: not_grown_def)
    moreover have "set (owned (blocks t) j) \<subseteq> set (owned (blocks s) i) \<union> free_set s" "free_set t \<subseteq> free_set s"
      using assms(2) by (simp_all add: grown_def)
    ultimately show ?thesis by blast
  qed
  moreover have "free_set s' \<subseteq> free_set s"
    using assms(2,3) unfolding grown_def not_grown_def by (meson subset_trans)
  ultimately show ?thesis
    using frame extends_wf [OF e] assms(2,3) by (simp add: grown_def not_grown_def)
qed

text \<open>Allocating the new block leaves the file alone.\<close>

lemma alloc_for_file:
  assumes "fl_inv s" "wf_file s i" "free_set s \<noteq> {}"
  obtains n t where "create_new_dblock s = Some (n, t)" "0 < n" "fl_inv t" "core t = core s"
    "data_block n" "n \<in> free_set s" "free_set t = free_set s - {n}"
    "card (free_set s) = Suc (card (free_set t))" "zeroed (blocks t n)"
    "\<forall>b. b \<noteq> 0 \<longrightarrow> b \<notin> free_set s \<longrightarrow> blocks t b = blocks s b"
    "wf_file t i" "owned (blocks t) i = owned (blocks s) i" "n \<notin> set (owned (blocks s) i)"
    "\<forall>x. 0 \<le> x \<and> x < num_blocks i * 4096 \<longrightarrow> file_byte t i x = file_byte s i x"
proof -
  obtain n t where n: "create_new_dblock s = Some (n, t)" "fl_inv t" "core t = core s"
    "data_block n" "n \<in> free_set s" "free_set t = free_set s - {n}"
    "card (free_set s) = Suc (card (free_set t))" "zeroed (blocks t n)"
    "\<forall>b. b \<noteq> 0 \<longrightarrow> b \<notin> free_set s \<longrightarrow> blocks t b = blocks s b"
    using alloc_block [OF assms(1,3)] by metis
  have own: "blocks t b = blocks s b" if "b \<in> set (owned (blocks s) i)" for b
    using that n(9) assms(2) data_block_nonzero by (auto simp: wf_file_def)
  have sub: "free_set t \<subseteq> free_set s" using n(6) by auto
  note F = file_frame [OF assms(2) sub own]
  show thesis
    by (rule that [OF n(1) data_block_pos [OF n(4)] n(2-9) F(1,2)])
      (use F(3) n(5) assms(2) in \<open>auto simp: wf_file_def\<close>)
qed

text \<open>The blocks of the file after an append, and what they hold.\<close>

lemma appended_map:
  assumes t: "wf_file t i" "n \<notin> free_set t" "data_block n" "n \<notin> set (owned (blocks t) i)"
    and a: "appended t i n i' s'" and l: "0 \<le> l" "l < num_blocks i'"
  shows "fblk (blocks s') i' l = (if l = num_blocks i then n else fblk (blocks t) i l)"
    "blocks s' (fblk (blocks s') i' l) = blocks t (fblk (blocks s') i' l)"
proof -
  have n: "num_blocks i' = num_blocks i + 1" "0 \<le> num_blocks i"
    using a t(1) by (auto simp: appended_def wf_file_def)
  have "data_of (blocks s') i' = data_of (blocks t) i @ [n]" using a by (simp add: appended_def)
  then show f: "fblk (blocks s') i' l = (if l = num_blocks i then n else fblk (blocks t) i l)"
    using nth_data_of [OF l, of "blocks s'"] nth_data_of [of l i "blocks t"] l n
    by (auto simp: nth_append)
  have "fblk (blocks s') i' l \<noteq> 0 \<and> fblk (blocks s') i' l \<notin> free_set t \<and>
      fblk (blocks s') i' l \<notin> set (list_blocks (blocks t) i)"
    using f t(2-4) wf_file_fblk [OF t(1) l(1)] l(2) n(1) data_block_nonzero by (auto simp: owned_def)
  with a show "blocks s' (fblk (blocks s') i' l) = blocks t (fblk (blocks s') i' l)"
    by (simp add: appended_def)
qed

lemma appended_bytes:
  assumes t: "wf_file t i" "n \<notin> free_set t" "data_block n" "n \<notin> set (owned (blocks t) i)" "zeroed (blocks t n)"
    and a: "appended t i n i' s'" and x: "0 \<le> x" "x < num_blocks i' * 4096"
  shows "file_byte s' i' x = (if x < num_blocks i * 4096 then file_byte t i x else 0)"
proof -
  define l where "l = x div 4096"
  note l = byte_index [OF x, folded l_def]
  note M = appended_map [OF t(1-4) a l(1,2)]
  have x': "x < num_blocks i * 4096 \<longleftrightarrow> l < num_blocks i" unfolding l_def by linarith
  have "num_blocks i' = num_blocks i + 1" using a by (simp add: appended_def)
  then show ?thesis
    using M x' l t(5) by (auto simp: file_byte_def l_def [symmetric] zeroed_def geometry)
qed

lemma grow_one:
  fixes s :: "'a fstate_scheme"
  assumes "fl_inv s" "wf_file s i"
  shows "(\<exists>i' s'. grow_step j (i, s) = Some (Next (i', s')) \<and> grown s i 1 i' s') \<or>
    (\<exists>s'. grow_step j (i, s) = Some (Return s') \<and> not_grown s i s' \<and> card (free_set s) < 3)"
proof (cases "free_set s = {}")
  case True
  then have "grow_step j (i, s) = Some (Return s)"
    using dblocks.alloc_full [OF assms(1)] by (simp add: grow_step_def)
  with True assms show ?thesis by (auto simp: not_grown_def)
next
  case False
  obtain n t where n: "create_new_dblock s = Some (n, t)" "0 < n" "fl_inv t" "core t = core s"
    "data_block n" "n \<in> free_set s" "free_set t = free_set s - {n}"
    "card (free_set s) = Suc (card (free_set t))" "zeroed (blocks t n)"
    "\<forall>b. b \<noteq> 0 \<longrightarrow> b \<notin> free_set s \<longrightarrow> blocks t b = blocks s b"
    "wf_file t i" "owned (blocks t) i = owned (blocks s) i" "n \<notin> set (owned (blocks s) i)"
    "\<forall>x. 0 \<le> x \<and> x < num_blocks i * 4096 \<longrightarrow> file_byte t i x = file_byte s i x"
    by (rule alloc_for_file [OF assms False])
  have nt: "n \<notin> free_set t" "n \<notin> set (owned (blocks t) i)" using n by auto
  have lists: "list_blocks (blocks t) i = list_blocks (blocks s) i"
    using n(12) by (simp add: owned_def)
  have data: "data_of (blocks t) i = data_of (blocks s) i" using n(12) lists by (simp add: owned_def)
  consider i' s' where "add_dblock_to_inode t i n = Some (True, i', s')" "appended t i n i' s'"
    | i' s' where "add_dblock_to_inode t i n = Some (False, i', s')" "append_refused t s'"
    using add_dblock_cases [OF n(3,11) nt(1) n(5) nt(2)] by blast
  then show ?thesis
  proof cases
    case 1
    have byte: "file_byte s' i' x = (if x < num_blocks i * 4096 then file_byte s i x else 0)"
      if "0 \<le> x" "x < num_blocks i' * 4096" for x
      using appended_bytes [OF n(11) nt(1) n(5) nt(2) n(9) 1(2) that] n(14) that by simp
    have frame: "blocks s' b = blocks s b"
      if "b \<noteq> 0" "b \<notin> free_set s" "b \<notin> set (list_blocks (blocks s) i)" for b
      using that 1(2) n(7,10) lists by (auto simp: appended_def)
    have "grown s i 1 i' s'"
      unfolding grown_def
    proof (intro conjI)
      show "set (list_blocks (blocks s') i') \<subseteq> set (list_blocks (blocks s) i) \<union> free_set s"
        using 1(2) n(7) lists by (auto simp: appended_def)
      then show "set (owned (blocks s') i') \<subseteq> set (owned (blocks s) i) \<union> free_set s"
        using 1(2) n(6) data by (auto simp: appended_def owned_def)
    qed (use 1(2) n(4,7,8) byte frame in \<open>auto simp: appended_def\<close>)
    moreover have "grow_step j (i, s) = Some (Next (i', s'))" using n(1,2) 1(1) by (simp add: grow_step_def)
    ultimately show ?thesis by blast
  next
    case 2
    have own: "blocks s' b = blocks s b" if "b \<in> set (owned (blocks s) i)" for b
      using that 2(2) n(7,10) assms(2) data_block_nonzero by (auto simp: append_refused_def wf_file_def)
    have sub: "free_set s' \<subseteq> free_set s" using 2(2) n(7) by (auto simp: append_refused_def)
    note F = file_frame [OF assms(2) sub own]
    have "not_grown s i s'" "card (free_set s) < 3"
      using 2(2) n(4,7,8,10) sub F by (auto simp: not_grown_def append_refused_def)
    moreover have "grow_step j (i, s) = Some (Return s')" using n(1,2) 2(1) by (simp add: grow_step_def)
    ultimately show ?thesis by blast
  qed
qed

lemma grow_loop:
  fixes s :: "'a fstate_scheme"
  assumes "fl_inv s" "wf_file s i" "0 \<le> k"
  shows "(\<exists>i' s'. for_loop 0 k grow_step (i, s) = Some (Inl (i', s')) \<and> grown s i k i' s') \<or>
    (\<exists>s'. for_loop 0 k grow_step (i, s) = Some (Inr s') \<and> not_grown s i s' \<and>
      int (card (free_set s)) < 3 * k)"
proof -
  let ?I = "\<lambda>j (i', s'). grown s i j i' s'"
  let ?Q = "\<lambda>s'. not_grown s i s' \<and> int (card (free_set s)) < 3 * k"
  have "(\<exists>x. for_loop 0 k grow_step (i, s) = Some (Inl x) \<and> (?I k x \<or> False)) \<or>
      (\<exists>r. for_loop 0 k grow_step (i, s) = Some (Inr r) \<and> ?Q r)"
  proof (rule for_loop_rule [where I = ?I])
    show "?I 0 (i, s)" using grown_none [OF assms(1,2)] by simp
  next
    fix j x
    assume j: "0 \<le> j" "j < k" and I: "?I j x"
    obtain i1 t where x: "x = (i1, t)" by (cases x)
    with I have g: "grown s i j i1 t" by simp
    then have "fl_inv t" "wf_file t i1" by (auto simp: grown_def)
    from grow_one [OF this, of j]
    show "(\<exists>x'. grow_step j x = Some (Next x') \<and> ?I (j + 1) x') \<or>
        (\<exists>x'. grow_step j x = Some (Break x') \<and> False) \<or> (\<exists>r. grow_step j x = Some (Return r) \<and> ?Q r)"
    proof
      assume "\<exists>i' s'. grow_step j (i1, t) = Some (Next (i', s')) \<and> grown t i1 1 i' s'"
      then obtain i' s' where "grow_step j x = Some (Next (i', s'))" "grown t i1 1 i' s'" using x by blast
      with grown_trans [OF assms(2) g _ j(1)] show ?thesis by blast
    next
      assume "\<exists>s'. grow_step j (i1, t) = Some (Return s') \<and> not_grown t i1 s' \<and> card (free_set t) < 3"
      then obtain s' where s': "grow_step j x = Some (Return s')" "not_grown t i1 s'" "card (free_set t) < 3"
        using x by blast
      have "int (card (free_set s)) \<le> int (card (free_set t)) + 3 * j" using g by (simp add: grown_def)
      then have "int (card (free_set s)) < 3 * k" using s'(3) j(2) by linarith
      with s' not_grown_trans [OF assms(2) g s'(2)] show ?thesis by blast
    qed
  qed (use assms(3) in simp)
  then show ?thesis by auto
qed

section \<open>The write operation\<close>

lemma inode_rest_fields:
  assumes "inode_rest i' = inode_rest i"
  shows "file_size i' = file_size i" "mode i' = mode i" "link_count i' = link_count i"
proof -
  have "file_size (inode_rest j) = file_size j \<and> mode (inode_rest j) = mode j \<and>
      link_count (inode_rest j) = link_count j" for j by (simp add: inode_rest_def)
  with assms show "file_size i' = file_size i" "mode i' = mode i" "link_count i' = link_count i"
    by metis+
qed

lemma inode_at_frame:
  assumes "fl_inv s" "wf_file s i" "inum_ok m"
    and "\<forall>b. b \<noteq> 0 \<longrightarrow> b \<notin> free_set s \<longrightarrow> b \<notin> set (list_blocks (blocks s) i) \<longrightarrow> blocks s' b = blocks s b"
  shows "inode_at s' m = inode_at s m"
proof -
  have "inode_block m \<noteq> 0" "\<not> data_block (inode_block m)" using inode_block_not_data [OF assms(3)] by auto
  then have "blocks s' (inode_block m) = blocks s (inode_block m)"
    using assms(4) fl_inv_data_block [OF assms(1)] wf_file_blocks(2) [OF assms(2)] by blast
  then show ?thesis by (simp add: inode_at_def)
qed

text \<open>The inode of a file after \<open>n\<close> bytes were written at \<open>a\<close> at time \<open>now\<close>.\<close>

definition stamped :: "int \<Rightarrow> int \<Rightarrow> iNode \<Rightarrow> iNode" where
  "stamped now tot i = i\<lparr>file_size := max (file_size i) tot, access_time := now,
     modification_time := now, status_change_time := now\<rparr>"

lemma stamped_map: "fblk bs (stamped now tot i) = fblk bs i"
    "wf_file s (stamped now tot i) = wf_file s i"
    "file_byte s (stamped now tot i) = file_byte s i" "num_blocks (stamped now tot i) = num_blocks i"
    "owned bs (stamped now tot i) = owned bs i" "data_of bs (stamped now tot i) = data_of bs i"
    "list_blocks bs (stamped now tot i) = list_blocks bs i"
  using wf_file_rest [of "stamped now tot i" i]
  by (auto simp: stamped_def owned_def data_of_def list_blocks_def fun_eq_iff)

text \<open>What a write leaves behind when it succeeds.\<close>

definition written ::
  "'a bstate_scheme \<Rightarrow> iNode \<Rightarrow> int \<Rightarrow> int \<Rightarrow> byte list \<Rightarrow> iNode \<Rightarrow> 'a bstate_scheme \<Rightarrow> bool" where
  "written s i a n buff i' s' \<longleftrightarrow>
     fl_inv s' \<and> sb_ok s' \<and> core s' = core s \<and> wf_file s' i' \<and> size_ok i' \<and> mode i' = mode i \<and>
     file_size i' = max (file_size i) (a + n) \<and> num_blocks i \<le> num_blocks i' \<and>
     free_set s' \<subseteq> free_set s \<and>
     int (card (free_set s)) \<le> int (card (free_set s')) + 3 * (num_blocks i' - num_blocks i) \<and>
     set (owned (blocks s') i') \<subseteq> set (owned (blocks s) i) \<union> free_set s \<and>
     (\<forall>b. data_block b \<longrightarrow> b \<notin> free_set s \<longrightarrow> b \<notin> set (owned (blocks s) i) \<longrightarrow> blocks s' b = blocks s b) \<and>
     (\<forall>x. 0 \<le> x \<and> x < num_blocks i' * 4096 \<longrightarrow> file_byte s' i' x =
        (if a \<le> x \<and> x < a + n then buff ! nat (x - a)
         else if x < num_blocks i * 4096 then file_byte s i x else 0))"

lemma write_grown:
  fixes s :: "'a fstate_scheme"
  assumes s: "fl_inv s" "sb_ok s" "inum_ok inum" "in_s64 now" "i = inode_at s inum" "wf_file s i" "size_ok i"
    and a: "0 \<le> a" "0 < n" "n \<le> int (length buff)" "a + n < 2 ^ 62"
    and g: "grown s i k j t" "0 \<le> k" "(a + n) div 4096 < num_blocks j"
  obtains s1 m s' where "write_blocks t j buff n a = Some (Inl (s1, m))"
    "write_inode s1 inum (stamped now (a + n) j) = Some (True, s')"
    "written s i a n buff (stamped now (a + n) j) s'"
    "\<And>m. inum_ok m \<Longrightarrow> inode_at s' m = (if m = inum then stamped now (a + n) j else inode_at s m)"
proof -
  have t: "fl_inv t" "wf_file t j" "core t = core s" "num_blocks j = num_blocks i + k"
    "file_size j = file_size i" "wf_inode j" "mode j = mode i"
    using g(1) inode_rest_fields(1,2) [of j i] s(5) by (auto simp: grown_def inode_at_def)
  obtain s1 m where s1: "write_blocks t j buff n a = Some (Inl (s1, m))" "overwritten t j a n buff s1"
    using write_blocks_ok [OF t(1,2), of a n buff] a g(3) by auto
  then have o: "fl_inv s1" "core s1 = core t" "free_set s1 = free_set t" "wf_file s1 j"
    by (auto simp: overwritten_def)
  have size: "0 \<le> file_size i" "file_size i < 2 ^ 62" "file_size i = 0 \<or> file_size i < num_blocks i * 4096"
    using s(7) wf_file_bytes [OF s(6)] by (auto simp: size_ok_def)
  have "wf_inode (stamped now (a + n) j)"
    using t(5,6) s(4) size a by (auto simp: wf_inode_def stamped_def in_s64_def max_def)
  then obtain s' where s': "write_inode s1 inum (stamped now (a + n) j) = Some (True, s')" "fl_inv s'"
    "sb_ok s'" "core s' = core s1" "free_set s' = free_set s1" "\<And>b. data_block b \<Longrightarrow> blocks s' b = blocks s1 b"
    "\<And>m. inum_ok m \<Longrightarrow> inode_at s' m = (if m = inum then stamped now (a + n) j else inode_at s1 m)"
    using store_inode [OF o(1) _ s(3)] core_sb_ok [of s1 s] s(2) o(2) t(3) by metis
  have sub: "free_set s' \<subseteq> free_set s1" using s'(5) by simp
  have same: "\<forall>b. data_block b \<longrightarrow> blocks s' b = blocks s1 b" using s'(6) by blast
  note D = data_frame [OF o(4) sub same]
  have lists: "list_blocks (blocks s1) j = list_blocks (blocks t) j" "data_of (blocks s1) j = data_of (blocks t) j"
    using data_write_frame [OF t(2), of "blocks s1"] s1(2) by (auto simp: overwritten_def)
  have own: "owned (blocks s') j = owned (blocks t) j"
    using file_frame(2) [OF o(4) sub] s'(6) o(4) lists by (simp add: wf_file_def owned_def)
  have frame: "blocks s' b = blocks s b"
    if "data_block b" "b \<notin> free_set s" "b \<notin> set (owned (blocks s) i)" for b
  proof -
    have "b \<notin> set (owned (blocks t) j)" "blocks t b = blocks s b"
      using that g(1) data_block_nonzero by (auto simp: grown_def owned_def)
    with that(1) s'(6) s1(2) show ?thesis by (auto simp: overwritten_def owned_def)
  qed
  have byte: "file_byte s' j x = (if a \<le> x \<and> x < a + n then buff ! nat (x - a)
         else if x < num_blocks i * 4096 then file_byte s i x else 0)"
    if "0 \<le> x" "x < num_blocks j * 4096" for x
    using that D(2) [OF that] s1(2) g(1) by (simp add: overwritten_def grown_def)
  have "a + n < num_blocks j * 4096" using g(3) by (simp add: div_less_iff_less_mult)
  then have "size_ok (stamped now (a + n) j)"
    using size a t(4,5) g(2) by (auto simp: size_ok_def stamped_def max_def)
  moreover have "free_set s' \<subseteq> free_set s" using s'(5) o(3) g(1) by (simp add: grown_def)
  moreover have "int (card (free_set s)) \<le> int (card (free_set s')) + 3 * (num_blocks j - num_blocks i)"
    using s'(5) o(3) g(1) t(4) by (simp add: grown_def)
  moreover have "set (owned (blocks s') j) \<subseteq> set (owned (blocks s) i) \<union> free_set s"
    using own g(1) by (simp add: grown_def)
  ultimately have "written s i a n buff (stamped now (a + n) j) s'"
    unfolding written_def stamped_map
    using s'(2-4) o(2) t(3-5,7) D(1) frame byte g(2) by (simp add: stamped_def)
  moreover have "inode_at s1 m = inode_at s m" if "inum_ok m" for m
  proof -
    have "\<not> data_block (inode_block m)" using inode_block_not_data [OF that] by auto
    then have "blocks s1 (inode_block m) = blocks t (inode_block m)"
      using s1(2) wf_file_blocks(1) [OF t(2)] unfolding overwritten_def by blast
    then show ?thesis
      using inode_at_frame [OF s(1,6) that, of t] g(1) by (simp add: grown_def inode_at_def)
  qed
  ultimately show thesis using s1(1) s'(1,7) by (intro that) auto
qed

text \<open>How many blocks the write wants to add.\<close>

definition wanted :: "iNode \<Rightarrow> int \<Rightarrow> int" where
  "wanted i tot = (if tot > file_size i then max 0 (tot div 4096 - num_blocks i + 1) else 0)"

lemma custom_write_full:
  fixes s :: "'a fstate_scheme"
  assumes look: "get_inode_num_from_path s path = Some (inum, s1)"
    and s: "fl_inv s" "sb_ok s" "inum_ok inum" "in_s64 now" "i = inode_at s inum" "wf_file s i" "size_ok i"
    and a: "0 \<le> a" "0 < n" "n \<le> int (length buff)" "a + n < 2 ^ 62"
  shows "(\<exists>s' i'. custom_write now s path buff n a = Some (n, s') \<and> written s1 i a n buff i' s' \<and>
      num_blocks i' = num_blocks i + wanted i (a + n) \<and>
      (\<forall>m. inum_ok m \<longrightarrow> inode_at s' m = (if m = inum then i' else inode_at s m))) \<or>
    (\<exists>s'. custom_write now s path buff n a = Some (-1, s') \<and> not_grown s1 i s' \<and>
      (\<forall>m. inum_ok m \<longrightarrow> inode_at s' m = inode_at s m) \<and>
      int (card (free_set s)) < 3 * wanted i (a + n))"
proof -
  obtain c where s1: "s1 = s\<lparr>iname_cache := c\<rparr>" using path_lookup_frame [OF look] by blast
  have p1: "fl_inv s1" "sb_ok s1" "i = inode_at s1 inum" "wf_file s1 i" "inode_at s1 m = inode_at s m"
    "free_set s1 = free_set s" for m using s s1 by simp_all
  have rd: "read_inode s1 inum = Some (Some i)"
    using read_inode_ok [of s1 inum] p1(1-3) s(3) by (simp add: fl_inv_def)
  have inum: "inum \<noteq> -1" using s(3) by (auto simp: inum_ok_def)
  define k where "k = wanted i (a + n)"
  have size: "0 \<le> file_size i" "file_size i < 2 ^ 62" "0 \<le> num_blocks i" "num_blocks i < 2 ^ 32"
    "file_size i = 0 \<or> file_size i < num_blocks i * 4096"
    using s(7) wf_file_bytes [OF s(6)] wf_file_size [OF s(6)] s(6) by (auto simp: size_ok_def wf_file_def)
  define tot where "tot = a + n"
  have u: "u64 tot = tot" "u64 (file_size i) = file_size i" using a size by (auto simp: u64_id tot_def)
  have add: "(if tot > file_size i then s64 (tot - file_size i) else 0) + file_size i = max (file_size i) tot"
    using a size s64_id [of "tot - file_size i"] by (auto simp: in_s64_def tot_def)
  have "(a + n) div 4096 < 2 ^ 62" "0 \<le> (a + n) div 4096"
    using a by (auto simp: div_less_iff_less_mult pos_imp_zdiv_nonneg_iff)
  then have "s64 (tot div 4096 - num_blocks i + 1) = tot div 4096 - num_blocks i + 1"
    using size by (intro s64_id) (auto simp: in_s64_def tot_def)
  then have loop: "for_loop 0 (if tot > file_size i then s64 (tot div BLOCK_SIZE - num_blocks i + 1) else 0)
      grow_step (i, s1) = for_loop 0 k grow_step (i, s1)"
    by (auto simp: k_def wanted_def tot_def max_def BLOCK_SIZE_val)
  have "0 \<le> k" by (simp add: k_def wanted_def)
  from grow_loop [OF p1(1,4) this]
  show ?thesis
  proof (elim disjE exE conjE)
    fix j t
    assume g: "for_loop 0 k grow_step (i, s1) = Some (Inl (j, t))" "grown s1 i k j t"
    have j: "num_blocks j = num_blocks i + k" "file_size j = file_size i"
      using g(2) inode_rest_fields(1) [of j i] by (auto simp: grown_def)
    have fits: "(a + n) div 4096 < num_blocks j"
    proof (cases "tot > file_size i")
      case True
      then show ?thesis using j by (auto simp: k_def wanted_def tot_def)
    next
      case False
      then have "a + n < num_blocks i * 4096" using size a by (auto simp: tot_def)
      with j \<open>0 \<le> k\<close> show ?thesis by (simp add: div_less_iff_less_mult)
    qed
    obtain s2 m s' where w: "write_blocks t j buff n a = Some (Inl (s2, m))"
      "write_inode s2 inum (stamped now (a + n) j) = Some (True, s')"
      "written s1 i a n buff (stamped now (a + n) j) s'"
      "\<And>m. inum_ok m \<Longrightarrow> inode_at s' m = (if m = inum then stamped now (a + n) j else inode_at s1 m)"
      using write_grown [OF p1(1,2) s(3,4) p1(3,4) s(7) a g(2) \<open>0 \<le> k\<close> fits] by blast
    have st: "j\<lparr>file_size := file_size j + (if tot > file_size i then s64 (tot - file_size i) else 0),
        access_time := now, modification_time := now, status_change_time := now\<rparr> = stamped now (a + n) j"
      using add j(2) by (simp add: stamped_def tot_def add.commute)
    have "s64 n = n" using a by (intro s64_id) (simp add: in_s64_def)
    then have "custom_write now s path buff n a = Some (n, s')"
      using look inum rd g(1) w(1,2) u st loop
      by (simp add: custom_write_def Let_def tot_def [symmetric] split del: if_split)
    moreover have "num_blocks (stamped now (a + n) j) = num_blocks i + wanted i (a + n)"
      using j(1) by (simp add: stamped_map k_def)
    ultimately show ?thesis using w(3,4) p1(5) by (intro disjI1) auto
  next
    fix s'
    assume g: "for_loop 0 k grow_step (i, s1) = Some (Inr s')" "not_grown s1 i s'" "int (card (free_set s1)) < 3 * k"
    have "custom_write now s path buff n a = Some (-1, s')"
      using look inum rd g(1) u loop
      by (simp add: custom_write_def Let_def tot_def [symmetric] split del: if_split)
    moreover have "inode_at s' m = inode_at s m" if "inum_ok m" for m
      using inode_at_frame [OF p1(1,4) that, of s'] g(2) p1(5) by (simp add: not_grown_def)
    ultimately show ?thesis using g(2,3) p1(6) by (intro disjI2) (auto simp: k_def)
  qed
qed

lemma custom_write_ok:
  fixes s :: "'a fstate_scheme"
  assumes look: "get_inode_num_from_path s path = Some (inum, s1)"
    and s: "fl_inv s" "sb_ok s" "inum_ok inum" "in_s64 now" "i = inode_at s inum" "wf_file s i" "size_ok i"
    and a: "0 \<le> a" "0 < n" "n \<le> int (length buff)" "a + n < 2 ^ 62"
  shows "(\<exists>s' i'. custom_write now s path buff n a = Some (n, s') \<and> written s1 i a n buff i' s' \<and>
      (\<forall>m. inum_ok m \<longrightarrow> inode_at s' m = (if m = inum then i' else inode_at s m))) \<or>
    (\<exists>s'. custom_write now s path buff n a = Some (-1, s') \<and> not_grown s1 i s' \<and>
      (\<forall>m. inum_ok m \<longrightarrow> inode_at s' m = inode_at s m) \<and>
      int (card (free_set s)) < 3 * wanted i (a + n))"
  using custom_write_full [OF assms] by blast

section \<open>A volume with a file and its path in the cache, for closed examples\<close>

definition file_state :: "lru_cache \<Rightarrow> fstate" where
  "file_state c = bstate.extend file_volume (fstate.fields c)"

lemma file_state_facts:
  "fl_inv (file_state c)" "free_set (file_state c) = {26215, 26216}" "sb_ok (file_state c)"
  "inode_at (file_state c) 5 = sample_file" "wf_file (file_state c) sample_file"
  "iname_cache (file_state c) = c" "blocks (file_state c) = blocks file_volume"
proof -
  have b: "blocks (file_state c) = blocks file_volume" "super_block (file_state c) = super_block file_volume"
    "m_ptr (file_state c) = m_ptr file_volume" "dev_open (file_state c) = dev_open file_volume"
    "dev_lseek (file_state c) = dev_lseek file_volume" "dev_read (file_state c) = dev_read file_volume"
    "dev_write (file_state c) = dev_write file_volume" "iname_cache (file_state c) = c"
    by (simp_all add: file_state_def bstate.defs fstate.defs)
  then show "blocks (file_state c) = blocks file_volume" "iname_cache (file_state c) = c" by simp_all
  have "fl_inv (file_state c) = fl_inv file_volume" "free_set (file_state c) = free_set file_volume"
    by (simp_all add: fl_inv_def free_set_def healthy_def device_works_def b)
  moreover have "wf_file (file_state c) sample_file"
    using sample_file_blocks file_volume_facts(2) calculation(2) by (simp add: wf_file_def b)
  ultimately show "fl_inv (file_state c)" "free_set (file_state c) = {26215, 26216}"
    "wf_file (file_state c) sample_file" using file_volume_facts by simp_all
  show "sb_ok (file_state c)" using file_volume_facts(3) by (simp add: sb_ok_def b)
  show "inode_at (file_state c) 5 = sample_file" using file_volume_facts(5) by (simp add: inode_at_def b)
qed

lemma sample_file_size: "size_ok sample_file" "file_size sample_file = 5000" "num_blocks sample_file = 2"
  by (simp_all add: sample_file_def size_ok_def)

lemma one_path_cached:
  obtains c where "lru_rep c [(''/f'', 5)]"
proof -
  have "''/f'' \<notin> fst ` set []" "has_room empty_cache [] ''/f''"
    using empty_cache_rep by (simp_all add: has_room_def)
  from path_cache.put_new [OF empty_cache_rep(1) this, of 5] that show thesis by blast
qed

lemma file_state_lookup:
  assumes "lru_rep c [(''/f'', 5)]"
  obtains c' where "get_inode_num_from_path (file_state c) ''/f'' = Some (5, file_state c\<lparr>iname_cache := c'\<rparr>)"
  using cached_lookup [of "file_state c" "[(''/f'', 5)]" "''/f''" 5] assms file_state_facts(6) [of c] by auto

section \<open>Properties\<close>

text \<open>
  C20: reading a file from a position within it returns as many bytes as there are, up to the
  number asked for, and these are the bytes of the file; the rest of the range asked for is
  zeroed, the buffer behind it is untouched. On the volume only the access time changes.
\<close>

theorem custom_read_returns_the_contents:
  fixes s :: "'a fstate_scheme"
  assumes "get_inode_num_from_path s path = Some (inum, s1)"
    and "fl_inv s" "sb_ok s" "inum_ok inum" "in_s64 now"
    and "i = inode_at s inum" "wf_file s i" "size_ok i"
    and "0 \<le> a" "a \<le> file_size i" "0 \<le> n" "n \<le> int (length buff)" "a + n < 2 ^ 64"
  shows "\<exists>r s'. r = min n (file_size i - a) \<and>
    custom_read now s path buff n a =
      Some (r, file_bytes s i a r @ replicate (nat (n - r)) 0 @ drop (nat n) buff, s') \<and>
    fl_inv s' \<and> free_set s' = free_set s \<and> (\<forall>b. data_block b \<longrightarrow> blocks s' b = blocks s b) \<and>
    (\<forall>m. inum_ok m \<longrightarrow> inode_at s' m =
      (if m = inum \<and> file_size i \<noteq> 0 then i\<lparr>access_time := now\<rparr> else inode_at s m))"
  using custom_read_ok [OF assms] by metis

theorem custom_read_returns_the_contents_witness:
  "\<exists>(s :: fstate) s'. custom_read 7 s ''/f'' [1, 2, 3] 3 4998 = Some (2, [0, 0, 0], s')"
proof -
  obtain c where c: "lru_rep c [(''/f'', 5)]" by (rule one_path_cached)
  obtain c' where l: "get_inode_num_from_path (file_state c) ''/f'' = Some (5, file_state c\<lparr>iname_cache := c'\<rparr>)"
    by (rule file_state_lookup [OF c])
  have "file_bytes (file_state c) sample_file 4998 2 = [0, 0]"
    by (simp add: file_bytes_def file_byte_def fblk_def file_state_facts sample_file_def file_volume_def
        sample_volume_def inode_block_def eval_nat_numeral)
  with custom_read_returns_the_contents [OF l file_state_facts(1,3) file_volume_facts(4) _
      file_state_facts(4) [symmetric] file_state_facts(5) sample_file_size(1), of 7 4998 3 "[1, 2, 3]"]
  show ?thesis by (auto simp: sample_file_size in_s64_def eval_nat_numeral)
qed

text \<open>
  C5: while enough blocks are free, writing \<open>n\<close> bytes at a position succeeds: the file then
  holds the bytes there, its other bytes are as before (zero where the file had no block), its
  size covers the range, and no block of another file and no other inode changed.
\<close>

theorem custom_write_stores_the_bytes:
  fixes s :: "'a fstate_scheme"
  assumes "get_inode_num_from_path s path = Some (inum, s1)"
    and "fl_inv s" "sb_ok s" "inum_ok inum" "in_s64 now"
    and "i = inode_at s inum" "wf_file s i" "size_ok i"
    and "0 \<le> a" "0 < n" "n \<le> int (length buff)" "a + n < 2 ^ 62"
    and "3 * wanted i (a + n) \<le> int (card (free_set s))"
  shows "\<exists>s' i'. custom_write now s path buff n a = Some (n, s') \<and> fl_inv s' \<and> sb_ok s' \<and>
    (\<forall>m. inum_ok m \<longrightarrow> inode_at s' m = (if m = inum then i' else inode_at s m)) \<and>
    wf_file s' i' \<and> size_ok i' \<and> file_size i' = max (file_size i) (a + n) \<and>
    (\<forall>x. 0 \<le> x \<and> x < num_blocks i' * 4096 \<longrightarrow> file_byte s' i' x =
       (if a \<le> x \<and> x < a + n then buff ! nat (x - a)
        else if x < num_blocks i * 4096 then file_byte s i x else 0)) \<and>
    (\<forall>b. data_block b \<longrightarrow> b \<notin> free_set s \<longrightarrow> b \<notin> set (owned (blocks s) i) \<longrightarrow> blocks s' b = blocks s b)"
proof -
  obtain c where s1: "s1 = s\<lparr>iname_cache := c\<rparr>" using path_lookup_frame [OF assms(1)] by blast
  have same: "file_byte s1 i = file_byte s i" by (simp add: s1 fun_eq_iff)
  obtain s' i' where "custom_write now s path buff n a = Some (n, s')" "written s1 i a n buff i' s'"
    "\<forall>m. inum_ok m \<longrightarrow> inode_at s' m = (if m = inum then i' else inode_at s m)"
    using custom_write_ok [OF assms(1-12)] assms(13) by auto
  then show ?thesis unfolding written_def same
    by (intro exI [of _ s'] exI [of _ i']) (simp add: s1)
qed

theorem custom_write_stores_the_bytes_witness:
  "\<exists>(s :: fstate) s'. custom_write 7 s ''/f'' [1, 2, 3] 3 4998 = Some (3, s') \<and> file_size (inode_at s' 5) = 5001"
proof -
  obtain c where c: "lru_rep c [(''/f'', 5)]" by (rule one_path_cached)
  obtain c' where l: "get_inode_num_from_path (file_state c) ''/f'' = Some (5, file_state c\<lparr>iname_cache := c'\<rparr>)"
    by (rule file_state_lookup [OF c])
  have "3 * wanted sample_file (4998 + 3) \<le> int (card (free_set (file_state c)))"
    by (simp add: wanted_def sample_file_size)
  with custom_write_stores_the_bytes [OF l file_state_facts(1,3) file_volume_facts(4) _
      file_state_facts(4) [symmetric] file_state_facts(5) sample_file_size(1), of 7 4998 3 "[1, 2, 3]"]
  obtain s' i' where w: "custom_write 7 (file_state c) ''/f'' [1, 2, 3] 3 4998 = Some (3, s')"
    "\<forall>m. inum_ok m \<longrightarrow> inode_at s' m = (if m = 5 then i' else inode_at (file_state c) m)"
    "file_size i' = max (file_size sample_file) (4998 + 3)" by (auto simp: in_s64_def)
  then have "file_size (inode_at s' 5) = 5001" using file_volume_facts(4) by (simp add: sample_file_size)
  with w(1) show ?thesis by blast
qed

text \<open>
  C24: a write either succeeds or returns -1, and then no inode changed, the file has its old
  bytes and so has every block of another file: only blocks of the free set can be lost.
\<close>

theorem failed_write_leaves_the_file:
  fixes s :: "'a fstate_scheme"
  assumes "get_inode_num_from_path s path = Some (inum, s1)"
    and "fl_inv s" "sb_ok s" "inum_ok inum" "in_s64 now"
    and "i = inode_at s inum" "wf_file s i" "size_ok i"
    and "0 \<le> a" "0 < n" "n \<le> int (length buff)" "a + n < 2 ^ 62"
  shows "\<exists>r s'. custom_write now s path buff n a = Some (r, s') \<and> fl_inv s' \<and> free_set s' \<subseteq> free_set s \<and>
    (r \<noteq> n \<longrightarrow> r = -1 \<and> (\<forall>m. inum_ok m \<longrightarrow> inode_at s' m = inode_at s m) \<and> wf_file s' i \<and>
       (\<forall>x. 0 \<le> x \<and> x < num_blocks i * 4096 \<longrightarrow> file_byte s' i x = file_byte s i x) \<and>
       (\<forall>b. data_block b \<longrightarrow> b \<notin> free_set s \<longrightarrow> b \<notin> set (list_blocks (blocks s) i) \<longrightarrow> blocks s' b = blocks s b))"
proof -
  obtain c where s1: "s1 = s\<lparr>iname_cache := c\<rparr>" using path_lookup_frame [OF assms(1)] by blast
  from custom_write_ok [OF assms(1-12)] show ?thesis
  proof (elim disjE exE conjE)
    fix s' assume "custom_write now s path buff n a = Some (-1, s')" "not_grown s1 i s'"
      "\<forall>m. inum_ok m \<longrightarrow> inode_at s' m = inode_at s m"
    then show ?thesis
      by (intro exI [of _ "-1"] exI [of _ s']) (auto simp: not_grown_def s1 dest: data_block_nonzero)
  qed (auto simp: written_def s1)
qed

theorem failed_write_leaves_the_file_witness:
  "\<exists>(s :: fstate) r s'. custom_write 7 s ''/f'' [1, 2, 3] 3 4998 = Some (r, s') \<and> fl_inv s'"
proof -
  obtain c where c: "lru_rep c [(''/f'', 5)]" by (rule one_path_cached)
  obtain c' where l: "get_inode_num_from_path (file_state c) ''/f'' = Some (5, file_state c\<lparr>iname_cache := c'\<rparr>)"
    by (rule file_state_lookup [OF c])
  from failed_write_leaves_the_file [OF l file_state_facts(1,3) file_volume_facts(4) _
      file_state_facts(4) [symmetric] file_state_facts(5) sample_file_size(1), of 7 4998 3 "[1, 2, 3]"]
  show ?thesis by (auto simp: in_s64_def)
qed

text \<open>
  C3: what is written to a file is what a later read of the same range returns, through the
  path lookup and its cache.
\<close>

theorem read_returns_what_was_written:
  fixes s :: "'a fstate_scheme"
  assumes "lru_rep (iname_cache s) l" "map_of l path = Some inum" "path \<noteq> ''/''"
    and "fl_inv s" "sb_ok s" "inum_ok inum" "in_s64 now" "in_s64 later"
    and "i = inode_at s inum" "wf_file s i" "size_ok i"
    and "0 \<le> a" "0 < n" "n \<le> int (length buff)" "n \<le> int (length out)" "a + n < 2 ^ 62"
    and "3 * wanted i (a + n) \<le> int (card (free_set s))"
  shows "\<exists>s1 s2. custom_write now s path buff n a = Some (n, s1) \<and>
    custom_read later s1 path out n a = Some (n, take (nat n) buff @ drop (nat n) out, s2)"
proof -
  have "0 < inum" using assms(6) by (simp add: inum_ok_def)
  from cached_lookup [OF assms(1,2) this assms(3)] obtain c where
    c: "get_inode_num_from_path s path = Some (inum, s\<lparr>iname_cache := c\<rparr>)" "lru_rep c ((path, inum) # without path l)"
    by blast
  obtain t i' where t: "custom_write now s path buff n a = Some (n, t)" "written (s\<lparr>iname_cache := c\<rparr>) i a n buff i' t"
    "\<forall>m. inum_ok m \<longrightarrow> inode_at t m = (if m = inum then i' else inode_at s m)"
    using custom_write_ok [OF c(1) assms(4-7) assms(9-14) assms(16)] assms(17) by auto
  then have i': "i' = inode_at t inum" "fl_inv t" "sb_ok t" "wf_file t i'" "size_ok i'"
    "iname_cache t = c" "a + n \<le> file_size i'"
    using assms(6) core_cache [of t "s\<lparr>iname_cache := c\<rparr>"] by (auto simp: written_def)
  have "lru_rep (iname_cache t) ((path, inum) # without path l)" using c(2) i'(6) by simp
  from cached_lookup [OF this _ \<open>0 < inum\<close> assms(3)] obtain c' where
    l: "get_inode_num_from_path t path = Some (inum, t\<lparr>iname_cache := c'\<rparr>)" by auto
  have r: "min n (file_size i' - a) = n" using i'(7) by simp
  have "a \<le> file_size i'" "0 \<le> n" "a + n < 2 ^ 64" using i'(7) assms(13,16) by auto
  note R = custom_read_ok [OF l i'(2,3) assms(6,8) i'(1,4,5) assms(12) this(1,2) assms(15) this(3), unfolded r]
  obtain s2 where s2: "custom_read later t path out n a =
      Some (n, file_bytes t i' a n @ replicate (nat (n - n)) 0 @ drop (nat n) out, s2)"
    by (rule R) (rule that, assumption)
  have "file_bytes t i' a n = take (nat n) buff"
  proof (rule nth_equalityI)
    show "length (file_bytes t i' a n) = length (take (nat n) buff)" using assms(14) by (simp add: file_bytes_def)
    fix k assume "k < length (file_bytes t i' a n)"
    then have k: "k < nat n" "int k < n" by (simp_all add: file_bytes_def)
    then have "a + int k < num_blocks i' * 4096"
      using i'(5,7) assms(12,13) by (auto simp: size_ok_def)
    then have "file_byte t i' (a + int k) = buff ! k"
      using t(2) k assms(12) by (simp add: written_def)
    with k show "file_bytes t i' a n ! k = take (nat n) buff ! k" by (simp add: file_bytes_def)
  qed
  with s2 t(1) show ?thesis by auto
qed

theorem read_returns_what_was_written_witness:
  "\<exists>(s :: fstate) s1 s2. custom_write 7 s ''/f'' [1, 2, 3] 3 4998 = Some (3, s1) \<and>
    custom_read 8 s1 ''/f'' [0, 0, 0, 9] 3 4998 = Some (3, [1, 2, 3, 9], s2)"
proof -
  obtain c where c: "lru_rep c [(''/f'', 5)]" by (rule one_path_cached)
  then have "lru_rep (iname_cache (file_state c)) [(''/f'', 5)]" by (simp add: file_state_facts)
  moreover have "3 * wanted sample_file (4998 + 3) \<le> int (card (free_set (file_state c)))"
    by (simp add: wanted_def sample_file_size)
  ultimately show ?thesis
    using read_returns_what_was_written [OF _ _ _ file_state_facts(1,3) file_volume_facts(4) _ _
      file_state_facts(4) [symmetric] file_state_facts(5) sample_file_size(1),
      of c "[(''/f'', 5)]" "''/f''" 7 8 4998 3 "[1, 2, 3]" "[0, 0, 0, 9]"]
    by (auto simp: in_s64_def)
qed

end
