(* ===== verification/ListRelease.thy ===== *)
theory ListRelease
  imports FileData
begin

text \<open>
  Releasing whole list blocks (\<open>remove_single_indirect\<close> and \<open>remove_double_indirect\<close> of
  \<open>lib/file_layer.c\<close>): both walk a list block up to its first 0. For a file whose lists end where
  the file ends (\<open>ends_clean\<close>) this releases the blocks of the single or the double indirect
  range and their list blocks, each once.
\<close>

section \<open>The walks\<close>

text \<open>
  A loop over numbers \<open>w i\<close> that ends at a 0 and releases \<open>T v\<close> at number \<open>v\<close>, whatever the releases
  answer.
\<close>

lemma remove_walk:
  fixes body :: "int \<Rightarrow> 'a bstate_scheme \<Rightarrow> ('a bstate_scheme, bool \<times> 'a bstate_scheme) ctl option"
  assumes stop: "\<And>j t. w j = 0 \<Longrightarrow> body j t = Some (Break t)"
    and item: "\<And>j t. 0 \<le> j \<Longrightarrow> j < n \<Longrightarrow> w j \<noteq> 0 \<Longrightarrow> releasable t (T (w j)) \<Longrightarrow>
      (\<And>b. b \<in> set (T (w j)) \<Longrightarrow> blocks t b = bs b) \<Longrightarrow>
      \<exists>t'. body j t = Some (Next t') \<and> released t (T (w j)) t'"
    and "0 \<le> i" "i \<le> n" "releasable s (concat (map T (until0 w i n)))"
    and "\<And>b. b \<in> set (concat (map T (until0 w i n))) \<Longrightarrow> blocks s b = bs b"
  shows "\<exists>s'. for_loop i n body s = Some (Inl s') \<and> released s (concat (map T (until0 w i n))) s'"
  using assms(3-)
proof (induction "nat (n - i)" arbitrary: i s)
  case 0
  then have "i = n" by simp
  with 0 show ?case by (auto simp: until0_def intro: released_Nil simp: releasable_def)
next
  case (Suc k)
  then have i: "0 \<le> i" "i < n" by auto
  then have items: "until0 w i n = (if w i = 0 then [] else w i # until0 w (i + 1) n)"
    by (simp add: until0_def upto_rec1)
  show ?case
  proof (cases "w i = 0")
    case True
    with i Suc.prems stop items show ?thesis
      by (auto simp: for_loop_break intro: released_Nil simp: releasable_def)
  next
    case False
    have rel: "releasable s (T (w i) @ concat (map T (until0 w (i + 1) n)))"
      using Suc.prems(3) items False by simp
    obtain t where t: "body i s = Some (Next t)" "released s (T (w i)) t"
      using item [OF i False releasable_append1 [OF rel]] Suc.prems(4) items False by fastforce
    have "blocks t b = bs b" if "b \<in> set (concat (map T (until0 w (i + 1) n)))" for b
      using released_keeps [OF rel t(2) that] Suc.prems(4) [of b] that items False by simp
    moreover have "k = nat (n - (i + 1))" using Suc.hyps(2) by simp
    ultimately obtain s' where s': "for_loop (i + 1) n body t = Some (Inl s')"
      "released t (concat (map T (until0 w (i + 1) n))) s'"
      using Suc.hyps(1) [of "i + 1" t] i releasable_rest [OF rel t(2)] by auto
    from released_append [OF t(2) s'(2)] s'(1) t(1) i items False show ?thesis
      by (auto simp: for_loop_next)
  qed
qed

lemma releasable_read:
  "releasable s ns \<Longrightarrow> n \<in> set ns \<Longrightarrow> read_dblock s n = Some (blocks s n) \<and> 0 < n"
  by (auto simp: releasable_def fl_inv_def intro: read_dblock_healthy data_block_pos)

lemma remove_single_ok:
  assumes "releasable s (single_tree (blocks s) v)"
  obtains s' where "remove_single_indirect s v = Some (True, s')" "released s (single_tree (blocks s) v) s'"
proof -
  let ?w = "\<lambda>j. ld_s64 (blocks s v) (8 * j)"
  have r: "releasable s (listed (blocks s v) @ [v])" using assms by (simp add: single_tree_def)
  have item: "\<exists>t'. remove_single_step (blocks s v) j t = Some (Next t') \<and> released t [?w j] t'"
    if "?w j \<noteq> 0" and "releasable t [?w j]" for j and t :: "'a bstate_scheme"
  proof -
    note r' = that(2)
    obtain t' where "free_dblock t (?w j) = Some (True, t')" "released t [?w j] t'"
      by (rule free_dblock_released [OF r'])
    then show ?thesis using that(1) by (simp add: remove_single_step_def)
  qed
  have "\<exists>u. for_loop 0 512 (remove_single_step (blocks s v)) s =
      Some (Inl u :: ('a bstate_scheme + bool \<times> 'a bstate_scheme)) \<and>
    released s (concat (map (\<lambda>v. [v]) (until0 ?w 0 512))) u"
  proof (rule remove_walk [where bs = "blocks s"])
    show "releasable s (concat (map (\<lambda>v. [v]) (until0 ?w 0 512)))"
      using releasable_append1 [OF r] by (simp only: concat_singletons listed_until0)
  qed (use item in \<open>simp_all add: remove_single_step_def\<close>)
  then obtain u where u: "for_loop 0 512 (remove_single_step (blocks s v)) s =
      Some (Inl u :: ('a bstate_scheme + bool \<times> 'a bstate_scheme))" "released s (listed (blocks s v)) u"
    by (auto simp: concat_singletons listed_until0)
  obtain s' where s': "free_dblock u v = Some (True, s')" "released u [v] s'"
    using free_dblock_released [OF releasable_rest [OF r u(2)]] by metis
  have "remove_single_indirect s v = Some (True, s')"
    using releasable_read [OF r, of v] u(1) s'(1) by (simp add: remove_single_indirect_def geometry)
  then show thesis using that released_append [OF u(2) s'(2)] by (simp add: single_tree_def)
qed

lemma remove_double_ok:
  assumes "releasable s (double_tree (blocks s) v @ [v])"
  obtains s' where "remove_double_indirect s v = Some (True, s')"
    "released s (double_tree (blocks s) v @ [v]) s'"
proof -
  let ?w = "\<lambda>j. ld_s64 (blocks s v) (8 * j)" and ?T = "single_tree (blocks s)"
  have item: "\<exists>t'. remove_double_step (blocks s v) j t = Some (Next t') \<and> released t (?T (?w j)) t'"
    if "?w j \<noteq> 0" "releasable t (?T (?w j))" "\<And>b. b \<in> set (?T (?w j)) \<Longrightarrow> blocks t b = blocks s b"
    for j and t :: "'a bstate_scheme"
  proof -
    note r' = that(2)
    have "blocks t (?w j) = blocks s (?w j)" using that(3) by (simp add: single_tree_def)
    then have e: "single_tree (blocks t) (?w j) = ?T (?w j)" by (simp add: single_tree_def)
    obtain t' where "remove_single_indirect t (?w j) = Some (True, t')" "released t (?T (?w j)) t'"
      by (rule remove_single_ok [of t "?w j", unfolded e, OF r'])
    then show ?thesis using that(1) by (simp add: remove_double_step_def)
  qed
  have "\<exists>u. for_loop 0 512 (remove_double_step (blocks s v)) s =
      Some (Inl u :: ('a bstate_scheme + bool \<times> 'a bstate_scheme)) \<and>
    released s (concat (map ?T (until0 ?w 0 512))) u"
  proof (rule remove_walk [where bs = "blocks s"])
    show "releasable s (concat (map ?T (until0 ?w 0 512)))"
      using releasable_append1 [OF assms] by (simp only: double_tree_def listed_until0)
    show "\<exists>t'. remove_double_step (blocks s v) j t = Some (Next t') \<and> released t (?T (?w j)) t'"
      if "?w j \<noteq> 0" "releasable t (?T (?w j))" "\<And>b. b \<in> set (?T (?w j)) \<Longrightarrow> blocks t b = blocks s b"
      for j and t :: "'a bstate_scheme" by (rule item [OF that])
  qed (simp_all add: remove_double_step_def)
  then obtain u where u: "for_loop 0 512 (remove_double_step (blocks s v)) s =
      Some (Inl u :: ('a bstate_scheme + bool \<times> 'a bstate_scheme))" "released s (double_tree (blocks s) v) u"
    by (auto simp: double_tree_def listed_until0)
  obtain s' where s': "free_dblock u v = Some (True, s')" "released u [v] s'"
    using free_dblock_released [OF releasable_rest [OF assms u(2)]] by metis
  have "remove_double_indirect s v = Some (True, s')"
    using releasable_read [OF assms, of v] u(1) s'(1) by (simp add: remove_double_indirect_def geometry)
  then show thesis using that released_append [OF u(2) s'(2)] by simp
qed

section \<open>The lists of a file\<close>

lemma listed_words: "listed (M b) = takeWhile (\<lambda>v. v \<noteq> 0) (map (word_at M b) [0..511])"
proof -
  have "word_at M b = (\<lambda>j. ld_s64 (M b) (8 * j))" by (intro ext) (simp add: word_at_def)
  then show ?thesis by (simp add: listed_until0 until0_def)
qed

lemma listed_upto:
  assumes "0 \<le> n" "n \<le> 512" "\<And>j. 0 \<le> j \<Longrightarrow> j < n \<Longrightarrow> word_at M b j \<noteq> 0" "n < 512 \<Longrightarrow> word_at M b n = 0"
  shows "listed (M b) = map (word_at M b) [0..n - 1]"
proof -
  have e: "[0..511] = [0..n - 1] @ [n..511]" using upto_split1 [of 0 n 511] assms(1,2) by (cases "n = 512") auto
  have "takeWhile (\<lambda>v. v \<noteq> 0) (map (word_at M b) [n..511]) = []"
    using assms(2,4) by (cases "n = 512") (simp_all add: upto_rec1)
  moreover have "\<forall>v \<in> set (map (word_at M b) [0..n - 1]). v \<noteq> 0" using assms(3) by auto
  ultimately show ?thesis unfolding listed_words e by (simp add: takeWhile_append)
qed

text \<open>The words of the single indirect list behind the last block of the file are 0.\<close>

definition clean_list :: "'a bstate_scheme \<Rightarrow> iNode \<Rightarrow> bool" where
  "clean_list s i \<longleftrightarrow> (\<forall>k. num_blocks i - 10 \<le> k \<longrightarrow> k < 512 \<longrightarrow> word_at (blocks s) (single_indirect i) k = 0)"

text \<open>The same for the double indirect block and the last list it names.\<close>

definition clean_double :: "'a bstate_scheme \<Rightarrow> iNode \<Rightarrow> bool" where
  "clean_double s i \<longleftrightarrow> 522 < num_blocks i \<longrightarrow>
     (\<forall>k. (num_blocks i - 523) div 512 < k \<longrightarrow> k < 512 \<longrightarrow> word_at (blocks s) (double_indirect i) k = 0) \<and>
     (\<forall>k. (num_blocks i - 523) mod 512 < k \<longrightarrow> k < 512 \<longrightarrow>
        word_at (blocks s) (word_at (blocks s) (double_indirect i) ((num_blocks i - 523) div 512)) k = 0)"

lemma fblk_not_list:
  "wf_file s i \<Longrightarrow> 0 \<le> k \<Longrightarrow> k < num_blocks i \<Longrightarrow> b \<in> set (list_blocks (blocks s) i) \<Longrightarrow>
   b \<noteq> fblk (blocks s) i k"
  using wf_file_fblk [of s i k] by blast

lemma single_tree_blocks:
  assumes wf: "wf_file s i" and n: "10 < num_blocks i" and c: "clean_list s i"
  shows "set (single_tree (blocks s) (single_indirect i)) =
      fblk (blocks s) i ` {10..min 521 (num_blocks i - 1)} \<union> {single_indirect i}"
    "distinct (single_tree (blocks s) (single_indirect i))"
proof -
  let ?f = "fblk (blocks s) i" and ?m = "min 512 (num_blocks i - 10)"
  have w: "word_at (blocks s) (single_indirect i) j = ?f (j + 10)" if "0 \<le> j" "j < 512" for j
    using that by (simp add: fblk_def)
  have L: "listed (blocks s (single_indirect i)) = map (word_at (blocks s) (single_indirect i)) [0..?m - 1]"
  proof (rule listed_upto)
    show "word_at (blocks s) (single_indirect i) j \<noteq> 0" if "0 \<le> j" "j < ?m" for j
      using w [of j] wf_file_fblk [OF wf, of "j + 10"] that data_block_nonzero by auto
    show "word_at (blocks s) (single_indirect i) ?m = 0" if "?m < 512" using c that by (simp add: clean_list_def)
  qed (use n in auto)
  have m: "map (word_at (blocks s) (single_indirect i)) [0..?m - 1] = map (\<lambda>j. ?f (j + 10)) [0..?m - 1]"
    using w by (intro map_cong) auto
  have "(\<lambda>j. j + 10) ` {0..?m - 1} = {10..min 521 (num_blocks i - 1)}"
    by (auto simp: image_iff intro!: bexI [of _ "x - 10" for x])
  then have e: "?f ` (\<lambda>j. j + 10) ` {0..?m - 1} = ?f ` {10..min 521 (num_blocks i - 1)}" by (simp only:)
  have S: "set (map (\<lambda>j. ?f (j + 10)) [0..?m - 1]) = ?f ` {10..min 521 (num_blocks i - 1)}"
    unfolding e [symmetric] by (simp only: set_map set_upto image_image)
  then show "set (single_tree (blocks s) (single_indirect i)) =
      ?f ` {10..min 521 (num_blocks i - 1)} \<union> {single_indirect i}"
    unfolding single_tree_def L m set_append S by simp
  have "inj_on (\<lambda>j. ?f (j + 10)) {0..?m - 1}" using wf_file_inj [OF wf] by (auto intro!: inj_onI)
  moreover have "\<forall>k \<in> {10..min 521 (num_blocks i - 1)}. single_indirect i \<noteq> ?f k"
    using fblk_not_list [OF wf _ _ single_in_list_blocks [OF n]] by simp
  then have "single_indirect i \<notin> ?f ` {10..min 521 (num_blocks i - 1)}" by blast
  ultimately show "distinct (single_tree (blocks s) (single_indirect i))"
    unfolding single_tree_def L m distinct_append S by (simp add: distinct_map)
qed

text \<open>List number \<open>p\<close> of the double indirect range.\<close>

lemma double_list_blocks:
  assumes wf: "wf_file s i" and n: "522 < num_blocks i" and c: "clean_double s i"
    and p: "0 \<le> p" "p \<le> (num_blocks i - 523) div 512"
  shows "single_tree (blocks s) (word_at (blocks s) (double_indirect i) p) =
    map (fblk (blocks s) i) [522 + 512 * p..min (522 + 512 * p + 511) (num_blocks i - 1)] @
      [word_at (blocks s) (double_indirect i) p]"
proof -
  let ?f = "fblk (blocks s) i" and ?b = "word_at (blocks s) (double_indirect i) p"
  define m where "m = min 512 (num_blocks i - 522 - 512 * p)"
  have "p * 512 \<le> num_blocks i - 523" 
    using p(2) div_mult_mod_eq [of "num_blocks i - 523" 512] pos_mod_sign [of 512 "num_blocks i - 523"] by linarith
  then have m: "0 < m" "m \<le> 512" "m \<le> num_blocks i - 522 - 512 * p" by (simp_all add: m_def)
  have w: "word_at (blocks s) ?b j = ?f (522 + 512 * p + j)" if "0 \<le> j" "j < 512" for j
    using that p(1) by (simp add: fblk_def)
  have L: "listed (blocks s ?b) = map (word_at (blocks s) ?b) [0..m - 1]"
  proof (rule listed_upto)
    show "word_at (blocks s) ?b j \<noteq> 0" if "0 \<le> j" "j < m" for j
      using w [of j] wf_file_fblk [OF wf, of "522 + 512 * p + j"] that m p(1) data_block_nonzero by auto
    show "word_at (blocks s) ?b m = 0" if "m < 512"
    proof -
      have e: "num_blocks i - 523 = m - 1 + 512 * p" using that by (simp add: m_def)
      then have "(num_blocks i - 523) div 512 = p" "(num_blocks i - 523) mod 512 = m - 1"
        unfolding e using m(1) that by simp_all
      then show ?thesis using c n that by (simp add: clean_double_def)
    qed
  qed (use m in auto)
  have "map (word_at (blocks s) ?b) [0..m - 1] = map ?f [522 + 512 * p..522 + 512 * p + m - 1]"
    by (rule nth_equalityI) (use w m in auto)
  moreover have "min (522 + 512 * p + 511) (num_blocks i - 1) = 522 + 512 * p + m - 1" by (simp add: m_def)
  ultimately show ?thesis unfolding single_tree_def L by (simp only:)
qed

lemma disjoint_with: "A \<inter> B = {} \<Longrightarrow> a \<noteq> b \<Longrightarrow> a \<notin> B \<Longrightarrow> b \<notin> A \<Longrightarrow> (A \<union> {a}) \<inter> (B \<union> {b}) = {}"
  by blast

lemma double_tree_blocks:
  assumes wf: "wf_file s i" and n: "522 < num_blocks i" and c: "clean_double s i"
  defines "w \<equiv> word_at (blocks s) (double_indirect i)" and "q \<equiv> (num_blocks i - 523) div 512"
  shows "set (double_tree (blocks s) (double_indirect i) @ [double_indirect i]) =
      fblk (blocks s) i ` {522..num_blocks i - 1} \<union> {double_indirect i} \<union> w ` {0..q}"
    "distinct (double_tree (blocks s) (double_indirect i) @ [double_indirect i])"
proof -
  let ?f = "fblk (blocks s) i"
  define I where "I = (\<lambda>p. {522 + 512 * p..min (522 + 512 * p + 511) (num_blocks i - 1)})"
  define T where "T = (\<lambda>p. map ?f [522 + 512 * p..min (522 + 512 * p + 511) (num_blocks i - 1)] @ [w p])"
  have T: "set (T p) = ?f ` I p \<union> {w p}" "last (T p) = w p" for p by (auto simp: T_def I_def)
  have "num_blocks i \<le> 235929" using wf by (rule wf_file_size)
  then have q: "0 \<le> q" "q < 512" using n by (auto simp: q_def pos_imp_zdiv_nonneg_iff div_less_iff_less_mult)
  have lists: "w p \<in> set (list_blocks (blocks s) i)" if "0 \<le> p" "p \<le> q" for p
    using word_in_list_blocks [OF n] that by (simp add: w_def q_def)
  have "distinct (map w [0..q])" using wf_file_blocks(5) [OF wf] n by (simp add: list_blocks_def w_def q_def)
  then have inj: "inj_on w {0..q}" by (simp add: distinct_map)
  have dbl: "double_indirect i \<notin> w ` {0..q}" "double_indirect i \<in> set (list_blocks (blocks s) i)"
    using wf_file_blocks(5) [OF wf] n by (simp_all add: list_blocks_def w_def q_def)
  have "listed (blocks s (double_indirect i)) = map w [0..(q + 1) - 1]"
    unfolding w_def
  proof (rule listed_upto)
    show "word_at (blocks s) (double_indirect i) j \<noteq> 0" if "0 \<le> j" "j < q + 1" for j
      using lists [of j] wf_file_blocks(2) [OF wf] that data_block_nonzero by (auto simp: w_def)
    show "word_at (blocks s) (double_indirect i) (q + 1) = 0" if "q + 1 < 512"
      using c n that by (simp add: clean_double_def q_def)
  qed (use q in auto)
  then have tree: "double_tree (blocks s) (double_indirect i) = concat (map T [0..q])"
    using double_list_blocks [OF wf n c] by (auto simp: double_tree_def T_def w_def q_def intro!: arg_cong [of _ _ concat])
  have I: "k \<in> I p \<longleftrightarrow> 522 \<le> k \<and> k < num_blocks i \<and> (k - 522) div 512 = p" if "0 \<le> p" for k p
  proof -
    note k = div_mult_mod_eq [of "k - 522" 512] pos_mod_sign [of 512 "k - 522"] pos_mod_bound [of 512 "k - 522"]
    have "(k - 522) div 512 = p" if "522 + 512 * p \<le> k" "k \<le> 522 + 512 * p + 511"
      by (rule int_div_pos_eq [of _ _ _ "k - 522 - 512 * p"]) (use that in auto)
    moreover have "522 + 512 * p \<le> k" "k \<le> 522 + 512 * p + 511" if "(k - 522) div 512 = p"
      using that k by linarith+
    ultimately show ?thesis using that by (auto simp: I_def)
  qed
  have U: "(\<Union>p \<in> {0..q}. I p) = {522..num_blocks i - 1}"
  proof -
    have "0 \<le> (k - 522) div 512 \<and> (k - 522) div 512 \<le> q" if "522 \<le> k" "k < num_blocks i" for k
      using that by (auto simp: q_def pos_imp_zdiv_nonneg_iff intro!: zdiv_mono1)
    then show ?thesis by (auto simp: I)
  qed
  have "set (concat (map T [0..q])) = ?f ` {522..num_blocks i - 1} \<union> w ` {0..q}"
    unfolding U [symmetric] by (auto simp: T(1))
  then show set: "set (double_tree (blocks s) (double_indirect i) @ [double_indirect i]) =
      ?f ` {522..num_blocks i - 1} \<union> {double_indirect i} \<union> w ` {0..q}"
    using tree by auto
  have data: "?f k \<notin> set (list_blocks (blocks s) i)" if "k \<in> I p" "0 \<le> p" for k p
    using wf_file_fblk [OF wf, of k] that by (simp add: I)
  have fi: "?f k = ?f l \<longleftrightarrow> k = l" if "k \<in> I p" "l \<in> I p'" "0 \<le> p" "0 \<le> p'" for k l p p'
    using wf_file_inj [OF wf] that by (simp add: I)
  have out: "w r \<notin> ?f ` I p" if pr: "0 \<le> p" "0 \<le> r" "r \<le> q" for p r
  proof
    assume "w r \<in> ?f ` I p"
    then obtain k where "k \<in> I p" "w r = ?f k" by blast
    then show False using data [of k p] lists [OF pr(2,3)] pr(1) by simp
  qed
  have "distinct (concat (map T [0..q]))"
  proof (rule distinct_concat)
    have "inj_on T {0..q}" using inj T(2) by (metis inj_on_def)
    then show "distinct (map T [0..q])" by (simp add: distinct_map)
    show "distinct ys" if ys: "ys \<in> set (map T [0..q])" for ys
    proof -
      obtain p where p: "ys = T p" "0 \<le> p" "p \<le> q" using ys by auto
      have "inj_on ?f (I p)" using fi p(2) by (auto intro!: inj_onI)
      moreover have "w p \<notin> ?f ` I p" using data [OF _ p(2)] lists [OF p(2,3)] by auto
      ultimately show ?thesis unfolding p(1) T_def by (simp add: distinct_map I_def)
    qed
    show "set ys \<inter> set zs = {}" if ys: "ys \<in> set (map T [0..q])" "zs \<in> set (map T [0..q])" and neq: "ys \<noteq> zs" for ys zs
    proof -
      obtain p p' where p: "ys = T p" "p \<in> {0..q}" "zs = T p'" "p' \<in> {0..q}" using ys by auto
      then have ne: "p \<noteq> p'" using neq by auto
      have "I p \<inter> I p' = {}" using ne p(2,4) by (auto simp: I)
      then have "?f ` I p \<inter> ?f ` I p' = {}" using fi p(2,4) by fastforce
      moreover have "w p \<noteq> w p'" using inj p ne by (auto simp: inj_on_def)
      moreover have "w p \<notin> ?f ` I p'" "w p' \<notin> ?f ` I p"
        using out [of p' p] out [of p p'] p(2,4) by simp_all
      ultimately show ?thesis unfolding p(1,3) T(1) by (rule disjoint_with)
    qed
  qed
  moreover have "double_indirect i \<notin> set (concat (map T [0..q]))"
    using dbl data by (auto simp: T(1))
  ultimately show "distinct (double_tree (blocks s) (double_indirect i) @ [double_indirect i])" unfolding tree by simp
qed

end
