(* ===== verification/Truncate.thy ===== *)
theory Truncate
  imports ListRelease
begin

text \<open>
  Shortening a file (\<open>remove_dblocks_from_inode\<close> and \<open>custom_truncate\<close> of
  \<open>lib/file_layer.c\<close>): cuts within the last block, of files whose blocks are all direct, and of
  longer files back into the direct or the single indirect range. The blocks behind the new end and
  the list blocks of the ranges left become free and the bytes before it stay; but in the single
  indirect range the list block keeps the numbers of the released blocks. A cut in the double
  indirect range frees the wrong lists (\<open>file_layer.c\<close> computes their number from the number of data
  blocks) and is left out.
\<close>

section \<open>The two loops\<close>

lemma list_all_update: "list_all P xs \<Longrightarrow> P v \<Longrightarrow> list_all P (xs[k := v])"
  by (induction xs arbitrary: k) (auto split: nat.splits)

lemma drop_direct_loop:
  fixes s :: "'a bstate_scheme"
  assumes "0 \<le> f" "f \<le> n" "n \<le> 10" "length (direct_blocks i) = 10"
    and "releasable s (map (\<lambda>k. direct_blocks i ! nat k) [f..n - 1])"
  shows "\<exists>ds s'. for_loop f n drop_direct_step (i, s) =
      Some (Inl (i\<lparr>direct_blocks := ds\<rparr>, s') :: (iNode \<times> 'a bstate_scheme + 'r)) \<and>
    length ds = 10 \<and> (\<forall>k < 10. int k < f \<longrightarrow> ds ! k = direct_blocks i ! k) \<and>
    (list_all in_s64 (direct_blocks i) \<longrightarrow> list_all in_s64 ds) \<and>
    released s (map (\<lambda>k. direct_blocks i ! nat k) [f..n - 1]) s'"
  using assms
proof (induction "nat (n - f)" arbitrary: f i s)
  case 0
  then have "fl_inv s" by (simp add: releasable_def)
  with 0 show ?case by (intro exI [of _ "direct_blocks i"] exI [of _ s]) (simp add: released_Nil)
next
  case (Suc m)
  let ?w = "\<lambda>k. direct_blocks i ! nat k"
  have f: "f < n" "0 \<le> f" using Suc.hyps(2) Suc.prems(1) by auto
  have items: "map ?w [f..n - 1] = [?w f] @ map ?w [f + 1..n - 1]" using f by (simp add: upto_rec1)
  have rel: "releasable s ([?w f] @ map ?w [f + 1..n - 1])" using Suc.prems(5) items by simp
  obtain t where t: "free_dblock s (?w f) = Some (True, t)" "released s [?w f] t"
    by (rule free_dblock_released [OF releasable_append1 [OF rel]])
  define ds where "ds = (direct_blocks i)[nat f := 0]"
  let ?i = "i\<lparr>direct_blocks := ds\<rparr>"
  have step: "drop_direct_step f (i, s) = Some (Next (?i, t))"
    using t(1) f Suc.prems(3,4) by (simp add: drop_direct_step_def array_get_def array_set_def ds_def)
  have same: "map (\<lambda>k. direct_blocks ?i ! nat k) [f + 1..n - 1] = map ?w [f + 1..n - 1]"
    using f by (auto simp: ds_def)
  have rest: "releasable t (map (\<lambda>k. direct_blocks ?i ! nat k) [f + 1..n - 1])"
    unfolding same by (rule releasable_rest [OF rel t(2)])
  have bounds: "m = nat (n - (f + 1))" "0 \<le> f + 1" "f + 1 \<le> n" "length (direct_blocks ?i) = 10"
    using f Suc.hyps(2) Suc.prems(4) by (auto simp: ds_def)
  obtain es s' where
    r: "for_loop (f + 1) n drop_direct_step (?i, t) =
      Some (Inl (?i\<lparr>direct_blocks := es\<rparr>, s') :: (iNode \<times> 'a bstate_scheme + 'r))"
    "length es = 10" "\<forall>k < 10. int k < f + 1 \<longrightarrow> es ! k = direct_blocks ?i ! k"
    "list_all in_s64 (direct_blocks ?i) \<longrightarrow> list_all in_s64 es"
    "released t (map (\<lambda>k. direct_blocks ?i ! nat k) [f + 1..n - 1]) s'"
    using Suc.hyps(1) [OF bounds(1-3) Suc.prems(3) bounds(4) rest] by blast
  have "released s ([?w f] @ map ?w [f + 1..n - 1]) s'"
    using released_append [OF t(2) r(5) [unfolded same]] .
  moreover have "for_loop f n drop_direct_step (i, s) =
      Some (Inl (i\<lparr>direct_blocks := es\<rparr>, s') :: (iNode \<times> 'a bstate_scheme + 'r))"
  proof -
    have "for_loop f n drop_direct_step (i, s) =
        (for_loop (f + 1) n drop_direct_step (?i, t) :: (iNode \<times> 'a bstate_scheme + 'r) option)"
      using f(1) step by (intro for_loop_next) auto
    then show ?thesis using r(1) by simp
  qed
  moreover have "es ! k = direct_blocks i ! k" if "k < 10" "int k < f" for k
    using r(3) that by (simp add: ds_def)
  moreover have "list_all in_s64 (direct_blocks i) \<longrightarrow> list_all in_s64 es"
    using r(4) list_all_update [of in_s64 "direct_blocks i" 0 "nat f"] by (auto simp: ds_def in_s64_def)
  ultimately show ?case using r(2) unfolding items by blast
qed

text \<open>
  Words \<open>lo\<close> to \<open>hi - 1\<close> of a list block: those that are not 0 are released; releasing block 0
  is refused without effect.
\<close>

lemma free_dblock_zero: "free_dblock s 0 = Some (False, s)"
  by (simp add: free_dblock_def geometry)

lemma drop_words_loop:
  fixes s :: "'a bstate_scheme"
  assumes "0 \<le> lo" "lo \<le> hi" "hi \<le> 512" "\<And>k. lo \<le> k \<Longrightarrow> k < hi \<Longrightarrow> ld_s64 b (8 * k) = w k"
    and "releasable s (filter (\<lambda>v. v \<noteq> 0) (map w [lo..hi - 1]))"
  shows "\<exists>b' s'. for_loop lo hi (drop_word_step free_dblock) (b, s) = Some (Inl (b', s') :: (_ + buffer \<times> 'a bstate_scheme)) \<and>
    released s (filter (\<lambda>v. v \<noteq> 0) (map w [lo..hi - 1])) s'"
  using assms
proof (induction "nat (hi - lo)" arbitrary: lo b s)
  case 0
  then have "fl_inv s" "lo = hi" by (simp_all add: releasable_def)
  then show ?case by (auto simp: released_Nil)
next
  case (Suc m)
  let ?r = "\<lambda>lo. filter (\<lambda>v. v \<noteq> 0) (map w [lo..hi - 1])"
  have lo: "lo < hi" "0 \<le> lo" using Suc.hyps(2) Suc.prems(1) by auto
  have items: "?r lo = filter (\<lambda>v. v \<noteq> 0) [w lo] @ ?r (lo + 1)" using lo by (simp add: upto_rec1)
  have rel: "releasable s (filter (\<lambda>v. v \<noteq> 0) [w lo] @ ?r (lo + 1))" using Suc.prems(5) items by simp
  have word: "word_get b lo = Some (w lo)" using lo Suc.prems(3,4) by simp
  obtain ok t where t: "free_dblock s (w lo) = Some (ok, t)" "released s (filter (\<lambda>v. v \<noteq> 0) [w lo]) t"
  proof (cases "w lo = 0")
    case True
    have "fl_inv s" using rel by (simp add: releasable_def)
    then show thesis using True that [of False s] by (simp add: free_dblock_zero released_Nil)
  next
    case False
    then have "releasable s [w lo]" using releasable_append1 [OF rel] by simp
    then obtain t where "free_dblock s (w lo) = Some (True, t)" "released s [w lo] t"
      by (rule free_dblock_released)
    then show thesis using False that [of True t] by simp
  qed
  let ?b = "st_s64 b (8 * lo) 0"
  have step: "drop_word_step free_dblock lo (b, s) = Some (Next (?b, t))"
    using word t(1) lo Suc.prems(3) by (simp add: drop_word_step_def word_set_def)
  have words: "ld_s64 ?b (8 * k) = w k" if "lo + 1 \<le> k" "k < hi" for k
    using Suc.prems(4) [of k] that by (simp add: ld_st_s64_other)
  have rest: "releasable t (?r (lo + 1))" by (rule releasable_rest [OF rel t(2)])
  have bounds: "0 \<le> lo + 1" "lo + 1 \<le> hi" "m = nat (hi - (lo + 1))" using lo Suc.hyps(2) by auto
  obtain b' s' where r: "for_loop (lo + 1) hi (drop_word_step free_dblock) (?b, t) =
      Some (Inl (b', s') :: (_ + buffer \<times> 'a bstate_scheme))" "released t (?r (lo + 1)) s'"
    using Suc.hyps(1) [OF bounds(3,1,2) Suc.prems(3) words rest] by auto
  have "released s (?r lo) s'" unfolding items by (rule released_append [OF t(2) r(2)])
  moreover have "for_loop lo hi (drop_word_step free_dblock) (b, s) =
      Some (Inl (b', s') :: (_ + buffer \<times> 'a bstate_scheme))"
  proof -
    have "for_loop lo hi (drop_word_step free_dblock) (b, s) =
        (for_loop (lo + 1) hi (drop_word_step free_dblock) (?b, t) :: (_ + buffer \<times> 'a bstate_scheme) option)"
      using lo(1) step by (intro for_loop_next) auto
    then show ?thesis using r(1) by simp
  qed
  ultimately show ?case by blast
qed

section \<open>Removing the blocks from a number on\<close>

text \<open>
  What a cut at block \<open>f\<close> releases: the blocks from number \<open>f\<close> on, and the list blocks no longer
  needed: all of them when the direct range is left, all but the single indirect one when that
  stays.
\<close>

definition behind :: "'a bstate_scheme \<Rightarrow> iNode \<Rightarrow> int \<Rightarrow> int list" where
  "behind s i f = map (fblk (blocks s) i) [f..num_blocks i - 1] @
     (if num_blocks i \<le> f then [] else drop (if f \<le> 10 then 0 else 1) (list_blocks (blocks s) i))"

text \<open>
  The cuts the code gets right: within the last block, or with all blocks direct, or back into the
  direct or the single indirect range of a file whose lists end where it ends.
\<close>

definition cuttable :: "'a bstate_scheme \<Rightarrow> iNode \<Rightarrow> int \<Rightarrow> bool" where
  "cuttable s i f \<longleftrightarrow> num_blocks i \<le> f \<or> num_blocks i \<le> 10 \<or> f \<le> 522 \<and> clean_list s i \<and> clean_double s i"

lemma list_blocks_drop: "set (drop n (list_blocks (blocks s) i)) \<subseteq> set (list_blocks (blocks s) i)"
  by (rule set_drop_subset)

lemma behind_owned: "0 \<le> f \<Longrightarrow> set (behind s i f) \<subseteq> set (owned (blocks s) i)"
  using list_blocks_drop [of _ s i] by (auto simp: behind_def owned_def data_of_def)

lemma behind_distinct:
  assumes "wf_file s i" "0 \<le> f"
  shows "distinct (behind s i f)"
proof -
  have "inj_on (fblk (blocks s) i) {f..num_blocks i - 1}"
    using wf_file_inj [OF assms(1)] assms(2) by (auto intro!: inj_onI)
  moreover have "fblk (blocks s) i ` {f..num_blocks i - 1} \<inter> set (list_blocks (blocks s) i) = {}"
    using wf_file_fblk [OF assms(1)] assms(2) by auto
  ultimately show ?thesis
    using wf_file_blocks(5) [OF assms(1)] list_blocks_drop [of _ s i] by (auto simp: behind_def distinct_map)
qed

lemma releasable_cong:
  "releasable s ns \<Longrightarrow> set ms = set ns \<Longrightarrow> distinct ms \<Longrightarrow> releasable s ms"
  by (simp add: releasable_def)

lemma released_cong: "released s ms s' \<Longrightarrow> set ms = set ns \<Longrightarrow> released s ns s'"
  by (simp add: released_def)

lemma behind_releasable:
  assumes "fl_inv s" "free_set s \<noteq> {}" "wf_file s i" "0 \<le> f"
  shows "releasable s (behind s i f)"
  using assms behind_distinct [OF assms(3,4)] behind_owned [OF assms(4), of s i]
  by (auto simp: releasable_def wf_file_def)

lemma kept_not_behind:
  assumes "wf_file s i" "0 \<le> f" "f \<le> num_blocks i" "0 \<le> k" "k < f"
  shows "fblk (blocks s) i k \<notin> set (behind s i f)"
proof
  assume "fblk (blocks s) i k \<in> set (behind s i f)"
  moreover have "fblk (blocks s) i k \<notin> set (list_blocks (blocks s) i)"
    using wf_file_fblk [OF assms(1,4)] assms(3,5) by simp
  ultimately obtain l where l: "f \<le> l" "l < num_blocks i" "fblk (blocks s) i k = fblk (blocks s) i l"
    using list_blocks_drop [of _ s i] by (auto simp: behind_def split: if_splits)
  then show False using wf_file_inj [OF assms(1), of k l] assms by auto
qed

text \<open>The parts the code releases one after the other.\<close>

definition double_part :: "'a bstate_scheme \<Rightarrow> iNode \<Rightarrow> int list" where
  "double_part s i = (if 522 < num_blocks i then double_tree (blocks s) (double_indirect i) @ [double_indirect i] else [])"

lemma double_part_blocks:
  assumes "wf_file s i" "10 < num_blocks i" "clean_double s i"
  shows "set (double_part s i) = fblk (blocks s) i ` {522..num_blocks i - 1} \<union> set (drop 1 (list_blocks (blocks s) i))"
    "distinct (double_part s i)"
proof -
  have "set (double_part s i) = fblk (blocks s) i ` {522..num_blocks i - 1} \<union> set (drop 1 (list_blocks (blocks s) i)) \<and>
    distinct (double_part s i)"
  proof (cases "522 < num_blocks i")
    case True
    have "set (drop 1 (list_blocks (blocks s) i)) =
        {double_indirect i} \<union> word_at (blocks s) (double_indirect i) ` {0..(num_blocks i - 523) div 512}"
      using True by (simp add: list_blocks_def)
    then show ?thesis using double_tree_blocks [OF assms(1) True assms(3)] True
      unfolding double_part_def by (simp only: if_True Un_assoc simp_thms)
  next
    case False
    then show ?thesis using assms(2) by (simp add: double_part_def list_blocks_def)
  qed
  then show "set (double_part s i) = fblk (blocks s) i ` {522..num_blocks i - 1} \<union> set (drop 1 (list_blocks (blocks s) i))"
    "distinct (double_part s i)" by blast+
qed

lemma data_apart:
  assumes "wf_file s i" "A \<subseteq> {0..num_blocks i - 1}" "B \<subseteq> {0..num_blocks i - 1}" "A \<inter> B = {}"
  shows "fblk (blocks s) i ` A \<inter> fblk (blocks s) i ` B = {}"
proof -
  have "inj_on (fblk (blocks s) i) {0..num_blocks i - 1}" using wf_file_inj [OF assms(1)] by (auto intro!: inj_onI)
  then show ?thesis using assms(2-4) inj_on_image_Int by (metis image_empty)
qed

lemma data_lists_apart:
  assumes "wf_file s i" "A \<subseteq> {0..num_blocks i - 1}"
  shows "fblk (blocks s) i ` A \<inter> set (list_blocks (blocks s) i) = {}"
  using wf_file_fblk [OF assms(1)] assms(2) by (fastforce simp: subset_iff)

lemma data_distinct:
  assumes "wf_file s i" "0 \<le> a" "b < num_blocks i"
  shows "distinct (map (fblk (blocks s) i) [a..b])"
  using wf_file_inj [OF assms(1)] assms(2,3) by (auto simp: distinct_map intro!: inj_onI)

lemma apart_with: "X \<inter> L = {} \<Longrightarrow> X \<inter> Y = {} \<Longrightarrow> Z \<subseteq> L \<Longrightarrow> X \<inter> (Y \<union> Z) = {}"
  by blast

lemma apart_both:
  "X \<inter> Y = {} \<Longrightarrow> X \<inter> L = {} \<Longrightarrow> Y \<inter> L = {} \<Longrightarrow> a \<in> L \<Longrightarrow> Z \<subseteq> L \<Longrightarrow> a \<notin> Z \<Longrightarrow>
   (X \<union> {a}) \<inter> (Y \<union> Z) = {}"
  by blast

lemma cut_parts:
  assumes wf: "wf_file s i" and n: "10 < num_blocks i" and c: "clean_list s i" "clean_double s i"
    and f: "0 \<le> f" "f < num_blocks i" "f \<le> 522"
  defines "d \<equiv> \<lambda>a b. map (fblk (blocks s) i) [a..b]"
  shows "f \<le> 10 \<Longrightarrow> set (d f 9 @ single_tree (blocks s) (single_indirect i) @ double_part s i) = set (behind s i f)"
    "f \<le> 10 \<Longrightarrow> distinct (d f 9 @ single_tree (blocks s) (single_indirect i) @ double_part s i)"
    "10 < f \<Longrightarrow> set (d f (min 521 (num_blocks i - 1)) @ double_part s i) = set (behind s i f)"
    "10 < f \<Longrightarrow> distinct (d f (min 521 (num_blocks i - 1)) @ double_part s i)"
proof -
  let ?f = "fblk (blocks s) i" and ?L = "list_blocks (blocks s) i" and ?m = "min 521 (num_blocks i - 1)"
  note S = single_tree_blocks [OF wf n c(1)] and D = double_part_blocks [OF wf n c(2)]
  have L: "?L = single_indirect i # drop 1 ?L" using n by (simp add: list_blocks_def)
  have sL: "single_indirect i \<in> set ?L" "single_indirect i \<notin> set (drop 1 ?L)" "set (drop 1 ?L) \<subseteq> set ?L"
    using wf_file_blocks(5) [OF wf] L set_drop_subset [of 1 ?L] by (metis distinct.simps(2) list.set_intros(1))+
  have set_L: "set ?L = {single_indirect i} \<union> set (drop 1 ?L)" using L by (metis insert_is_Un list.simps(15))
  have ranges: "{f..9} \<subseteq> {0..num_blocks i - 1}" "{10..?m} \<subseteq> {0..num_blocks i - 1}"
    "{522..num_blocks i - 1} \<subseteq> {0..num_blocks i - 1}" "{f..?m} \<subseteq> {0..num_blocks i - 1}" using f n by auto
  have disj: "{f..9} \<inter> {10..?m} = {}" "{f..9} \<inter> {522..num_blocks i - 1} = {}"
    "{10..?m} \<inter> {522..num_blocks i - 1} = {}" "{f..?m} \<inter> {522..num_blocks i - 1} = {}" by auto
  note A = data_apart [OF wf ranges(1,2) disj(1)] data_apart [OF wf ranges(1,3) disj(2)]
    data_apart [OF wf ranges(2,3) disj(3)] data_apart [OF wf ranges(4,3) disj(4)]
  note B = data_lists_apart [OF wf ranges(1)] data_lists_apart [OF wf ranges(2)]
    data_lists_apart [OF wf ranges(3)] data_lists_apart [OF wf ranges(4)]
  {
    assume f10: "f \<le> 10"
    have U: "{f..num_blocks i - 1} = {f..9} \<union> ({10..?m} \<union> {522..num_blocks i - 1})" using f10 n by auto
    have "set (behind s i f) = ?f ` {f..num_blocks i - 1} \<union> set ?L" using f(2) f10 by (simp add: behind_def)
    then show "set (d f 9 @ single_tree (blocks s) (single_indirect i) @ double_part s i) = set (behind s i f)"
      unfolding U set_L d_def set_append S(1) D(1) image_Un set_map set_upto by blast
    have s9: "set (d f 9) = ?f ` {f..9}" by (simp add: d_def)
    have "set (d f 9) \<inter> set (single_tree (blocks s) (single_indirect i)) = {}"
      unfolding s9 S(1) by (rule apart_with [OF B(1) A(1)]) (use sL(1) in simp)
    moreover have "set (d f 9) \<inter> set (double_part s i) = {}"
      unfolding s9 D(1) by (rule apart_with [OF B(1) A(2) sL(3)])
    moreover have "set (single_tree (blocks s) (single_indirect i)) \<inter> set (double_part s i) = {}"
      unfolding S(1) D(1) by (rule apart_both [OF A(3) B(2,3) sL(1,3,2)])
    moreover have "distinct (d f 9)" unfolding d_def using n f(1) by (intro data_distinct [OF wf]) auto
    ultimately show "distinct (d f 9 @ single_tree (blocks s) (single_indirect i) @ double_part s i)"
      using S(2) D(2) by (simp add: Int_Un_distrib)
  }
  {
    assume f10: "10 < f"
    have U: "{f..num_blocks i - 1} = {f..?m} \<union> {522..num_blocks i - 1}" using f f10 by auto
    have "set (behind s i f) = ?f ` {f..num_blocks i - 1} \<union> set (drop 1 ?L)" using f(2) f10 by (simp add: behind_def)
    then show "set (d f ?m @ double_part s i) = set (behind s i f)"
      unfolding U d_def set_append D(1) image_Un set_map set_upto by blast
    have sm: "set (d f ?m) = ?f ` {f..?m}" by (simp only: d_def set_map set_upto)
    have "set (d f ?m) \<inter> set (double_part s i) = {}"
      unfolding sm D(1) by (rule apart_with [OF B(4) A(4) sL(3)])
    moreover have "distinct (d f ?m)" unfolding d_def using n f(1) by (intro data_distinct [OF wf]) auto
    ultimately show "distinct (d f ?m @ double_part s i)" using D(2) by simp
  }
qed

text \<open>The file without its last blocks, once they are released.\<close>

lemma shortened:
  assumes wf: "wf_file s i" and e: "extends i' i" and n: "num_blocks i' = f" "0 \<le> f" "f < num_blocks i"
    and f: "num_blocks i \<le> 10 \<or> f \<le> 522" and r: "released s (behind s i f) s'"
  shows "wf_file s' i'" "0 \<le> k \<Longrightarrow> k < f \<Longrightarrow> fblk (blocks s') i' k = fblk (blocks s) i k"
    "0 \<le> k \<Longrightarrow> k < f \<Longrightarrow> blocks s' (fblk (blocks s) i k) = blocks s (fblk (blocks s) i k)"
    "b \<in> set (list_blocks (blocks s) i') \<Longrightarrow> blocks s' b = blocks s b"
    "set (owned (blocks s') i') \<subseteq> set (owned (blocks s) i)"
proof -
  have wf': "wf_file s i'" by (rule extends_wf [OF e wf])
  have own: "set (owned (blocks s) i') \<subseteq> set (owned (blocks s) i)" by (rule extends_owned [OF e])
  obtain zs where lists: "list_blocks (blocks s) i = list_blocks (blocks s) i' @ zs" using extends_lists [OF e] by blast
  have keep: "blocks s' b = blocks s b" if "b \<notin> free_set s" "data_block b" "b \<notin> set (behind s i f)" for b
    using r that data_block_nonzero by (simp add: released_def)
  have old: "fblk (blocks s) i' k = fblk (blocks s) i k" if "0 \<le> k" "k < f" for k
    using extends_fblk [OF e that(1)] that(2) n(1) by simp
  have list_kept: "b \<notin> set (behind s i f)" if b: "b \<in> set (list_blocks (blocks s) i')" for b
  proof -
    have "b \<in> set (list_blocks (blocks s) i)" using b lists by simp
    then have "b \<notin> fblk (blocks s) i ` {f..num_blocks i - 1}"
      using wf_file_fblk [OF wf] n(2) by auto
    moreover have "list_blocks (blocks s) i' = take (if f \<le> 10 then 0 else 1) (list_blocks (blocks s) i)"
      using lists n f by (auto simp: list_blocks_def)
    then have "b \<notin> set (drop (if f \<le> 10 then 0 else 1) (list_blocks (blocks s) i))"
      using b wf_file_blocks(5) [OF wf] set_take_disj_set_drop_if_distinct by fastforce
    ultimately show ?thesis using n(3) by (simp add: behind_def)
  qed
  have list_same: "blocks s' b = blocks s b" if "b \<in> set (list_blocks (blocks s) i')" for b
    using keep list_kept [OF that] wf_file_blocks(2) [OF wf' that] by blast
  then show "b \<in> set (list_blocks (blocks s) i') \<Longrightarrow> blocks s' b = blocks s b" .
  note M = map_frame [where bs = "blocks s'", OF wf' list_same]
  show "0 \<le> k \<Longrightarrow> k < f \<Longrightarrow> fblk (blocks s') i' k = fblk (blocks s) i k"
    using M(3) old n(1) by simp
  have fn: "f \<le> num_blocks i" using n(3) by simp
  have kept: "fblk (blocks s) i k \<notin> set (behind s i f) \<and> data_block (fblk (blocks s) i k) \<and>
      fblk (blocks s) i k \<notin> free_set s" if "0 \<le> k" "k < f" for k
    using kept_not_behind [OF wf n(2) fn that] wf_file_fblk [OF wf that(1)] that(2) n(3) by simp
  then show "0 \<le> k \<Longrightarrow> k < f \<Longrightarrow> blocks s' (fblk (blocks s) i k) = blocks s (fblk (blocks s) i k)"
    using keep by blast
  have own': "owned (blocks s') i' = owned (blocks s) i'" using M(1,2) by (simp add: owned_def)
  show "set (owned (blocks s') i') \<subseteq> set (owned (blocks s) i)" unfolding own' by (rule own)
  have free: "free_set s' = free_set s \<union> set (behind s i f)" using r by (simp add: released_def)
  have "b \<notin> free_set s'" if "b \<in> set (owned (blocks s) i')" for b
  proof -
    have "b \<notin> set (behind s i f)"
    proof (cases "b \<in> set (data_of (blocks s) i')")
      case True
      then obtain k where "0 \<le> k" "k < f" "b = fblk (blocks s) i' k" using n(1) by (auto simp: in_data_of)
      then show ?thesis using kept old by metis
    next
      case False
      then show ?thesis using that list_kept by (simp add: owned_def)
    qed
    then show ?thesis using that wf' free by (simp add: wf_file_def)
  qed
  then show "wf_file s' i'" using wf' unfolding wf_file_def own' by blast
qed

text \<open>Giving up the lists behind the direct blocks, and the double indirect ones.\<close>

lemma double_part_frame:
  assumes "\<And>b. b \<in> set (double_part s i) \<Longrightarrow> blocks t b = blocks s b"
  shows "double_part t i = double_part s i"
proof (cases "522 < num_blocks i")
  case True
  then have d: "blocks t (double_indirect i) = blocks s (double_indirect i)" using assms by (simp add: double_part_def)
  have "single_tree (blocks t) v = single_tree (blocks s) v" if "v \<in> set (listed (blocks s (double_indirect i)))" for v
  proof -
    have "v \<in> set (double_part s i)" using in_double_tree [of v "blocks s" "double_indirect i"] that True by (simp add: double_part_def)
    then show ?thesis using assms by (simp add: single_tree_def)
  qed
  then show ?thesis using True d by (auto simp: double_part_def double_tree_def intro!: arg_cong [of _ _ concat])
qed (simp add: double_part_def)

lemma remove_double_part:
  assumes "releasable t (double_part s i)" "\<And>b. b \<in> set (double_part s i) \<Longrightarrow> blocks t b = blocks s b"
  obtains s' where "522 < num_blocks i \<Longrightarrow> remove_double_indirect t (double_indirect i) = Some (True, s')"
    "num_blocks i \<le> 522 \<Longrightarrow> s' = t" "released t (double_part s i) s'"
proof (cases "522 < num_blocks i")
  case True
  have e: "double_part t i = double_part s i" by (rule double_part_frame [OF assms(2)])
  then have "releasable t (double_tree (blocks t) (double_indirect i) @ [double_indirect i])"
    using assms(1) True by (simp add: double_part_def)
  then obtain s' where "remove_double_indirect t (double_indirect i) = Some (True, s')"
    "released t (double_tree (blocks t) (double_indirect i) @ [double_indirect i]) s'" by (rule remove_double_ok)
  with True that e show thesis by (auto simp: double_part_def)
next
  case False
  then have "released t (double_part s i) t" using assms(1) by (simp add: double_part_def released_Nil releasable_def)
  with False that show thesis by auto
qed

text \<open>The cut in the direct range, and in the single indirect range.\<close>

lemma remove_from_direct_ok:
  fixes s :: "'a bstate_scheme"
  assumes "fl_inv s" "free_set s \<noteq> {}" "wf_file s i" "0 < f" "f < num_blocks i" "f \<le> 10"
    and "10 < num_blocks i" "clean_list s i" "clean_double s i"
  obtains ds d s' where "remove_dblocks_from_inode s i f = Some (True,
      i\<lparr>num_blocks := f, direct_blocks := ds, single_indirect := 0, double_indirect := d\<rparr>, s')"
    "released s (behind s i f) s'" "length ds = 10" "\<forall>k < 10. int k < f \<longrightarrow> ds ! k = direct_blocks i ! k"
    "list_all in_s64 (direct_blocks i) \<longrightarrow> list_all in_s64 ds" "d = 0 \<or> d = double_indirect i"
proof -
  let ?i = "i\<lparr>num_blocks := f\<rparr>" and ?S = "single_tree (blocks s) (single_indirect i)"
  let ?D = "map (fblk (blocks s) i) [f..9]"
  have f: "0 \<le> f" "f \<le> 522" "length (direct_blocks i) = 10" using assms(3,4,6) by (simp_all add: wf_file_def)
  note P = cut_parts(1,2) [OF assms(3,7-9) f(1) assms(5) f(2) assms(6)]
  have rel: "releasable s (?D @ ?S @ double_part s i)"
    using releasable_cong [OF behind_releasable [OF assms(1-3) f(1)]] P by simp
  have D: "?D = map (\<lambda>k. direct_blocks ?i ! nat k) [f..10 - 1]" by (simp add: fblk_def)
  have "releasable s (map (\<lambda>k. direct_blocks ?i ! nat k) [f..10 - 1])"
    using releasable_append1 [OF rel] unfolding D .
  from drop_direct_loop [OF f(1) assms(6) _ _ this] f(3) obtain ds t where
    t: "for_loop f 10 drop_direct_step (?i, s) =
      Some (Inl (?i\<lparr>direct_blocks := ds\<rparr>, t) :: (_ + bool \<times> iNode \<times> 'a bstate_scheme))"
    "length ds = 10" "\<forall>k < 10. int k < f \<longrightarrow> ds ! k = direct_blocks i ! k"
    "list_all in_s64 (direct_blocks i) \<longrightarrow> list_all in_s64 ds" "released s ?D t" unfolding D by auto
  have same: "blocks t b = blocks s b" if "b \<in> set (?S @ double_part s i)" for b
    by (rule released_keeps [OF rel t(5) that])
  then have "blocks t (single_indirect i) = blocks s (single_indirect i)" by (simp add: single_tree_def)
  then have e: "single_tree (blocks t) (single_indirect i) = ?S" by (simp add: single_tree_def)
  note rel' = releasable_rest [OF rel t(5)]
  obtain u where u: "remove_single_indirect t (single_indirect i) = Some (True, u)" "released t ?S u"
    using remove_single_ok [of t "single_indirect i"] releasable_append1 [OF rel'] unfolding e by blast
  have same': "blocks u b = blocks s b" if "b \<in> set (double_part s i)" for b
    using released_keeps [OF rel' u(2) that] same [of b] that by simp
  obtain s' where s': "522 < num_blocks i \<Longrightarrow> remove_double_indirect u (double_indirect i) = Some (True, s')"
    "num_blocks i \<le> 522 \<Longrightarrow> s' = u" "released u (double_part s i) s'"
    using remove_double_part [OF releasable_rest [OF rel' u(2)] same'] by blast
  have "released s (?D @ ?S @ double_part s i) s'"
    by (rule released_append [OF t(5) released_append [OF u(2) s'(3)]])
  then have R: "released s (behind s i f) s'" by (rule released_cong [OF _ P(1)])
  have n: "num_blocks i \<le> 235929" using assms(3) by (rule wf_file_size)
  show thesis
  proof (cases "522 < num_blocks i")
    case True
    have "remove_dblocks_from_inode s i f = Some (True,
        i\<lparr>num_blocks := f, direct_blocks := ds, single_indirect := 0, double_indirect := 0\<rparr>, s')"
      using t(1) u(1) s'(1) [OF True] True n assms(5-7)
      by (simp add: remove_dblocks_from_inode_def remove_from_direct_def geometry Let_def)
    with R t(2-4) that show thesis by blast
  next
    case False
    have "remove_dblocks_from_inode s i f = Some (True,
        i\<lparr>num_blocks := f, direct_blocks := ds, single_indirect := 0, double_indirect := double_indirect i\<rparr>, s')"
      using t(1) u(1) s'(2) False assms(5-7)
      by (simp add: remove_dblocks_from_inode_def remove_from_direct_def geometry Let_def)
    with R t(2-4) that show thesis by blast
  qed
qed

lemma remove_from_single_ok:
  fixes s :: "'a bstate_scheme"
  assumes "fl_inv s" "free_set s \<noteq> {}" "wf_file s i" "10 < f" "f < num_blocks i" "f \<le> 522"
    and "clean_list s i" "clean_double s i"
  obtains d s' where "remove_dblocks_from_inode s i f = Some (True, i\<lparr>num_blocks := f, double_indirect := d\<rparr>, s')"
    "released s (behind s i f) s'" "d = 0 \<or> d = double_indirect i"
proof -
  define w where "w = word_at (blocks s) (single_indirect i)"
  let ?i = "i\<lparr>num_blocks := f\<rparr>" and ?s = "single_indirect i"
  define D where "D = map (fblk (blocks s) i) [f..min 521 (num_blocks i - 1)]"
  have n: "10 < num_blocks i" "0 \<le> f" "0 < f" using assms(4,5) by simp_all
  note P = cut_parts(3,4) [OF assms(3) n(1) assms(7,8) n(2) assms(5,6,4), folded D_def]
  have rel: "releasable s (D @ double_part s i)"
    using releasable_cong [OF behind_releasable [OF assms(1-3) n(2)]] P by simp
  have sd: "data_block ?s" using single_in_list_blocks [OF n(1)] wf_file_blocks(2) [OF assms(3)] by blast
  have h: "healthy s" using assms(1) by (simp add: fl_inv_def)
  define hi where "hi = f - 10 + (if num_blocks i - 10 < 512 - (f - 10) then num_blocks i - 10 - (f - 10) else 512 - (f - 10))"
  define e where "e = min 512 (num_blocks i - 10)"
  have hi: "f - 10 \<le> e" "e \<le> hi" "hi \<le> 512" using assms(4-6) by (auto simp: hi_def e_def)
  have tail: "filter (\<lambda>v. v \<noteq> 0) (map w [e..hi - 1]) = []"
    using assms(7) hi by (auto simp: filter_empty_conv clean_list_def w_def e_def)
  have split: "[f - 10..hi - 1] = [f - 10..e - 1] @ [e..hi - 1]"
    using upto_split1 [of "f - 10" e "hi - 1"] hi by (cases "hi = e") auto
  have D: "D = map w [f - 10..e - 1]"
  proof -
    have "map (fblk (blocks s) i) [f..x] = map w [f - 10..x - 10]" if "x \<le> 521" for x
      by (rule nth_equalityI) (use assms(4) that in \<open>auto simp: fblk_def w_def algebra_simps\<close>)
    moreover have "e - 1 = min 521 (num_blocks i - 1) - 10" by (simp add: e_def)
    ultimately show ?thesis unfolding D_def by (simp only: min.cobounded1)
  qed
  have "\<forall>v \<in> set D. v \<noteq> 0" using rel data_block_nonzero by (auto simp: releasable_def)
  then have "filter (\<lambda>v. v \<noteq> 0) D = D" by simp
  then have words: "filter (\<lambda>v. v \<noteq> 0) (map w [f - 10..hi - 1]) = D" unfolding split using tail D by simp
  have ld: "ld_s64 (blocks s ?s) (8 * k) = w k" for k by (simp add: w_def word_at_def)
  have lo: "0 \<le> f - 10" "f - 10 \<le> hi" using assms(4) hi by simp_all
  have "releasable s (filter (\<lambda>v. v \<noteq> 0) (map w [f - 10..hi - 1]))" unfolding words by (rule releasable_append1 [OF rel])
  from drop_words_loop [OF lo hi(3) ld this] obtain b' t where
    t: "for_loop (f - 10) hi (drop_word_step free_dblock) (blocks s ?s, s) =
      Some (Inl (b', t) :: (_ + buffer \<times> 'a bstate_scheme))" "released s D t" unfolding words by auto
  obtain s' where s': "522 < num_blocks i \<Longrightarrow> remove_double_indirect t (double_indirect i) = Some (True, s')"
    "num_blocks i \<le> 522 \<Longrightarrow> s' = t" "released t (double_part s i) s'"
    using remove_double_part [OF releasable_rest [OF rel t(2)] released_keeps [OF rel t(2)]] by blast
  have R: "released s (behind s i f) s'" by (rule released_cong [OF released_append [OF t(2) s'(3)] P(1)])
  show thesis
  proof (cases "522 < num_blocks i")
    case True
    have "remove_dblocks_from_inode s i f = Some (True, i\<lparr>num_blocks := f, double_indirect := 0\<rparr>, s')"
      using t(1) s'(1) [OF True] True assms(4-6) read_dblock_healthy [OF h sd]
      unfolding remove_dblocks_from_inode_def remove_from_single_def drop_words_def hi_def
      by (simp add: geometry Let_def)
    with R that show thesis by blast
  next
    case False
    have "remove_dblocks_from_inode s i f = Some (True, i\<lparr>num_blocks := f, double_indirect := double_indirect i\<rparr>, s')"
      using t(1) s'(2) False assms(4-6) read_dblock_healthy [OF h sd]
      unfolding remove_dblocks_from_inode_def remove_from_single_def drop_words_def hi_def
      by (simp add: geometry Let_def)
    with R that show thesis by blast
  qed
qed

lemma remove_dblocks_ok:
  fixes s :: "'a bstate_scheme"
  assumes "fl_inv s" "free_set s \<noteq> {}" "wf_file s i" "0 < f" "f < num_blocks i" "cuttable s i f"
  obtains i' s' where "remove_dblocks_from_inode s i f = Some (True, i', s')"
    "released s (behind s i f) s'" "extends i' i" "num_blocks i' = f" "inode_rest i' = inode_rest i"
    "wf_inode i \<longrightarrow> wf_inode i'" "10 < f \<longrightarrow> single_indirect i' = single_indirect i"
proof -
  have len: "length (direct_blocks i) = 10" "0 \<le> num_blocks i" "0 \<le> f" using assms(3,4) by (simp_all add: wf_file_def)
  have small: "in_s64 f" "in_s64 0" using wf_file_size [OF assms(3)] assms(4,5) by (simp_all add: in_s64_def)
  consider "num_blocks i \<le> 10" | "10 < num_blocks i" "f \<le> 10" "clean_list s i" "clean_double s i"
    | "10 < f" "f \<le> 522" "clean_list s i" "clean_double s i"
    using assms(5,6) unfolding cuttable_def by linarith
  then show thesis
  proof cases
    case 1
    let ?i = "i\<lparr>num_blocks := f\<rparr>"
    have b: "behind s i f = map (\<lambda>k. direct_blocks ?i ! nat k) [f..num_blocks i - 1]"
      using 1 by (auto simp: behind_def fblk_def list_blocks_def)
    have rel: "releasable s (behind s i f)" using assms by (intro behind_releasable) auto
    have "0 \<le> f" "f \<le> num_blocks i" "length (direct_blocks ?i) = 10" using assms(4,5) len by simp_all
    from drop_direct_loop [OF this(1,2) 1 this(3) rel [unfolded b]] obtain ds s' where
      r: "for_loop f (num_blocks i) drop_direct_step (?i, s) =
        Some (Inl (?i\<lparr>direct_blocks := ds\<rparr>, s') :: (_ + bool \<times> iNode \<times> 'a bstate_scheme))"
      "length ds = 10" "\<forall>k < 10. int k < f \<longrightarrow> ds ! k = direct_blocks i ! k"
      "list_all in_s64 (direct_blocks i) \<longrightarrow> list_all in_s64 ds" "released s (behind s i f) s'"
      unfolding b by auto
    have "remove_dblocks_from_inode s i f = Some (True, ?i\<lparr>direct_blocks := ds\<rparr>, s')"
      using r(1) 1 assms(5) by (simp add: remove_dblocks_from_inode_def remove_from_direct_def geometry Let_def)
    then show thesis
      using r(2-5) 1 assms(4,5) small len
      by (intro that [of "?i\<lparr>direct_blocks := ds\<rparr>" s']) (auto simp: extends_def inode_rest_def wf_inode_def)
  next
    case 2
    obtain ds d s' where r: "remove_dblocks_from_inode s i f = Some (True,
        i\<lparr>num_blocks := f, direct_blocks := ds, single_indirect := 0, double_indirect := d\<rparr>, s')"
      "released s (behind s i f) s'" "length ds = 10" "\<forall>k < 10. int k < f \<longrightarrow> ds ! k = direct_blocks i ! k"
      "list_all in_s64 (direct_blocks i) \<longrightarrow> list_all in_s64 ds" "d = 0 \<or> d = double_indirect i"
      by (rule remove_from_direct_ok [OF assms(1-5) 2(2,1,3,4)])
    show thesis
      by (rule that [OF r(1,2)]) (use r(3-6) 2 assms(5) small len in \<open>auto simp: extends_def inode_rest_def wf_inode_def\<close>)
  next
    case 3
    obtain d s' where r: "remove_dblocks_from_inode s i f = Some (True, i\<lparr>num_blocks := f, double_indirect := d\<rparr>, s')"
      "released s (behind s i f) s'" "d = 0 \<or> d = double_indirect i"
      by (rule remove_from_single_ok [OF assms(1-3) 3(1) assms(5) 3(2-4)])
    show thesis
      by (rule that [OF r(1,2)]) (use r(3) 3 assms(5) small len in \<open>auto simp: extends_def inode_rest_def wf_inode_def\<close>)
  qed
qed

section \<open>Shortening a file\<close>

text \<open>
  \<open>s'\<close>, \<open>i'\<close>: the file \<open>i\<close> of \<open>s\<close> without the blocks from number \<open>f\<close> on, the bytes before
  \<open>a\<close> kept.
\<close>

definition cut_off ::
  "'a bstate_scheme \<Rightarrow> iNode \<Rightarrow> int \<Rightarrow> int \<Rightarrow> iNode \<Rightarrow> 'a bstate_scheme \<Rightarrow> bool" where
  "cut_off s i f a i' s' \<longleftrightarrow>
     fl_inv s' \<and> core s' = core s \<and> wf_file s' i' \<and> num_blocks i' = f \<and> inode_rest i' = inode_rest i \<and>
     (wf_inode i \<longrightarrow> wf_inode i') \<and> free_set s' = free_set s \<union> set (behind s i f) \<and>
     set (owned (blocks s') i') \<subseteq> set (owned (blocks s) i) \<and>
     set (data_of (blocks s') i') \<subseteq> set (data_of (blocks s) i) \<and>
     (\<forall>b. b \<noteq> 0 \<longrightarrow> b \<notin> free_set s' \<longrightarrow> b \<notin> set (data_of (blocks s) i) \<longrightarrow> blocks s' b = blocks s b) \<and>
     (\<forall>x. 0 \<le> x \<and> x < a \<longrightarrow> file_byte s' i' x = file_byte s i x)"

lemma cut_off_blocks:
  fixes s :: "'a bstate_scheme"
  assumes "fl_inv s" "free_set s \<noteq> {}" "wf_file s i" "0 < f" "f \<le> num_blocks i" "cuttable s i f"
  obtains i' s' where
    "(if num_blocks i > f then remove_dblocks_from_inode s i f else Some (True, i, s)) = Some (True, i', s')"
    "cut_off s i f (f * 4096) i' s'"
proof (cases "f = num_blocks i")
  case True
  then have "cut_off s i f (f * 4096) i s"
    using assms(1,3) by (simp add: cut_off_def behind_def owned_def)
  with True that show thesis by simp
next
  case False
  then have f: "f < num_blocks i" using assms(5) by simp
  obtain i' s' where r: "remove_dblocks_from_inode s i f = Some (True, i', s')"
    "released s (behind s i f) s'" "extends i' i" "num_blocks i' = f" "inode_rest i' = inode_rest i"
    "wf_inode i \<longrightarrow> wf_inode i'"
    by (rule remove_dblocks_ok [OF assms(1-4) f assms(6)])
  have f0: "0 \<le> f" "num_blocks i \<le> 10 \<or> f \<le> 522" using assms(4,6) f by (auto simp: cuttable_def)
  note S = shortened [OF assms(3) r(3,4) f0(1) f f0(2) r(2)]
  have byte: "file_byte s' i' x = file_byte s i x" if x: "0 \<le> x" "x < f * 4096" for x
    using S(2,3) [of "x div 4096"] byte_index [OF x] by (simp add: file_byte_def)
  have "set (data_of (blocks s') i') \<subseteq> set (data_of (blocks s) i)"
    using S(2) f r(4) by (auto simp: data_of_def)
  then have "cut_off s i f (f * 4096) i' s'"
    using r S(1,5) byte by (simp add: cut_off_def released_def)
  with r(1) f that show thesis by simp
qed

text \<open>Zeroing the rest of block \<open>k\<close> from position \<open>a\<close> of the file on.\<close>

lemma zero_rest:
  assumes "fl_inv s" "wf_file s i" "0 \<le> k" "k < num_blocks i" "a = 4096 * k + q" "0 \<le> q" "q \<le> 4096"
  obtains s' where "write_dblock s (fblk (blocks s) i k)
      (memset0 (blocks s (fblk (blocks s) i k)) q (4096 - q)) = (True, s')"
    "overwritten s i a (4096 - q) (replicate (nat (4096 - q)) 0) s'"
proof -
  let ?buff = "replicate (nat (4096 - q)) 0 :: byte list"
  have len: "0 \<le> 4096 - q" "q + (4096 - q) \<le> 4096" "0 + (4096 - q) \<le> int (length ?buff)"
    using assms(7) by auto
  have pos: "0 \<le> (0 :: int)" "a + 0 = 4096 * k + q" using assms(5) by auto
  obtain b s' where b: "copy_in (blocks s (fblk (blocks s) i k)) q ?buff 0 (4096 - q) = Some b"
    "write_dblock s (fblk (blocks s) i k) b = (True, s')" "overwritten s i a (0 + (4096 - q)) ?buff s'"
    by (rule overwrite_step [OF overwritten_none [OF assms(1,2)] assms(2-4) pos assms(6) len])
  have "b = memset0 (blocks s (fblk (blocks s) i k)) q (4096 - q)"
    using b(1) by (auto simp: copy_in_def memset0_def fun_eq_iff split: if_splits)
  with b that show thesis by simp
qed

lemma cut_off_zeroed:
  assumes "wf_file s i" "cut_off s i f (f * 4096) j t" "overwritten t j a w buff u" "0 \<le> f" "a \<le> f * 4096"
  shows "cut_off s i f a j u"
proof -
  have t: "wf_file t j" "num_blocks j = f" "set (data_of (blocks t) j) \<subseteq> set (data_of (blocks s) i)"
    using assms(2) by (simp_all add: cut_off_def)
  have frame: "\<forall>b. b \<notin> set (data_of (blocks t) j) \<longrightarrow> blocks u b = blocks t b"
    using assms(3) by (simp add: overwritten_def)
  note M = data_write_frame [OF t(1) frame]
  then have own: "owned (blocks u) j = owned (blocks t) j" "data_of (blocks u) j = data_of (blocks t) j"
    by (simp_all add: owned_def)
  have "blocks u b = blocks s b" if "b \<noteq> 0" "b \<notin> free_set u" "b \<notin> set (data_of (blocks s) i)" for b
  proof -
    have "b \<notin> set (data_of (blocks t) j)" using that(3) t(3) by blast
    moreover have "free_set u = free_set t" using assms(3) by (simp add: overwritten_def)
    ultimately show ?thesis using frame that assms(2) by (simp add: cut_off_def)
  qed
  moreover have "file_byte u j x = file_byte s i x" if "0 \<le> x" "x < a" for x
    using that assms(2,3,5) t(2) by (simp add: overwritten_def cut_off_def)
  ultimately show ?thesis
    unfolding cut_off_def own using assms(2,3) by (simp add: cut_off_def overwritten_def)
qed

lemma custom_truncate_ok:
  fixes s :: "'a fstate_scheme"
  assumes look: "get_inode_num_from_path s path = Some (inum, s1)"
    and s: "fl_inv s" "sb_ok s" "inum_ok inum" "free_set s \<noteq> {}"
    and i: "i = inode_at s inum" "wf_file s i" "size_ok i" "cuttable s i (a div 4096 + 1)"
    and a: "0 \<le> a" "a \<le> file_size i" "0 < file_size i"
  obtains i' s' where "custom_truncate s path a = Some (0, s')" "fl_inv s'" "sb_ok s'" "inode_at s' inum = i'"
    "\<forall>m. inum_ok m \<longrightarrow> m \<noteq> inum \<longrightarrow> inode_at s' m = inode_at s m"
    "wf_file s' i'" "size_ok i'" "file_size i' = a" "num_blocks i' = a div 4096 + 1"
    "free_set s' = free_set s \<union> set (behind s i (a div 4096 + 1))"
    "\<forall>x. 0 \<le> x \<and> x < a \<longrightarrow> file_byte s' i' x = file_byte s i x"
    "\<forall>b. data_block b \<longrightarrow> b \<notin> free_set s' \<longrightarrow> b \<notin> set (data_of (blocks s) i) \<longrightarrow> blocks s' b = blocks s b"
    "mode i' = mode i" "set (owned (blocks s') i') \<subseteq> set (owned (blocks s) i)" "core s' = core s1"
proof -
  obtain c where c: "s1 = s\<lparr>iname_cache := c\<rparr>" using path_lookup_frame [OF look] by blast
  define k where "k = a div 4096"
  define q where "q = a mod 4096"
  have kq: "a = 4096 * k + q" "0 \<le> q" "q < 4096" "0 \<le> k" using a(1) by (auto simp: k_def q_def pos_imp_zdiv_nonneg_iff)
  have size: "file_size i < num_blocks i * 4096" using i(3) a(3) by (auto simp: size_ok_def)
  then have kn: "k < num_blocks i" using a(2) kq by linarith
  have v: "fl_inv s1" "sb_ok s1" "free_set s1 \<noteq> {}" "wf_file s1 i" "cuttable s1 i (k + 1)" "inode_at s1 inum = i"
    using s i c by (simp_all add: k_def cuttable_def clean_list_def clean_double_def)
  have f: "0 < k + 1" "k + 1 \<le> num_blocks i" "k < k + 1" using kq(4) kn by auto
  obtain j t where r: "(if num_blocks i > k + 1 then remove_dblocks_from_inode s1 i (k + 1)
      else Some (True, i, s1)) = Some (True, j, t)" "cut_off s1 i (k + 1) ((k + 1) * 4096) j t"
    by (rule cut_off_blocks [OF v(1,3,4) f(1,2) v(5)])
  then have t: "fl_inv t" "wf_file t j" "num_blocks j = k + 1" by (simp_all add: cut_off_def)
  then have h: "healthy t" "k < num_blocks j" by (simp_all add: fl_inv_def)
  note F = fetch_block [OF h(1) t(2) kq(4) h(2)]
  have q': "q \<le> 4096" using kq(3) by simp
  obtain u where z: "write_dblock t (fblk (blocks t) j k)
      (memset0 (blocks t (fblk (blocks t) j k)) q (4096 - q)) = (True, u)"
    "overwritten t j a (4096 - q) (replicate (nat (4096 - q)) 0) u"
    by (rule zero_rest [OF t(1,2) kq(4) h(2) kq(1,2) q'])
  have a': "0 \<le> k + 1" "a \<le> (k + 1) * 4096" using kq by auto
  have u: "cut_off s1 i (k + 1) a j u" by (rule cut_off_zeroed [OF v(4) r(2) z(2) a'])
  then have U: "fl_inv u" "core u = core s1" "wf_file u j" "num_blocks j = k + 1" "inode_rest j = inode_rest i"
    "wf_inode i \<longrightarrow> wf_inode j" by (simp_all add: cut_off_def)
  have wfi: "wf_inode i" using i(1) by (simp add: inode_at_def)
  have "file_size i < 2 ^ 63" using wfi by (simp add: wf_inode_def in_s64_def)
  then have av: "in_s64 a" using a by (simp add: in_s64_def)
  let ?i = "j\<lparr>file_size := a\<rparr>"
  have wf: "wf_inode ?i" using U(6) wfi av by (simp add: wf_inode_def)
  obtain s' where w: "write_inode u inum ?i = Some (True, s')" "fl_inv s'" "sb_ok s'" "core s' = core u"
    "free_set s' = free_set u" "\<And>b. data_block b \<Longrightarrow> blocks s' b = blocks u b"
    "\<And>m. inum_ok m \<Longrightarrow> inode_at s' m = (if m = inum then ?i else inode_at u m)"
    using store_inode [OF U(1) core_sb_ok [OF U(2) v(2)] s(3) wf] by metis
  have sub: "free_set s' \<subseteq> free_set u" using w(5) by simp
  have same: "\<forall>b. data_block b \<longrightarrow> blocks s' b = blocks u b" using w(6) by blast
  note D = data_frame [OF U(3) sub same]
  have rest: "fblk bs ?i = fblk bs j \<and> wf_file s' ?i = wf_file s' j \<and> file_byte s' ?i = file_byte s' j" for bs
    by (rule wf_file_rest) simp_all
  have run: "custom_truncate s path a = Some (0, s')"
  proof -
    have "read_inode s1 inum = Some (Some i)"
      using read_inode_ok [of s1 inum] v s(3) by (simp add: fl_inv_def)
    moreover have "u64 (file_size i) = file_size i" "s64 a = a"
      using a \<open>file_size i < 2 ^ 63\<close> av by (simp_all add: u64_id s64_id)
    ultimately show ?thesis
      unfolding custom_truncate_def
      using look s(3) r(1) F z(1) w(1) a
      by (simp add: inum_ok_def BLOCK_SIZE_val k_def [symmetric] q_def [symmetric] Let_def split del: if_split)
  qed
  have inode: "inode_at u m = inode_at s m" if "inum_ok m" for m
  proof -
    have b: "inode_block m \<noteq> 0" "\<not> data_block (inode_block m)" using inode_block_not_data [OF that] by auto
    then have "inode_block m \<notin> free_set u" "inode_block m \<notin> set (data_of (blocks s1) i)"
      using fl_inv_data_block [OF U(1)] wf_file_blocks(1) [OF v(4)] by blast+
    then have "blocks u (inode_block m) = blocks s1 (inode_block m)" using u b(1) by (simp add: cut_off_def)
    then show ?thesis by (simp add: inode_at_def c)
  qed
  show thesis
  proof (rule that [OF run w(2,3)])
    show "inode_at s' inum = ?i" using w(7) [OF s(3)] by simp
    show "\<forall>m. inum_ok m \<longrightarrow> m \<noteq> inum \<longrightarrow> inode_at s' m = inode_at s m" using w(7) inode by simp
    show "wf_file s' ?i" using rest D(1) by blast
    show "size_ok ?i" using kq U(4) a(1) by (simp add: size_ok_def)
    show "num_blocks ?i = a div 4096 + 1" using U(4) by (simp add: k_def)
    show "free_set s' = free_set s \<union> set (behind s i (a div 4096 + 1))"
      using w(5) u by (simp add: cut_off_def c behind_def k_def)
    show "\<forall>x. 0 \<le> x \<and> x < a \<longrightarrow> file_byte s' ?i x = file_byte s i x"
    proof (intro allI impI)
      fix x assume x: "0 \<le> x \<and> x < a"
      then have "x < num_blocks j * 4096" using U(4) kq by simp
      then have "file_byte s' j x = file_byte u j x" using D(2) x by blast
      moreover have "file_byte u j x = file_byte s1 i x" using u x by (simp add: cut_off_def)
      ultimately show "file_byte s' ?i x = file_byte s i x" using rest c by simp
    qed
    show "\<forall>b. data_block b \<longrightarrow> b \<notin> free_set s' \<longrightarrow> b \<notin> set (data_of (blocks s) i) \<longrightarrow> blocks s' b = blocks s b"
      using w(5,6) u c data_block_nonzero by (auto simp: cut_off_def)
    show "mode ?i = mode i" using inode_rest_fields(2) [OF U(5)] by simp
    show "set (owned (blocks s') ?i) \<subseteq> set (owned (blocks s) i)"
    proof -
      have f: "fblk bs ?i = fblk bs j" for bs by (simp add: fblk_def fun_eq_iff)
      have "owned (blocks s') ?i = owned (blocks s') j"
        unfolding owned_def data_of_def list_blocks_def f by simp
      also have "\<dots> = owned (blocks u) j"
        by (rule file_frame(2) [OF U(3) sub]) (use same U(3) in \<open>simp add: wf_file_def\<close>)
      finally show ?thesis using u by (simp add: cut_off_def c)
    qed
    show "core s' = core s1" using w(4) U(2) by simp
  qed simp
qed

section \<open>A file that uses its single indirect list, for closed examples\<close>

definition long_file :: iNode where
  "long_file = sample_file\<lparr>direct_blocks := [30000..30009], single_indirect := 30010, num_blocks := 12,
     file_size := 46000\<rparr>"

definition long_volume :: bstate where
  "long_volume = file_volume\<lparr>blocks := (blocks file_volume)(30010 :=
     st_s64 (st_s64 zero_buf 0 30011) 8 30012)\<rparr>"

lemma long_words:
  "word_at (blocks long_volume) 30010 k = (if k = 0 then 30011 else if k = 1 then 30012 else
     word_at (\<lambda>_. zero_buf) 0 k)" if "0 \<le> k"
  using that by (auto simp: long_volume_def word_at_def ld_st_s64_same ld_st_s64_other in_s64_def)

lemma zero_words: "word_at (\<lambda>_. zero_buf) b k = 0"
  by (simp add: word_at_def)

lemma long_file_facts:
  "fl_inv long_volume" "free_set long_volume = {26215, 26216}" "wf_file long_volume long_file"
  "clean_list long_volume long_file" "num_blocks long_file = 12" "single_indirect long_file = 30010"
proof -
  show f: "fl_inv long_volume" "free_set long_volume = {26215, 26216}"
    using fl_inv_write_used [OF file_volume_facts(1), of 30010] file_volume_facts(2)
    unfolding long_volume_def by auto
  show n: "num_blocks long_file = 12" "single_indirect long_file = 30010" by (simp_all add: long_file_def)
  have "[0..11] = [0, 1, 2, 3, 4, 5, 6, 7, 8, 9, 10, 11 :: int]" by (simp add: upto_rec1)
  moreover have "[30000..30009] = [30000, 30001, 30002, 30003, 30004, 30005, 30006, 30007, 30008, 30009 :: int]"
    by (simp add: upto_rec1)
  ultimately have o: "owned (blocks long_volume) long_file = [30000, 30001, 30002, 30003, 30004, 30005, 30006,
      30007, 30008, 30009, 30011, 30012, 30010]"
    by (simp add: owned_def data_of_def list_blocks_def n fblk_def long_words)
      (simp add: long_file_def)
  show "wf_file long_volume long_file"
    unfolding wf_file_def o f(2) by (simp add: n data_block_def geometry long_file_def)
  show "clean_list long_volume long_file"
    by (simp add: clean_list_def n long_words zero_words)
qed

section \<open>Properties\<close>

text \<open>
  C11: shortening a file to a position in it succeeds while the volume is not full, if no whole
  block is cut off, or all blocks of the file are direct, or the cut leaves at most 522 blocks (the
  direct and the single indirect range) and the list blocks hold zeros behind the end of the file:
  the bytes before the position stay, the size is the position, the blocks behind it and the list
  blocks no longer needed become free, and no other inode or block in use changes.
\<close>

theorem custom_truncate_keeps_the_prefix:
  fixes s :: "'a fstate_scheme"
  assumes "get_inode_num_from_path s path = Some (inum, s1)"
    and "fl_inv s" "sb_ok s" "inum_ok inum" "free_set s \<noteq> {}"
    and "i = inode_at s inum" "wf_file s i" "size_ok i" "cuttable s i (a div 4096 + 1)"
    and "0 \<le> a" "a \<le> file_size i" "0 < file_size i"
  shows "\<exists>i' s'. custom_truncate s path a = Some (0, s') \<and> fl_inv s' \<and> inode_at s' inum = i' \<and>
    wf_file s' i' \<and> size_ok i' \<and> file_size i' = a \<and> file_bytes s' i' 0 a = file_bytes s i 0 a \<and>
    free_set s' = free_set s \<union> set (behind s i (a div 4096 + 1)) \<and>
    (\<forall>m. inum_ok m \<longrightarrow> m \<noteq> inum \<longrightarrow> inode_at s' m = inode_at s m) \<and>
    (\<forall>b. data_block b \<longrightarrow> b \<notin> free_set s' \<longrightarrow> b \<notin> set (data_of (blocks s) i) \<longrightarrow> blocks s' b = blocks s b)"
proof -
  obtain i' s' where r: "custom_truncate s path a = Some (0, s')" "fl_inv s'" "sb_ok s'" "inode_at s' inum = i'"
    "\<forall>m. inum_ok m \<longrightarrow> m \<noteq> inum \<longrightarrow> inode_at s' m = inode_at s m"
    "wf_file s' i'" "size_ok i'" "file_size i' = a" "num_blocks i' = a div 4096 + 1"
    "free_set s' = free_set s \<union> set (behind s i (a div 4096 + 1))"
    "\<forall>x. 0 \<le> x \<and> x < a \<longrightarrow> file_byte s' i' x = file_byte s i x"
    "\<forall>b. data_block b \<longrightarrow> b \<notin> free_set s' \<longrightarrow> b \<notin> set (data_of (blocks s) i) \<longrightarrow> blocks s' b = blocks s b"
    using custom_truncate_ok [OF assms] by metis
  have "file_bytes s' i' 0 a = file_bytes s i 0 a" using r(11) by (intro file_bytes_cong) simp
  with r show ?thesis by blast
qed

theorem custom_truncate_keeps_the_prefix_witness:
  "\<exists>c s'. custom_truncate (file_state c) ''/f'' 100 = Some (0, s') \<and> free_set s' = {26215, 26216, 30001} \<and>
    file_size (inode_at s' 5) = 100"
proof -
  obtain c where c: "lru_rep c [(''/f'', 5)]" by (rule one_path_cached)
  obtain c' where look: "get_inode_num_from_path (file_state c) ''/f'' = Some (5, file_state c\<lparr>iname_cache := c'\<rparr>)"
    by (rule file_state_lookup [OF c])
  note F = file_state_facts [of c]
  have "cuttable (file_state c) sample_file (100 div 4096 + 1)" by (simp add: cuttable_def sample_file_size)
  moreover have "behind (file_state c) sample_file (100 div 4096 + 1) = [30001]"
    by (simp add: behind_def sample_file_size fblk_def list_blocks_def) (simp add: sample_file_def)
  moreover have "free_set (file_state c) \<noteq> {}" using F(2) by simp
  ultimately show ?thesis
    using custom_truncate_keeps_the_prefix [OF look F(1,3) file_volume_facts(4) _ F(4) [symmetric] F(5)
        sample_file_size(1), of 100] F(2)
    by (auto simp: sample_file_size)
qed

text \<open>
  C38: a cut inside the single indirect list releases the blocks behind it, but the list block
  on the device keeps their numbers: the cleared copy is not written back. The blocks of the
  file, as releasing the whole file collects them, then include blocks that are free.
\<close>

theorem truncation_leaves_released_blocks_listed:
  fixes s :: "'a bstate_scheme"
  assumes "fl_inv s" "free_set s \<noteq> {}" "wf_file s i" "10 < f" "f < num_blocks i" "num_blocks i \<le> 522"
    and "clean_list s i"
  shows "\<exists>i' s'. remove_dblocks_from_inode s i f = Some (True, i', s') \<and> num_blocks i' = f \<and>
    (\<forall>k. f \<le> k \<longrightarrow> k < num_blocks i \<longrightarrow>
       fblk (blocks s) i k \<in> free_set s' \<and> fblk (blocks s) i k \<in> set (listed (blocks s' (single_indirect i'))))"
proof -
  have f: "0 < f" "0 \<le> f" "num_blocks i \<le> 10 \<or> f \<le> 522" using assms(4-6) by auto
  have "cuttable s i f" using assms(4-7) by (simp add: cuttable_def clean_double_def)
  then obtain i' s' where r: "remove_dblocks_from_inode s i f = Some (True, i', s')"
    "released s (behind s i f) s'" "extends i' i" "num_blocks i' = f" "single_indirect i' = single_indirect i"
    using remove_dblocks_ok [OF assms(1-3) f(1) assms(5)] assms(4) by metis
  have "single_indirect i \<in> set (list_blocks (blocks s) i')"
    using assms(4) r(4,5) by (simp add: list_blocks_def)
  then have list: "blocks s' (single_indirect i) = blocks s (single_indirect i)"
    using shortened(4) [OF assms(3) r(3,4) f(2) assms(5) f(3) r(2)] by blast
  let ?w = "word_at (blocks s) (single_indirect i)"
  have words: "?w j = fblk (blocks s) i (j + 10)" if "0 \<le> j" "j < num_blocks i - 10" for j
    using that assms(6) by (simp add: fblk_def)
  have nz: "?w j \<noteq> 0" if "0 \<le> j" "j < num_blocks i - 10" for j
    using words [OF that] wf_file_fblk [OF assms(3), of "j + 10"] that data_block_nonzero by auto
  have "fblk (blocks s) i k \<in> set (listed (blocks s (single_indirect i)))" if k: "f \<le> k" "k < num_blocks i" for k
  proof -
    have "listed (blocks s (single_indirect i)) = takeWhile (\<lambda>v. v \<noteq> 0) (map ?w [0..511])"
      by (rule listed_words)
    moreover have "[0..511] = [0..num_blocks i - 11] @ [num_blocks i - 10..511]"
      using upto_split1 [of 0 "num_blocks i - 10" 511] assms(4-6) by (cases "num_blocks i = 522") auto
    moreover have "\<forall>v \<in> set (map ?w [0..num_blocks i - 11]). v \<noteq> 0" using nz by auto
    ultimately have "set (map ?w [0..num_blocks i - 11]) \<subseteq> set (listed (blocks s (single_indirect i)))"
      by (simp add: takeWhile_append)
    moreover have "fblk (blocks s) i k \<in> set (map ?w [0..num_blocks i - 11])"
      using words [of "k - 10"] k assms(4) by (auto intro!: image_eqI [of _ _ "k - 10"])
    ultimately show ?thesis by blast
  qed
  moreover have "fblk (blocks s) i k \<in> free_set s'" if "f \<le> k" "k < num_blocks i" for k
    using r(2) that by (auto simp: released_def behind_def)
  ultimately show ?thesis using r list by (intro exI [of _ i'] exI [of _ s']) simp
qed

theorem truncation_leaves_released_blocks_listed_witness:
  "\<exists>i' s'. remove_dblocks_from_inode long_volume long_file 11 = Some (True, i', s') \<and>
    30012 \<in> free_set s' \<and> 30012 \<in> set (listed (blocks s' (single_indirect i')))"
proof -
  have "fblk (blocks long_volume) long_file 11 = 30012" by (simp add: fblk_def long_file_facts(6) long_words)
  then show ?thesis
    using truncation_leaves_released_blocks_listed [OF long_file_facts(1) _ long_file_facts(3), of 11]
      long_file_facts(2,4,5) by fastforce
qed

end
