(* ===== verification/FuseLayer.thy ===== *)
theory FuseLayer
  imports FileLayer
begin

text \<open>
  The callbacks given to FUSE (\<open>lib/fuse_layer.c\<close>). Each returns the code's \<open>int\<close> with the
  new state. \<open>filler\<close> of \<open>charm_readdir\<close> is FUSE's; what it is called with, in order, is
  part of the result. \<open>errno\<close> is the C library's variable, which these functions do not set:
  its value is a parameter. \<open>fuse_main\<close> is a parameter of the program.
\<close>

section \<open>Attributes\<close>

record stat =
  st_mode :: "32 word"
  st_nlink :: int
  st_uid :: int
  st_gid :: int
  st_rdev :: int
  st_size :: int
  st_blksize :: int
  st_blocks :: int
  st_atime :: int
  st_ctime :: int
  st_mtime :: int
  st_ino :: int

definition empty_stat :: stat where
  "empty_stat = \<lparr>st_mode = 0, st_nlink = 0, st_uid = 0, st_gid = 0, st_rdev = 0, st_size = 0,
     st_blksize = 0, st_blocks = 0, st_atime = 0, st_ctime = 0, st_mtime = 0, st_ino = 0\<rparr>"

definition inode_to_stdbuff :: "iNode \<Rightarrow> stat \<Rightarrow> stat" where
  "inode_to_stdbuff inode stdbuff = stdbuff\<lparr>st_mode := mode inode, st_nlink := u64 (link_count inode),
     st_uid := 0, st_gid := 0, st_rdev := 0, st_size := file_size inode, st_blksize := BLOCK_SIZE,
     st_blocks := num_blocks inode, st_atime := access_time inode,
     st_ctime := status_change_time inode, st_mtime := modification_time inode\<rparr>"

text \<open>A \<open>ssize_t\<close> returned as an \<open>int\<close>.\<close>

definition to_int :: "int \<Rightarrow> int" where "to_int v = signed_take_bit 31 v"

section \<open>Callbacks\<close>

definition charm_access :: "'a fstate_scheme \<Rightarrow> string \<Rightarrow> int \<Rightarrow> (int \<times> 'a fstate_scheme) option" where
  "charm_access s path access_mode = do {
     (inode_num, s) \<leftarrow> get_inode_num_from_path s path;
     if inode_num = -1 then Some (- ENOENT, s) else Some (0, s) }"

definition charm_chown :: "'a fstate_scheme \<Rightarrow> string \<Rightarrow> int \<Rightarrow> int \<Rightarrow> (int \<times> 'a fstate_scheme) option" where
  "charm_chown s path uid gid = Some (0, s)"

definition charm_chmod :: "'a fstate_scheme \<Rightarrow> string \<Rightarrow> 32 word \<Rightarrow> (int \<times> 'a fstate_scheme) option" where
  "charm_chmod s path m = do {
     (inode_num, s) \<leftarrow> get_inode_num_from_path s path;
     if inode_num = -1 then Some (- ENOENT, s)
     else do {
       ptr \<leftarrow> read_inode s inode_num;
       case ptr of
         None \<Rightarrow> Some (-1, s)
       | Some inode \<Rightarrow> do {
           (ok, s) \<leftarrow> write_inode s inode_num (inode\<lparr>mode := m\<rparr>);
           if \<not> ok then Some (-1, s) else Some (0, s) } } }"

definition charm_create :: "int \<Rightarrow> 'a fstate_scheme \<Rightarrow> string \<Rightarrow> 32 word \<Rightarrow> int \<Rightarrow> (int \<times> 'a fstate_scheme) option" where
  "charm_create now s path m flags = do {
     (status, s) \<leftarrow> (if flags AND O_CREAT \<noteq> 0 then custom_mknod now s path (S_IFREG OR m) (-1)
                    else custom_mknod now s path (S_IFREG OR 509) (-1));
     if \<not> status then Some (-1, s) else Some (0, s) }"

definition charm_getattr :: "'a fstate_scheme \<Rightarrow> string \<Rightarrow> (int \<times> stat \<times> 'a fstate_scheme) option" where
  "charm_getattr s path = do {
     (inode_num, s) \<leftarrow> get_inode_num_from_path s path;
     if inode_num = -1 then Some (- ENOENT, empty_stat, s)
     else do {
       ptr \<leftarrow> read_inode s inode_num;
       inode \<leftarrow> ptr;
       Some (0, (inode_to_stdbuff inode empty_stat)\<lparr>st_ino := inode_num\<rparr>, s) } }"

definition charm_open :: "int \<Rightarrow> 'a fstate_scheme \<Rightarrow> string \<Rightarrow> int \<Rightarrow> (int \<times> 'a fstate_scheme) option" where
  "charm_open now s path flags = do {
     (inode_num, s) \<leftarrow> custom_open now s path flags;
     if inode_num \<le> -1 then Some (-1, s) else Some (0, s) }"

definition charm_read ::
  "int \<Rightarrow> 'a fstate_scheme \<Rightarrow> string \<Rightarrow> byte list \<Rightarrow> int \<Rightarrow> int \<Rightarrow>
   (int \<times> byte list \<times> 'a fstate_scheme) option" where
  "charm_read now s path buff nbytes offset = do {
     (nbytes_read, buff, s) \<leftarrow> custom_read now s path buff nbytes (u64 offset);
     Some (to_int nbytes_read, buff, s) }"

text \<open>
  The records of one directory block, as \<open>charm_readdir\<close> walks them. Two records at the same
  place make the walk endless: its value is then \<open>None\<close>.
\<close>

definition read_name :: "buffer \<Rightarrow> int \<Rightarrow> int \<Rightarrow> string option" where
  "read_name b p n =
     (if in_block p n
      then Some (takeWhile (\<lambda>c. c \<noteq> CHR 0x00) (map (\<lambda>i. char_of (uint (b (p + int i)))) [0..<nat n]))
      else None)"

partial_function (option) readdir_block ::
  "'a fstate_scheme \<Rightarrow> buffer \<Rightarrow> int \<Rightarrow> (string \<times> stat) list \<Rightarrow> (string \<times> stat) list option" where
  "readdir_block s dblock offset acc =
     (if offset < BLOCK_SIZE then do {
        file_inode_num \<leftarrow> rd_s64 dblock offset;
        entry_size \<leftarrow> rd_s64 dblock (offset + INODE_SZ);
        file_name_size \<leftarrow> rd_u16 dblock (offset + INODE_SZ + ADDRESS_PTR_SZ);
        file_name \<leftarrow> read_name dblock (offset + INODE_SZ + ADDRESS_PTR_SZ + STRING_LENGTH_SZ) file_name_size;
        ptr \<leftarrow> read_inode s file_inode_num;
        file_inode \<leftarrow> ptr;
        let stdbuff = (inode_to_stdbuff file_inode empty_stat)\<lparr>st_ino := file_inode_num\<rparr>;
        readdir_block s dblock (offset + entry_size) (acc @ [(file_name, stdbuff)]) }
      else Some acc)"

definition readdir_step ::
  "'a fstate_scheme \<Rightarrow> iNode \<Rightarrow> int \<Rightarrow> (string \<times> stat) list \<Rightarrow> ((string \<times> stat) list, 'r) ctl option" where
  "readdir_step s inode = (\<lambda>fblock_num acc. do {
     dblock_num \<leftarrow> fblock_num_to_dblock_num s inode fblock_num;
     dblock \<leftarrow> read_dblock s dblock_num;
     acc \<leftarrow> readdir_block s dblock 0 acc;
     Some (Next acc) })"

definition charm_readdir :: "'a fstate_scheme \<Rightarrow> string \<Rightarrow> (int \<times> (string \<times> stat) list \<times> 'a fstate_scheme) option" where
  "charm_readdir s path = do {
     (inode_num, s) \<leftarrow> get_inode_num_from_path s path;
     if inode_num = -1 then Some (- ENOENT, [], s)
     else do {
       ptr \<leftarrow> read_inode s inode_num;
       inode \<leftarrow> ptr;
       if \<not> S_ISDIR (mode inode) then Some (- ENOTDIR, [], s)
       else do {
         r \<leftarrow> for_loop 0 (num_blocks inode) (readdir_step s inode) [];
         case r of Inl filled \<Rightarrow> Some (0, filled, s) | Inr x \<Rightarrow> Some x } } }"

definition charm_rmdir :: "int \<Rightarrow> 'a fstate_scheme \<Rightarrow> string \<Rightarrow> (int \<times> 'a fstate_scheme) option" where
  "charm_rmdir now s path = do {
     (status, s) \<leftarrow> custom_unlink now s path;
     if status = -1 then Some (-1, s) else Some (0, s) }"

definition charm_mkdir :: "int \<Rightarrow> 'a fstate_scheme \<Rightarrow> string \<Rightarrow> 32 word \<Rightarrow> (int \<times> 'a fstate_scheme) option" where
  "charm_mkdir now s path m = do {
     (status, s) \<leftarrow> custom_mkdir now s path m;
     if \<not> status then Some (-1, s) else Some (0, s) }"

definition charm_mknod :: "int \<Rightarrow> 'a fstate_scheme \<Rightarrow> string \<Rightarrow> 32 word \<Rightarrow> int \<Rightarrow> (int \<times> 'a fstate_scheme) option" where
  "charm_mknod now s path m dev = do {
     (status, s) \<leftarrow> custom_mknod now s path m dev;
     if \<not> status then Some (-1, s) else Some (0, s) }"

definition charm_utimens :: "'a fstate_scheme \<Rightarrow> string \<Rightarrow> (int \<times> 'a fstate_scheme) option" where
  "charm_utimens s path = Some (0, s)"

definition charm_truncate :: "'a fstate_scheme \<Rightarrow> string \<Rightarrow> int \<Rightarrow> (int \<times> 'a fstate_scheme) option" where
  "charm_truncate s path offset = do {
     (status, s) \<leftarrow> custom_truncate s path (u64 offset);
     if status = -1 then Some (-1, s) else Some (0, s) }"

definition charm_unlink :: "int \<Rightarrow> 'a fstate_scheme \<Rightarrow> string \<Rightarrow> (int \<times> 'a fstate_scheme) option" where
  "charm_unlink now s path = do {
     (status, s) \<leftarrow> custom_unlink now s path;
     if status = -1 then Some (-1, s) else Some (0, s) }"

definition charm_write ::
  "int \<Rightarrow> 'a fstate_scheme \<Rightarrow> string \<Rightarrow> byte list \<Rightarrow> int \<Rightarrow> int \<Rightarrow> (int \<times> 'a fstate_scheme) option" where
  "charm_write now s path buff nbytes offset = do {
     (nbytes_wrote, s) \<leftarrow> custom_write now s path buff nbytes (u64 offset);
     Some (to_int nbytes_wrote, s) }"

section \<open>Renaming\<close>

text \<open>
  The copying loop: \<open>bytes_read\<close> is a \<open>size_t\<close>, so a failed read (-1) counts as a positive
  number of bytes. \<open>True\<close> means that control reaches the code behind the loop.
\<close>

partial_function (option) rename_copy ::
  "int \<Rightarrow> 'a fstate_scheme \<Rightarrow> string \<Rightarrow> string \<Rightarrow> byte list \<Rightarrow> int \<Rightarrow> (bool \<times> 'a fstate_scheme) option" where
  "rename_copy now s old new buffer offset = do {
     (r, buffer, s) \<leftarrow> custom_read now s old buffer BLOCK_SIZE offset;
     let bytes_read = u64 r;
     if bytes_read > 0 then do {
       (w, s) \<leftarrow> custom_write now s new buffer bytes_read offset;
       if bytes_read \<noteq> u64 w then Some (False, s)
       else rename_copy now s old new buffer (u64 (offset + bytes_read)) }
     else Some (True, s) }"

definition charm_rename ::
  "int \<Rightarrow> int \<Rightarrow> 'a fstate_scheme \<Rightarrow> string \<Rightarrow> string \<Rightarrow> (int \<times> 'a fstate_scheme) option" where
  "charm_rename now errno s old new = do {
     (r, s) \<leftarrow> charm_access s old 0;
     if r \<noteq> 0 then Some (- errno, s)
     else do {
       (r, s) \<leftarrow> charm_access s new 193;
       if r = 0 then Some (- errno, s)
       else do {
         (r, s) \<leftarrow> charm_open now s new (1 OR O_CREAT OR O_TRUNC);
         if r \<noteq> 0 then Some (- errno, s)
         else do {
           (ok, s) \<leftarrow> rename_copy now s old new (replicate 4096 0) 0;
           if \<not> ok then Some (- errno, s)
           else do {
             (r, s) \<leftarrow> custom_unlink now s old;
             if r = -1 then Some (- errno, s) else Some (0, s) } } } } }"

section \<open>The program\<close>

text \<open>The result of \<open>init_file_layer\<close> is dropped.\<close>

definition main_program ::
  "('a fstate_scheme \<Rightarrow> int) \<Rightarrow> int \<Rightarrow> iNode \<Rightarrow> 'a fstate_scheme \<Rightarrow> int option" where
  "main_program fuse_main now junk s = do {
     (ok, s) \<leftarrow> init_file_layer now junk s;
     Some (fuse_main s) }"

end
