(* ===== verification/DirectorySpec.thy ===== *)
theory DirectorySpec
  imports FileData
begin

text \<open>
  What a directory block holds. \<open>dir_recs b p rs\<close>: from position \<open>p\<close> to its end the block \<open>b\<close> is
  the sequence of records \<open>rs\<close>, each an inode number, a name and the distance to the next
  record. On such blocks the two loops over records are searches in \<open>rs\<close>, and adding an entry
  splits one record in two. The abstraction of a directory is \<open>dir_names\<close>, its pairs of name
  and inode number.
\<close>

section \<open>Records\<close>

type_synonym dir_rec = "int \<times> string \<times> int"

primrec dir_recs :: "buffer \<Rightarrow> int \<Rightarrow> dir_rec list \<Rightarrow> bool" where
  "dir_recs b p [] \<longleftrightarrow> p = 4096"
| "dir_recs b p (r # rs) \<longleftrightarrow> (case r of (n, nm, d) \<Rightarrow>
     ld_s64 b p = n \<and> ld_s64 b (p + 8) = d \<and> ld_u16 b (p + 16) = int (length nm) \<and>
     (\<forall>k < length nm. b (p + 18 + int k) = of_char (nm ! k)) \<and>
     18 + int (length nm) \<le> d \<and> dir_recs b (p + d) rs)"

lemma dir_recs_end: "dir_recs b p rs \<Longrightarrow> p \<le> 4096"
proof (induction rs arbitrary: p)
  case Nil
  then show ?case by simp
next
  case (Cons r rs)
  obtain n nm d where r: "r = (n, nm, d)" by (cases r)
  with Cons.prems have "18 \<le> d" "dir_recs b (p + d) rs" by auto
  with Cons.IH show ?case by fastforce
qed

lemma dir_recs_frame:
  "dir_recs b p rs \<Longrightarrow> (\<And>i. p \<le> i \<Longrightarrow> i < 4096 \<Longrightarrow> c i = b i) \<Longrightarrow> dir_recs c p rs"
proof (induction rs arbitrary: p)
  case Nil
  then show ?case by simp
next
  case (Cons r rs)
  obtain n nm d where r: "r = (n, nm, d)" by (cases r)
  with Cons.prems(1) have R: "ld_s64 b p = n" "ld_s64 b (p + 8) = d" "ld_u16 b (p + 16) = int (length nm)"
    "\<forall>k < length nm. b (p + 18 + int k) = of_char (nm ! k)" "18 + int (length nm) \<le> d"
    "dir_recs b (p + d) rs" by auto
  have e: "p + d \<le> 4096" using R(6) by (rule dir_recs_end)
  have "ld_s64 c p = ld_s64 b p" "ld_s64 c (p + 8) = ld_s64 b (p + 8)" "ld_u16 c (p + 16) = ld_u16 b (p + 16)"
    using e R(5) by (auto intro!: ld_s64_cong ld_u16_cong Cons.prems(2))
  moreover have "\<forall>k < length nm. c (p + 18 + int k) = of_char (nm ! k)"
    using R(4,5) e by (auto simp: Cons.prems(2))
  moreover have "dir_recs c (p + d) rs"
    using Cons.IH [OF R(6)] Cons.prems(2) R(5) by auto
  ultimately show ?case using R r by simp
qed

section \<open>Searching a block\<close>

primrec dir_find :: "string \<Rightarrow> int \<Rightarrow> int \<Rightarrow> dir_rec list \<Rightarrow> dir_scan" where
  "dir_find name p prev [] = Exhausted"
| "dir_find name p prev (r # rs) = (case r of (n, nm, d) \<Rightarrow>
     if n \<noteq> 0 \<and> nm = name then Found p prev else dir_find name (p + d) p rs)"

lemma of_char_byte_inj: "(of_char c :: byte) = of_char d \<longleftrightarrow> c = d"
proof
  assume "(of_char c :: byte) = of_char d"
  then have "unat (of_char c :: byte) = unat (of_char d :: byte)" by simp
  moreover have "unat (of_char e :: byte) = of_char e" for e
  proof -
    have "(of_char e :: byte) = of_nat (of_char e)" by (simp add: of_nat_of_char)
    moreover have "(of_char e :: nat) mod 2 ^ 8 = of_char e" by simp
    ultimately show ?thesis by (simp add: unat_of_nat)
  qed
  ultimately show "c = d" by (metis char_of_char)
qed simp

lemma name_matches_iff:
  assumes "\<forall>k < length nm. b (p + int k) = of_char (nm ! k)" "length nm = length name"
    "0 \<le> p" "p + int (length nm) \<le> 4096"
  shows "name_matches b p name = Some (nm = name)"
  using assms
proof (induction name arbitrary: nm p)
  case Nil
  then show ?case by simp
next
  case (Cons c cs)
  then obtain e es where nm: "nm = e # es" by (cases nm) auto
  have "b (p + int 0) = of_char (nm ! 0)" using Cons.prems(1) nm by blast
  then have b: "b p = of_char e" using nm by simp
  have "\<forall>k < length es. b (p + 1 + int k) = of_char (es ! k)"
  proof (intro allI impI)
    fix k assume "k < length es"
    then show "b (p + 1 + int k) = of_char (es ! k)"
      using Cons.prems(1) nm by (auto dest!: spec [of _ "Suc k"] simp: add.assoc)
  qed
  from Cons.IH [OF this] Cons.prems(2-4) nm b show ?case
    by (auto simp: in_block_def geometry of_char_byte_inj)
qed

lemma scan_block_recs:
  assumes "dir_recs b p rs" "0 \<le> p"
  shows "scan_block b name p prev = Some (dir_find name p prev rs)"
  using assms
proof (induction rs arbitrary: p prev)
  case Nil
  then show ?case by (subst scan_block.simps) (simp add: geometry)
next
  case (Cons r rs)
  obtain n nm d where r: "r = (n, nm, d)" by (cases r)
  with Cons.prems have R: "ld_s64 b p = n" "ld_s64 b (p + 8) = d" "ld_u16 b (p + 16) = int (length nm)"
    "\<forall>k < length nm. b (p + 18 + int k) = of_char (nm ! k)" "18 + int (length nm) \<le> d"
    "dir_recs b (p + d) rs" by auto
  have e: "p + d \<le> 4096" using R(6) by (rule dir_recs_end)
  have rd: "rd_s64 b p = Some n" "rd_s64 b (p + 8) = Some d" "rd_u16 b (p + 16) = Some (int (length nm))"
    using R(1-3,5) e Cons.prems(2) by (auto simp: rd_s64_def rd_u16_def in_block_def geometry)
  have m: "name_matches b (p + 18) name = Some (nm = name)" if "length nm = length name"
    using name_matches_iff [OF R(4) that] R(5) e Cons.prems(2) by simp
  have "scan_block b name (p + d) p = Some (dir_find name (p + d) p rs)"
    using Cons.IH [OF R(6)] R(5) Cons.prems(2) by simp
  then show ?case
    using rd m R(5) e r
    by (subst scan_block.simps) (auto simp: geometry add.assoc)
qed

section \<open>Finding room in a block\<close>

primrec dir_room :: "int \<Rightarrow> int \<Rightarrow> dir_rec list \<Rightarrow> dir_room" where
  "dir_room need p [] = NoRoom"
| "dir_room need p (r # rs) = (case r of (n, nm, d) \<Rightarrow>
     if d - (18 + int (length nm)) \<ge> need then Room p d (18 + int (length nm))
     else dir_room need (p + d) rs)"

text \<open>The records once the first with enough room behind it gave that room to \<open>(m, nm')\<close>.\<close>

primrec dir_insert :: "int \<Rightarrow> string \<Rightarrow> dir_rec list \<Rightarrow> dir_rec list option" where
  "dir_insert m nm' [] = None"
| "dir_insert m nm' (r # rs) = (case r of (n, nm, d) \<Rightarrow>
     if d - (18 + int (length nm)) \<ge> 18 + int (length nm')
     then Some ((n, nm, 18 + int (length nm)) # (m, nm', d - (18 + int (length nm))) # rs)
     else map_option (Cons r) (dir_insert m nm' rs))"

lemma find_room_recs:
  assumes "dir_recs b p rs" "0 \<le> p"
  shows "find_room b need p = Some (dir_room need p rs)"
  using assms
proof (induction rs arbitrary: p)
  case Nil
  then show ?case by (subst find_room.simps) (simp add: geometry)
next
  case (Cons r rs)
  obtain n nm d where r: "r = (n, nm, d)" by (cases r)
  with Cons.prems have R: "ld_s64 b (p + 8) = d" "ld_u16 b (p + 16) = int (length nm)"
    "18 + int (length nm) \<le> d" "dir_recs b (p + d) rs" by auto
  have e: "p + d \<le> 4096" using R(4) by (rule dir_recs_end)
  have rd: "rd_s64 b (p + 8) = Some d" "rd_u16 b (p + 16) = Some (int (length nm))"
    using R(1-3) e Cons.prems(2) by (auto simp: rd_s64_def rd_u16_def in_block_def geometry)
  have "find_room b need (p + d) = Some (dir_room need (p + d) rs)"
    using Cons.IH [OF R(4)] R(3) Cons.prems(2) by simp
  then show ?case
    using rd R(3) e r by (subst find_room.simps) (auto simp: geometry add.assoc)
qed

section \<open>Writing a record\<close>

lemma put_record_ok:
  assumes "0 \<le> q" "q + 18 + int (length nm) \<le> 4096" "in_s64 m" "in_s64 v" "int (length nm) < 65536"
  obtains b' where "put_record b q m v nm = Some b'" "ld_s64 b' q = m" "ld_s64 b' (q + 8) = v"
    "ld_u16 b' (q + 16) = int (length nm)" "\<forall>k < length nm. b' (q + 18 + int k) = of_char (nm ! k)"
    "\<forall>i. i < q \<or> q + 18 + int (length nm) \<le> i \<longrightarrow> b' i = b i"
proof -
  define b1 where "b1 = st_s64 (st_s64 b q m) (q + 8) v"
  define b2 where "b2 = st_u16 b1 (q + 16) (int (length nm))"
  define b' where "b' = st_name b2 (q + 18) nm"
  have name: "b' i = b2 i" if "i < q + 18 \<or> q + 18 + int (length nm) \<le> i" for i
    using that by (auto simp: b'_def st_name_def)
  have len: "b2 i = b1 i" if "i < q + 16 \<or> q + 18 \<le> i" for i
    using that by (auto simp: b2_def st_u16_apply_other)
  show thesis
  proof (rule that [of b'])
    show "put_record b q m v nm = Some b'"
      using assms(1,2) by (simp add: put_record_def wr_s64_def wr_u16_def wr_name_def in_block_def geometry
          b'_def b2_def b1_def add.assoc)
    have "ld_s64 b' q = ld_s64 b1 q" "ld_s64 b' (q + 8) = ld_s64 b1 (q + 8)"
      using name len by (auto intro!: ld_s64_cong)
    then show "ld_s64 b' q = m" "ld_s64 b' (q + 8) = v"
      using assms(3,4) by (simp_all add: b1_def ld_st_s64_same ld_st_s64_other)
    have "ld_u16 b' (q + 16) = ld_u16 b2 (q + 16)" using name by (auto intro!: ld_u16_cong)
    then show "ld_u16 b' (q + 16) = int (length nm)" using assms(5) by (simp add: b2_def ld_st_u16_same)
    show "\<forall>k < length nm. b' (q + 18 + int k) = of_char (nm ! k)" by (simp add: b'_def st_name_def)
    show "\<forall>i. i < q \<or> q + 18 + int (length nm) \<le> i \<longrightarrow> b' i = b i"
      using name len by (auto simp: b1_def st_s64_apply_other)
  qed
qed

text \<open>
  Where there is room, shortening the record there and writing a new one behind it inserts
  the new record.
\<close>

lemma insert_in_room:
  assumes "dir_recs b p rs" "0 \<le> p" "in_s64 m" "int (length nm') < 65536"
    and "dir_room (18 + int (length nm')) p rs = Room q d l"
  shows "\<exists>c b' rs'. wr_s64 b (q + 8) l = Some c \<and> put_record c (q + l) m (d - l) nm' = Some b' \<and> 0 < l \<and>
    dir_insert m nm' rs = Some rs' \<and> dir_recs b' p rs' \<and> (\<forall>i < p. b' i = b i)"
  using assms
proof (induction rs arbitrary: p)
  case Nil
  then show ?case by simp
next
  case (Cons r rs)
  obtain n nm e where r: "r = (n, nm, e)" by (cases r)
  with Cons.prems(1) have R: "ld_s64 b p = n" "ld_s64 b (p + 8) = e" "ld_u16 b (p + 16) = int (length nm)"
    "\<forall>k < length nm. b (p + 18 + int k) = of_char (nm ! k)" "18 + int (length nm) \<le> e"
    "dir_recs b (p + e) rs" by auto
  have pe: "p + e \<le> 4096" using R(6) by (rule dir_recs_end)
  show ?case
  proof (cases "e - (18 + int (length nm)) \<ge> 18 + int (length nm')")
    case False
    with Cons.prems(5) r have "dir_room (18 + int (length nm')) (p + e) rs = Room q d l" by simp
    from Cons.IH [OF R(6) _ Cons.prems(3,4) this] obtain c b' rs' where
      I: "wr_s64 b (q + 8) l = Some c" "put_record c (q + l) m (d - l) nm' = Some b'" "0 < l"
      "dir_insert m nm' rs = Some rs'" "dir_recs b' (p + e) rs'" "\<forall>i < p + e. b' i = b i"
      using Cons.prems(2) R(5) by auto
    have "ld_s64 b' p = ld_s64 b p" "ld_s64 b' (p + 8) = ld_s64 b (p + 8)" "ld_u16 b' (p + 16) = ld_u16 b (p + 16)"
      using I(6) R(5) by (auto intro!: ld_s64_cong ld_u16_cong)
    moreover have "\<forall>k < length nm. b' (p + 18 + int k) = of_char (nm ! k)" using R(4,5) I(6) by auto
    ultimately show ?thesis using I R r False by auto
  next
    case True
    then have q: "q = p" "d = e" "l = 18 + int (length nm)" using Cons.prems(5) r by auto
    define c where "c = st_s64 b (p + 8) l"
    have c: "wr_s64 b (q + 8) l = Some c"
      using q True pe Cons.prems(2) by (simp add: wr_s64_def c_def in_block_def geometry)
    have el: "0 \<le> p + l" "p + l + 18 + int (length nm') \<le> p + e" "in_s64 (e - l)" "in_s64 l"
      using q True pe Cons.prems(2) by (auto simp: in_s64_def)
    then have "p + l + 18 + int (length nm') \<le> 4096" using pe by linarith
    from put_record_ok [OF el(1) this Cons.prems(3) el(3) Cons.prems(4), of c] obtain b' where
      b': "put_record c (p + l) m (e - l) nm' = Some b'" "ld_s64 b' (p + l) = m" "ld_s64 b' (p + l + 8) = e - l"
      "ld_u16 b' (p + l + 16) = int (length nm')" "\<forall>k < length nm'. b' (p + l + 18 + int k) = of_char (nm' ! k)"
      "\<forall>i. i < p + l \<or> p + l + 18 + int (length nm') \<le> i \<longrightarrow> b' i = c i" by blast
    have same: "b' i = b i" if "i < p + 8 \<or> p + 16 \<le> i \<and> i < p + l \<or> p + e \<le> i" for i
    proof -
      have "b' i = c i" using that b'(6) el(2) q by auto
      with that q el(2) show ?thesis by (auto simp: c_def st_s64_apply_other)
    qed
    have "ld_s64 b' p = ld_s64 b p" "ld_u16 b' (p + 16) = ld_u16 b (p + 16)"
      using same q by (auto intro!: ld_s64_cong ld_u16_cong)
    then have "ld_s64 b' p = n" "ld_u16 b' (p + 16) = int (length nm)" using R(1,3) by simp_all
    moreover have "ld_s64 b' (p + 8) = l"
    proof -
      have "ld_s64 b' (p + 8) = ld_s64 c (p + 8)" using b'(6) q by (auto intro!: ld_s64_cong)
      then show ?thesis using el(4) by (simp add: c_def ld_st_s64_same)
    qed
    moreover have "\<forall>k < length nm. b' (p + 18 + int k) = of_char (nm ! k)" using R(4) same q by auto
    moreover have "dir_recs b' (p + e) rs" by (rule dir_recs_frame [OF R(6)]) (simp add: same)
    ultimately have "dir_recs b' p ((n, nm, l) # (m, nm', e - l) # rs)"
      using b'(2-5) el(2) q by (simp add: add.assoc)
    moreover have "\<forall>i < p. b' i = b i" using same by simp
    ultimately show ?thesis using c b'(1) q True r by auto
  qed
qed

section \<open>Directories\<close>

text \<open>
  \<open>dir_ok s i D\<close>: the blocks of the directory with inode \<open>i\<close> hold the records \<open>D\<close>, and no
  name is in use twice.
\<close>

definition live :: "dir_rec list \<Rightarrow> (string \<times> int) list" where
  "live rs = map (\<lambda>(n, nm, d). (nm, n)) (filter (\<lambda>(n, nm, d). n \<noteq> 0) rs)"

definition dir_names :: "dir_rec list list \<Rightarrow> (string \<times> int) list" where
  "dir_names D = concat (map live D)"

definition dir_ok :: "'a bstate_scheme \<Rightarrow> iNode \<Rightarrow> dir_rec list list \<Rightarrow> bool" where
  "dir_ok s i D \<longleftrightarrow> S_ISDIR (mode i) \<and> wf_file s i \<and> int (length D) = num_blocks i \<and>
     distinct (map fst (dir_names D)) \<and>
     (\<forall>k < length D. dir_recs (blocks s (fblk (blocks s) i (int k))) 0 (D ! k))"

lemma live_simps [simp]:
  "live [] = []" "live ((n, nm, d) # rs) = (if n \<noteq> 0 then [(nm, n)] else []) @ live rs"
  by (simp_all add: live_def)

lemma dir_find_live:
  assumes "dir_recs b p rs" "0 \<le> p"
  shows "case map_of (live rs) name of
      None \<Rightarrow> dir_find name p prev rs = Exhausted
    | Some n \<Rightarrow> \<exists>q r. dir_find name p prev rs = Found q r \<and> 0 \<le> q \<and> q + 8 \<le> 4096 \<and> ld_s64 b q = n"
  using assms
proof (induction rs arbitrary: p prev)
  case Nil
  then show ?case by simp
next
  case (Cons r rs)
  obtain n nm d where r: "r = (n, nm, d)" by (cases r)
  with Cons.prems have R: "ld_s64 b p = n" "18 + int (length nm) \<le> d" "dir_recs b (p + d) rs" by auto
  have "p + d \<le> 4096" using R(3) by (rule dir_recs_end)
  with R Cons.prems(2) Cons.IH [OF R(3), of p] r show ?case by (auto split: option.splits)
qed

text \<open>The first block with a hit decides the search of a directory.\<close>

lemma map_of_first:
  assumes "\<And>j. j < k \<Longrightarrow> map_of (live (D ! j)) x = None" "k < length D" "map_of (live (D ! k)) x = Some n"
  shows "map_of (dir_names D) x = Some n"
proof -
  have D: "D = take k D @ D ! k # drop (Suc k) D" using assms(2) by (rule id_take_nth_drop)
  have "map_of (concat (map live (take k D))) x = None"
    using assms(1,2) by (force simp: map_of_eq_None_iff in_set_conv_nth)
  then show ?thesis
    using assms(3) by (subst D) (simp add: dir_names_def map_add_def)
qed

lemma map_of_none:
  assumes "\<And>j. j < length D \<Longrightarrow> map_of (live (D ! j)) x = None"
  shows "map_of (dir_names D) x = None"
  using assms by (force simp: dir_names_def map_of_eq_None_iff in_set_conv_nth)

text \<open>What a search finds: the inode number of the record, as the callers read it.\<close>

definition found_inum :: "file_pos_in_dir \<Rightarrow> int option" where
  "found_inum fp = (if start_pos fp = -1 then None else rd_s64 (fp_dblock fp) (start_pos fp))"

text \<open>The search ends at the first hit, or after all blocks without one.\<close>

definition found_at :: "'a bstate_scheme \<Rightarrow> iNode \<Rightarrow> dir_rec list list \<Rightarrow> string \<Rightarrow> file_pos_in_dir \<Rightarrow> nat \<Rightarrow> bool" where
  "found_at s i D name fp k \<longleftrightarrow> k < length D \<and> (\<forall>j < k. map_of (live (D ! j)) name = None) \<and>
     map_of (live (D ! k)) name \<noteq> None \<and> fp_fblock_num fp = int k \<and>
     fp_dblock_num fp = fblk (blocks s) i (int k) \<and> fp_dblock fp = blocks s (fblk (blocks s) i (int k)) \<and>
     dir_find name 0 (-1) (D ! k) = Found (start_pos fp) (prev_entry fp)"

lemma find_file_cases:
  assumes "fl_inv s" "dir_ok s i D"
  obtains fp where "find_file s name i = Some fp" "start_pos fp = -1" "map_of (dir_names D) name = None"
  | fp k where "find_file s name i = Some fp" "found_at s i D name fp k"
proof -
  have d: "S_ISDIR (mode i)" "wf_file s i" "int (length D) = num_blocks i"
    "\<And>k. k < length D \<Longrightarrow> dir_recs (blocks s (fblk (blocks s) i (int k))) 0 (D ! k)"
    using assms(2) by (auto simp: dir_ok_def)
  have h: "healthy s" using assms(1) by (simp add: fl_inv_def)
  let ?start = "\<lparr>fp_dblock = zero_buf, fp_dblock_num = 0, fp_fblock_num = 0, start_pos = 0, prev_entry = -1\<rparr>"
  let ?I = "\<lambda>k fp. \<forall>j < nat k. map_of (live (D ! j)) name = None"
  let ?Q = "\<lambda>fp. \<exists>k. found_at s i D name fp k"
  have "(\<exists>x. for_loop 0 (num_blocks i) (find_step s name i) ?start = Some (Inl x) \<and> (?I (num_blocks i) x \<or> False)) \<or>
      (\<exists>r. for_loop 0 (num_blocks i) (find_step s name i) ?start = Some (Inr r) \<and> ?Q r)"
  proof (rule for_loop_rule [where I = ?I])
    fix k fp
    assume k: "0 \<le> k" "k < num_blocks i" and I: "?I k fp"
    note F = fetch_block [OF h d(2) k]
    have nk: "nat k < length D" "int (nat k) = k" using k d(3) by simp_all
    then have recs: "dir_recs (blocks s (fblk (blocks s) i k)) 0 (D ! nat k)" using d(4) [of "nat k"] by simp
    note scan = scan_block_recs [OF recs, of name "-1"]
    show "(\<exists>s'. find_step s name i k fp = Some (Next s') \<and> ?I (k + 1) s') \<or>
        (\<exists>s'. find_step s name i k fp = Some (Break s') \<and> False) \<or>
        (\<exists>r. find_step s name i k fp = Some (Return r) \<and> ?Q r)"
    proof (cases "map_of (live (D ! nat k)) name")
      case None
      with dir_find_live [OF recs, of name "-1"] scan F have "\<exists>s'. find_step s name i k fp = Some (Next s')"
        by (simp add: find_step_def Let_def)
      moreover have "?I (k + 1) x" for x
      proof -
        have "nat (k + 1) = Suc (nat k)" using k by simp
        with I None show ?thesis by (simp add: less_Suc_eq)
      qed
      ultimately show ?thesis by blast
    next
      case (Some n)
      with dir_find_live [OF recs, of name "-1"] obtain q r where
        q: "dir_find name 0 (- 1) (D ! nat k) = Found q r" by auto
      let ?r = "fp\<lparr>fp_dblock_num := fblk (blocks s) i k, fp_fblock_num := k, prev_entry := r,
        fp_dblock := blocks s (fblk (blocks s) i k), start_pos := q\<rparr>"
      have "found_at s i D name ?r (nat k)" using I Some nk q by (simp add: found_at_def)
      moreover have "find_step s name i k fp = Some (Return ?r)"
        using q scan F by (simp add: find_step_def Let_def)
      ultimately show ?thesis by blast
    qed
  qed (use d(3) in auto)
  then show thesis
  proof (elim disjE exE conjE)
    fix x assume x: "for_loop 0 (num_blocks i) (find_step s name i) ?start = Some (Inl x)"
      and I: "?I (num_blocks i) x"
    have none: "map_of (dir_names D) name = None" using I d(3) by (intro map_of_none) auto
    have "find_file s name i = Some (x\<lparr>start_pos := -1, prev_entry := -1\<rparr>)"
      using x d(1) by (simp add: find_file_def)
    then show thesis by (rule that(1)) (simp_all add: none)
  next
    fix r k assume "for_loop 0 (num_blocks i) (find_step s name i) ?start = Some (Inr r)"
      and Q: "found_at s i D name r k"
    then have "find_file s name i = Some r" using d(1) by (simp add: find_file_def)
    then show thesis using Q by (rule that(2))
  qed blast
qed

lemma found_at_inum:
  assumes "dir_ok s i D" "found_at s i D name fp k"
  shows "found_inum fp = map_of (dir_names D) name" "0 \<le> start_pos fp" "map_of (dir_names D) name \<noteq> None"
proof -
  have k: "k < length D" "dir_recs (blocks s (fblk (blocks s) i (int k))) 0 (D ! k)"
    "\<And>j. j < k \<Longrightarrow> map_of (live (D ! j)) name = None"
    "fp_dblock fp = blocks s (fblk (blocks s) i (int k))"
    "dir_find name 0 (-1) (D ! k) = Found (start_pos fp) (prev_entry fp)"
    using assms by (auto simp: found_at_def dir_ok_def)
  obtain n where n: "map_of (live (D ! k)) name = Some n" using assms(2) by (auto simp: found_at_def)
  have all: "map_of (dir_names D) name = Some n" by (rule map_of_first [OF k(3,1) n])
  have "0 \<le> start_pos fp \<and> start_pos fp + 8 \<le> 4096 \<and> ld_s64 (fp_dblock fp) (start_pos fp) = n"
    using dir_find_live [OF k(2), of name "-1"] n k(4,5) by simp
  then show "found_inum fp = map_of (dir_names D) name" "0 \<le> start_pos fp" "map_of (dir_names D) name \<noteq> None"
    unfolding all by (auto simp: found_inum_def rd_s64_def in_block_def geometry)
qed

lemma find_file_ok:
  assumes "fl_inv s" "dir_ok s i D"
  obtains fp where "find_file s name i = Some fp" "found_inum fp = map_of (dir_names D) name"
    "start_pos fp = -1 \<longleftrightarrow> map_of (dir_names D) name = None"
proof (cases rule: find_file_cases [OF assms, of name])
  case (1 fp)
  then show thesis by (intro that [of fp]) (simp_all add: found_inum_def)
next
  case (2 fp k)
  with found_at_inum [OF assms(2) 2(2)] show thesis by (intro that [of fp]) auto
qed

section \<open>Adding an entry\<close>

text \<open>The directory after \<open>(m, nm')\<close> got the room found in its last block, or a block of its own.\<close>

definition dir_add :: "int \<Rightarrow> string \<Rightarrow> dir_rec list list \<Rightarrow> dir_rec list list" where
  "dir_add m nm' D = (case if D = [] then None else dir_insert m nm' (last D) of
     None \<Rightarrow> D @ [[(m, nm', 4096)]]
   | Some rs \<Rightarrow> butlast D @ [rs])"

lemma dir_room_insert:
  "dir_room (18 + int (length nm')) p rs = NoRoom \<longleftrightarrow> dir_insert m nm' rs = None"
  "dir_room need p rs \<noteq> Broken"
  by (induction rs arbitrary: p) (auto split: if_splits)

lemma map_of_insert:
  assumes "dir_insert m nm' rs = Some rs'" "m \<noteq> 0" "map_of (live rs) nm' = None"
  shows "map_of (live rs') = (map_of (live rs))(nm' \<mapsto> m)"
  using assms
proof (induction rs arbitrary: rs')
  case Nil
  then show ?case by simp
next
  case (Cons r rs)
  obtain n nm d where r: "r = (n, nm, d)" by (cases r)
  show ?case
  proof (cases "d - (18 + int (length nm)) \<ge> 18 + int (length nm')")
    case True
    with Cons.prems r show ?thesis by (auto simp: fun_eq_iff split: if_splits)
  next
    case False
    with Cons.prems(1) r obtain us where us: "dir_insert m nm' rs = Some us" "rs' = r # us" by auto
    from Cons.IH [OF us(1) Cons.prems(2)] Cons.prems(3) us(2) r show ?thesis
      by (auto simp: fun_eq_iff split: if_splits)
  qed
qed

lemma dir_names_append: "map_of (dir_names (D @ E)) = map_of (dir_names E) ++ map_of (dir_names D)"
  by (simp add: dir_names_def)

lemma dir_names_one: "dir_names [rs] = live rs"
  by (simp add: dir_names_def)

lemma dir_names_insert:
  assumes "dir_insert m nm' rs = Some rs'"
  shows "set (map fst (live rs')) \<subseteq> insert nm' (set (map fst (live rs)))"
    "distinct (map fst (live rs)) \<Longrightarrow> nm' \<notin> set (map fst (live rs)) \<Longrightarrow> distinct (map fst (live rs'))"
proof -
  have "set (map fst (live rs')) \<subseteq> insert nm' (set (map fst (live rs))) \<and>
    (distinct (map fst (live rs)) \<longrightarrow> nm' \<notin> set (map fst (live rs)) \<longrightarrow> distinct (map fst (live rs')))"
    using assms
  proof (induction rs arbitrary: rs')
    case Nil
    then show ?case by simp
  next
    case (Cons r rs)
    obtain n nm d where r: "r = (n, nm, d)" by (cases r)
    show ?case
    proof (cases "d - (18 + int (length nm)) \<ge> 18 + int (length nm')")
      case True
      with Cons.prems r show ?thesis by auto
    next
      case False
      with Cons.prems r obtain us where us: "dir_insert m nm' rs = Some us" "rs' = r # us" by auto
      from Cons.IH [OF us(1)] us(2) r show ?thesis by auto
    qed
  qed
  then show "set (map fst (live rs')) \<subseteq> insert nm' (set (map fst (live rs)))"
    "distinct (map fst (live rs)) \<Longrightarrow> nm' \<notin> set (map fst (live rs)) \<Longrightarrow> distinct (map fst (live rs'))"
    by blast+
qed

lemma dir_names_snoc: "dir_names (E @ [rs]) = dir_names E @ live rs"
  by (simp add: dir_names_def)

lemma dir_names_split: "D \<noteq> [] \<Longrightarrow> dir_names D = dir_names (butlast D) @ live (last D)"
  by (simp flip: dir_names_snoc)

lemma distinct_dir_add:
  assumes "distinct (map fst (dir_names D))" "map_of (dir_names D) nm' = None"
  shows "distinct (map fst (dir_names (dir_add m nm' D)))"
proof -
  have new: "nm' \<notin> set (map fst (dir_names D))" using assms(2) by (simp add: map_of_eq_None_iff)
  show ?thesis
  proof (cases "if D = [] then None else dir_insert m nm' (last D)")
    case None
    then have "dir_names (dir_add m nm' D) = dir_names D @ live [(m, nm', 4096)]"
      by (simp add: dir_add_def dir_names_def)
    then show ?thesis using assms(1) new by auto
  next
    case (Some rs)
    then have D: "D \<noteq> []" "dir_insert m nm' (last D) = Some rs" by (auto split: if_splits)
    then have "dir_names (dir_add m nm' D) = dir_names (butlast D) @ live rs"
      by (simp add: dir_add_def dir_names_def)
    moreover have old: "distinct (map fst (dir_names (butlast D)))" "distinct (map fst (live (last D)))"
      "set (map fst (dir_names (butlast D))) \<inter> set (map fst (live (last D))) = {}"
      "nm' \<notin> set (map fst (dir_names (butlast D)))" "nm' \<notin> set (map fst (live (last D)))"
      using assms(1) new unfolding dir_names_split [OF D(1)] map_append distinct_append set_append by blast+
    moreover have "set (map fst (dir_names (butlast D))) \<inter> set (map fst (live rs)) = {}"
      using dir_names_insert(1) [OF D(2)] old(3,4) by blast
    ultimately show ?thesis
      using dir_names_insert(2) [OF D(2) old(2,5)] by (simp only: map_append distinct_append)
  qed
qed

lemma map_of_dir_add:
  assumes "m \<noteq> 0" "map_of (dir_names D) nm' = None"
  shows "map_of (dir_names (dir_add m nm' D)) = (map_of (dir_names D))(nm' \<mapsto> m)"
proof (cases "if D = [] then None else dir_insert m nm' (last D)")
  case None
  with assms show ?thesis
    by (auto simp: dir_add_def dir_names_append dir_names_one fun_eq_iff map_add_def split: option.splits)
next
  case (Some rs)
  then have D: "D = butlast D @ [last D]" "dir_insert m nm' (last D) = Some rs" by (auto split: if_splits)
  have split: "map_of (dir_names D) = map_of (live (last D)) ++ map_of (dir_names (butlast D))"
    using dir_names_append [of "butlast D" "[last D]"] D(1) by (simp add: dir_names_one)
  with assms(2) have none: "map_of (live (last D)) nm' = None" "map_of (dir_names (butlast D)) nm' = None"
    by (simp_all add: map_add_None)
  have "map_of (dir_names (dir_add m nm' D)) = map_of (live rs) ++ map_of (dir_names (butlast D))"
    using Some by (simp add: dir_add_def dir_names_append dir_names_one split: if_splits)
  then show ?thesis
    unfolding split map_of_insert [OF D(2) assms(1) none(1)] using none(2)
    by (auto simp: fun_eq_iff map_add_def split: option.splits)
qed

text \<open>
  What the operation leaves behind when it succeeds: the directory holds the records \<open>D'\<close>, and
  blocks in use outside it are as they were; and when it fails: nothing in use has changed.
\<close>

definition dir_changed ::
  "'a bstate_scheme \<Rightarrow> iNode \<Rightarrow> dir_rec list list \<Rightarrow> iNode \<Rightarrow> 'a bstate_scheme \<Rightarrow> bool" where
  "dir_changed s i D' i' s' \<longleftrightarrow>
     fl_inv s' \<and> core s' = core s \<and> dir_ok s' i' D' \<and> free_set s' \<subseteq> free_set s \<and>
     card (free_set s) \<le> card (free_set s') + 3 \<and>
     mode i' = mode i \<and> link_count i' = link_count i \<and>
     file_size i \<le> file_size i' \<and> file_size i' \<le> file_size i + 4096 \<and>
     (wf_inode i \<and> in_s64 (file_size i + 4096) \<longrightarrow> wf_inode i') \<and>
     set (owned (blocks s') i') \<subseteq> set (owned (blocks s) i) \<union> free_set s \<and>
     (\<forall>b. b \<noteq> 0 \<longrightarrow> b \<notin> free_set s \<longrightarrow> b \<notin> set (owned (blocks s) i) \<longrightarrow> blocks s' b = blocks s b)"

definition entry_refused :: "'a bstate_scheme \<Rightarrow> 'a bstate_scheme \<Rightarrow> bool" where
  "entry_refused s s' \<longleftrightarrow>
     fl_inv s' \<and> core s' = core s \<and> free_set s' \<subseteq> free_set s \<and> card (free_set s) < 3 \<and>
     (\<forall>b. b \<noteq> 0 \<longrightarrow> b \<notin> free_set s \<longrightarrow> blocks s' b = blocks s b)"

lemma dir_ok_kept:
  assumes "dir_ok s i D" "set (owned (blocks s) i) \<inter> free_set s' = {}" "\<And>b. b \<in> set (owned (blocks s) i) \<Longrightarrow> blocks s' b = blocks s b"
  shows "dir_ok s' i D"
proof -
  have wf: "wf_file s i" using assms(1) by (simp add: dir_ok_def)
  have l: "\<And>b. b \<in> set (list_blocks (blocks s) i) \<Longrightarrow> blocks s' b = blocks s b"
    using assms(3) by (simp add: owned_def)
  have "blocks s' (fblk (blocks s') i (int k)) = blocks s (fblk (blocks s) i (int k))" if "k < length D" for k
  proof -
    have k: "0 \<le> int k" "int k < num_blocks i" using that assms(1) by (auto simp: dir_ok_def)
    then have "fblk (blocks s) i (int k) \<in> set (data_of (blocks s) i)" unfolding in_data_of by blast
    then have "fblk (blocks s) i (int k) \<in> set (owned (blocks s) i)" by (simp add: owned_def)
    with assms(3) map_frame(3) [OF wf l k] show ?thesis by simp
  qed
  with assms(1) file_kept(1) [OF wf assms(2,3)] show ?thesis by (simp add: dir_ok_def)
qed

lemma dir_ok_cong:
  assumes "dir_ok s i D" "free_set s' \<subseteq> free_set s" "\<And>b. b \<in> set (owned (blocks s) i) \<Longrightarrow> blocks s' b = blocks s b"
  shows "dir_ok s' i D"
  by (rule dir_ok_kept [OF assms(1) _ assms(3)])
    (use assms(1,2) in \<open>auto simp: dir_ok_def wf_file_def\<close>)

text \<open>Rewriting a block of a directory.\<close>

lemma dir_ok_update:
  assumes "fl_inv s" "dir_ok s i D" "k < length D" "dir_recs b 0 rs"
    and "distinct (map fst (dir_names (D[k := rs])))"
  defines "y \<equiv> fblk (blocks s) i (int k)"
  defines "s' \<equiv> s\<lparr>blocks := (blocks s)(y := b)\<rparr>"
  shows "write_dblock s y b = (True, s')" "dir_ok s' i (D[k := rs])" "fl_inv s'"
    "free_set s' = free_set s" "y \<in> set (owned (blocks s) i)" "owned (blocks s') i = owned (blocks s) i"
proof -
  have wf: "wf_file s i" and n: "int (length D) = num_blocks i" using assms(2) by (auto simp: dir_ok_def)
  then have k: "0 \<le> int k" "int k < num_blocks i" using assms(3) by simp_all
  note Y = wf_file_fblk [OF wf k, folded y_def]
  show "y \<in> set (owned (blocks s) i)"
    using k unfolding y_def owned_def set_append Un_iff in_data_of by blast
  have W: "fl_inv s'" "free_set s' = free_set s"
    using fl_inv_write_used [OF assms(1)] Y by (auto simp: s'_def)
  then show "fl_inv s'" "free_set s' = free_set s" by auto
  show "write_dblock s y b = (True, s')"
    using assms(1) Y unfolding s'_def by (intro write_dblock_healthy) (auto simp: fl_inv_def)
  have bs: "blocks s' z = (if z = y then b else blocks s z)" for z by (simp add: s'_def)
  have l: "\<forall>z. z \<notin> set (data_of (blocks s) i) \<longrightarrow> blocks s' z = blocks s z"
    using k by (auto simp: bs y_def in_data_of)
  note M = data_write_frame [where bs = "blocks s'", OF wf l]
  show own: "owned (blocks s') i = owned (blocks s) i" using M by (simp add: owned_def)
  have "wf_file s' i" using wf M W(2) by (intro wf_file_same [OF wf]) auto
  moreover have "dir_recs (blocks s' (fblk (blocks s') i (int j))) 0 (D[k := rs] ! j)" if "j < length D" for j
  proof -
    have j: "0 \<le> int j" "int j < num_blocks i" using that n by auto
    have "fblk (blocks s) i (int j) = y \<longleftrightarrow> int j = int k"
      using wf_file_inj [OF wf j k] by (simp add: y_def)
    moreover have "dir_recs (blocks s (fblk (blocks s) i (int j))) 0 (D ! j)"
      using assms(2) that by (simp add: dir_ok_def)
    ultimately show ?thesis
      using M(3) [OF j] assms(4) that by (auto simp: bs nth_list_update)
  qed
  ultimately show "dir_ok s' i (D[k := rs])"
    using assms(2,5) by (simp add: dir_ok_def)
qed

lemma dir_ok_last:
  assumes "fl_inv s" "dir_ok s i D" "D \<noteq> []" "dir_recs b 0 rs"
    and "distinct (map fst (dir_names (butlast D @ [rs])))"
  defines "y \<equiv> fblk (blocks s) i (num_blocks i - 1)"
  defines "s' \<equiv> s\<lparr>blocks := (blocks s)(y := b)\<rparr>"
  shows "write_dblock s y b = (True, s')" "dir_ok s' i (butlast D @ [rs])" "fl_inv s'"
    "free_set s' = free_set s" "y \<in> set (owned (blocks s) i)" "owned (blocks s') i = owned (blocks s) i"
proof -
  have k: "length D - 1 < length D" using assms(3) by simp
  have "int (length D) = num_blocks i" using assms(2) by (simp add: dir_ok_def)
  then have y: "int (length D - 1) = num_blocks i - 1" using k by linarith
  have u: "D[length D - 1 := rs] = butlast D @ [rs]"
    using assms(3) by (cases D rule: rev_cases) simp_all
  note L = dir_ok_update [OF assms(1,2) k assms(4), unfolded u, OF assms(5)]
  show "write_dblock s y b = (True, s')" "dir_ok s' i (butlast D @ [rs])" "fl_inv s'"
    "free_set s' = free_set s" "y \<in> set (owned (blocks s) i)" "owned (blocks s') i = owned (blocks s) i"
    using L unfolding y y_def s'_def by blast+
qed

text \<open>The entry that gets a block of its own.\<close>

lemma single_record:
  assumes "int (length nm) \<le> 255" "in_s64 m"
  obtains b where "put_record zero_buf 0 m BLOCK_SIZE nm = Some b" "dir_recs b 0 [(m, nm, 4096)]"
proof -
  from assms(1) have l: "0 + 18 + int (length nm) \<le> 4096" "int (length nm) < 65536" by auto
  obtain b where "put_record zero_buf 0 m 4096 nm = Some b" "ld_s64 b 0 = m" "ld_s64 b (0 + 8) = 4096"
    "ld_u16 b (0 + 16) = int (length nm)" "\<forall>k < length nm. b (0 + 18 + int k) = of_char (nm ! k)"
    by (rule put_record_ok [of 0 nm m 4096 zero_buf]) (use l assms(2) in \<open>auto simp: in_s64_def\<close>)
  then show thesis using l by (intro that [of b]) (auto simp: geometry)
qed

lemma dir_appended:
  assumes d: "dir_ok s i D" and t: "fl_inv t" "wf_file t i" "owned (blocks t) i = owned (blocks s) i"
    "n \<notin> free_set t" "data_block n" "n \<notin> set (owned (blocks s) i)"
    "\<forall>b. b \<in> set (owned (blocks s) i) \<longrightarrow> blocks t b = blocks s b" "dir_recs (blocks t n) 0 rs"
    and u: "distinct (map fst (dir_names (D @ [rs])))"
    and a: "appended t i n i' s'"
  shows "dir_ok s' (i'\<lparr>file_size := file_size i' + 4096\<rparr>) (D @ [rs])"
proof -
  have n: "num_blocks i' = num_blocks i + 1" "wf_file s' i'" using a(1) by (auto simp: appended_def)
  have len: "int (length D) = num_blocks i" using d by (simp add: dir_ok_def)
  have nt: "n \<notin> set (owned (blocks t) i)" using t(3,6) by simp
  have old: "fblk (blocks t) i (int k) = fblk (blocks s) i (int k)" if "k < length D" for k
  proof -
    have "data_of (blocks t) i ! nat (int k) = data_of (blocks s) i ! nat (int k)"
    proof -
      have "take (nat (num_blocks i)) (owned (blocks t) i) = take (nat (num_blocks i)) (owned (blocks s) i)"
        using t(3) by simp
      then show ?thesis by (simp add: owned_def)
    qed
    then show ?thesis using nth_data_of [of "int k" i] that len by simp
  qed
  have "dir_recs (blocks s' (fblk (blocks s') i' (int k))) 0 ((D @ [rs]) ! k)" if "k < length (D @ [rs])" for k
  proof -
    have k: "0 \<le> int k" "int k < num_blocks i'" using that len n(1) by auto
    note M = appended_map [OF t(2,4,5) nt a(1) k]
    show ?thesis
    proof (cases "k = length D")
      case True
      then show ?thesis using M len t(8) by simp
    next
      case False
      then have k': "k < length D" using that by simp
      then have "fblk (blocks s) i (int k) \<in> set (data_of (blocks s) i)"
        using len unfolding in_data_of by (intro exI [of _ "int k"]) simp
      then have "blocks t (fblk (blocks s) i (int k)) = blocks s (fblk (blocks s) i (int k))"
        using t(7) by (simp add: owned_def)
      then show ?thesis using M False k' len old [OF k'] d by (simp add: dir_ok_def nth_append)
    qed
  qed
  moreover have "inode_rest i' = inode_rest i" using a by (simp add: appended_def)
  note R = inode_rest_fields [OF this]
  ultimately show ?thesis
    using n len d u R wf_file_rest [of "i'\<lparr>file_size := file_size i' + 4096\<rparr>" i' "blocks s'" s']
    by (auto simp: dir_ok_def)
qed

lemma wf_inode_size: "wf_inode i \<Longrightarrow> in_s64 v \<Longrightarrow> wf_inode (i\<lparr>file_size := v\<rparr>)"
  by (simp add: wf_inode_def)

lemma add_entry_in_new_block_ok:
  assumes "fl_inv s" "dir_ok s i D" "int (length nm) \<le> 255" "in_s64 m" "map_of (dir_names D) nm = None"
  shows "(\<exists>i' s'. add_entry_in_new_block s i m nm = Some (True, i', s') \<and>
      dir_changed s i (D @ [[(m, nm, 4096)]]) i' s') \<or>
    (\<exists>i' s'. add_entry_in_new_block s i m nm = Some (False, i', s') \<and> entry_refused s s')"
proof (cases "free_set s = {}")
  case True
  then have "add_entry_in_new_block s i m nm = Some (False, i, s)"
    using dblocks.alloc_full [OF assms(1)] by (simp add: add_entry_in_new_block_def)
  with True assms(1) show ?thesis by (auto simp: entry_refused_def)
next
  case False
  have wf: "wf_file s i" using assms(2) by (simp add: dir_ok_def)
  obtain n t where n: "create_new_dblock s = Some (n, t)" "0 < n" "fl_inv t" "core t = core s"
    "data_block n" "n \<in> free_set s" "free_set t = free_set s - {n}"
    "card (free_set s) = Suc (card (free_set t))" "zeroed (blocks t n)"
    "\<forall>b. b \<noteq> 0 \<longrightarrow> b \<notin> free_set s \<longrightarrow> blocks t b = blocks s b"
    "wf_file t i" "owned (blocks t) i = owned (blocks s) i" "n \<notin> set (owned (blocks s) i)"
    "\<forall>x. 0 \<le> x \<and> x < num_blocks i * 4096 \<longrightarrow> file_byte t i x = file_byte s i x"
    by (rule alloc_for_file [OF assms(1) wf False])
  obtain b where b: "put_record zero_buf 0 m BLOCK_SIZE nm = Some b" "dir_recs b 0 [(m, nm, 4096)]"
    by (rule single_record [OF assms(3,4)])
  define u where "u = t\<lparr>blocks := (blocks t)(n := b)\<rparr>"
  have nt: "n \<notin> free_set t" using n(7) by simp
  have u: "fl_inv u" "free_set u = free_set t" "core u = core s"
    using fl_inv_write_used [OF n(3) nt, of b] n(4) by (simp_all add: u_def)
  have bu: "blocks u x = (if x = n then b else blocks t x)" for x by (simp add: u_def)
  have W: "write_dblock t n b = (True, u)"
    unfolding u_def using n(3,5) by (intro write_dblock_healthy) (auto simp: fl_inv_def)
  have keep: "blocks u x = blocks t x" if "x \<in> set (owned (blocks t) i)" for x
    using that n(12,13) bu by auto
  note F = file_frame [where s' = u, OF n(11) _ keep]
  have ou: "wf_file u i" "owned (blocks u) i = owned (blocks s) i" using F u(2) n(12) by auto
  have nu: "n \<notin> free_set u" "n \<notin> set (owned (blocks u) i)" using nt u(2) ou(2) n(13) by auto
  have same: "\<forall>x. x \<in> set (owned (blocks s) i) \<longrightarrow> blocks u x = blocks s x"
    using n(10,12,13) keep wf data_block_nonzero by (auto simp: wf_file_def)
  have fresh: "distinct (map fst (dir_names (D @ [[(m, nm, 4096)]])))"
    using assms(2,5) by (auto simp: dir_ok_def dir_names_def map_of_eq_None_iff)
  consider i' s' where "add_dblock_to_inode u i n = Some (True, i', s')" "appended u i n i' s'"
    | i' s' where "add_dblock_to_inode u i n = Some (False, i', s')" "append_refused u s'"
    using add_dblock_cases [OF u(1) ou(1) nu(1) n(5) nu(2)] by blast
  then show ?thesis
  proof cases
    case 1
    let ?i = "i'\<lparr>file_size := file_size i' + 4096\<rparr>"
    have ok: "dir_ok s' ?i (D @ [[(m, nm, 4096)]])"
      by (rule dir_appended [OF assms(2) u(1) ou nu(1) n(5,13) same _ fresh 1(2)]) (use bu b(2) in simp)
    have "inode_rest i' = inode_rest i" using 1(2) by (simp add: appended_def)
    note R = inode_rest_fields [OF this]
    have maps: "owned (blocks s') ?i = owned (blocks s') i'"
      by (simp add: owned_def data_of_def list_blocks_def fblk_def)
    have data: "data_of (blocks s') i' = data_of (blocks u) i @ [n]" using 1(2) by (simp add: appended_def)
    have "set (owned (blocks s') ?i) \<subseteq> set (owned (blocks s) i) \<union> free_set s"
      using 1(2) ou(2) u(2) n(6,7) unfolding maps ou(2) [symmetric] by (auto simp: owned_def data appended_def)
    moreover have "blocks s' x = blocks s x"
      if "x \<noteq> 0" "x \<notin> free_set s" "x \<notin> set (owned (blocks s) i)" for x
    proof -
      have "x \<noteq> n" "x \<notin> set (list_blocks (blocks u) i)" using that ou(2) n(6) by (auto simp: owned_def)
      then show ?thesis using that 1(2) u(2) n(7,10) bu by (auto simp: appended_def)
    qed
    moreover have "wf_inode i \<and> in_s64 (file_size i + 4096) \<longrightarrow> wf_inode ?i"
      using 1(2) R(1) wf_inode_size [of i'] by (auto simp: appended_def)
    moreover have "card (free_set u) \<le> card (free_set s') + 2" using 1(2) unfolding appended_def by blast
    then have "card (free_set s) \<le> card (free_set s') + 3" using u(2) n(8) by simp
    moreover have "fl_inv s'" "core s' = core s" "free_set s' \<subseteq> free_set s"
      using 1(2) u(2,3) n(7) by (auto simp: appended_def)
    ultimately have "dir_changed s i (D @ [[(m, nm, 4096)]]) ?i s'"
      using ok R unfolding dir_changed_def by simp
    moreover have "add_entry_in_new_block s i m nm = Some (True, ?i, s')"
      using n(1,2) b(1) W 1(1) by (simp add: add_entry_in_new_block_def geometry)
    ultimately show ?thesis by blast
  next
    case 2
    have "add_entry_in_new_block s i m nm = Some (False, i', s')"
      using n(1,2) b(1) W 2(1) by (simp add: add_entry_in_new_block_def geometry)
    moreover have "card (free_set s) < 3" using 2(2) u(2) n(8) by (simp add: append_refused_def)
    then have "entry_refused s s'"
      using 2(2) u(2,3) n(6,7,10) bu by (auto simp: append_refused_def entry_refused_def)
    ultimately show ?thesis by blast
  qed
qed

lemma add_new_entry_ok:
  assumes "fl_inv s" "dir_ok s i D" "int (length nm) \<le> 255" "in_s64 m" "map_of (dir_names D) nm = None"
  shows "(\<exists>i' s'. add_new_entry s i m nm = Some (True, i', s') \<and> dir_changed s i (dir_add m nm D) i' s') \<or>
    (\<exists>i' s'. add_new_entry s i m nm = Some (False, i', s') \<and> entry_refused s s' \<and>
      length (dir_add m nm D) = Suc (length D))"
proof -
  note new_block = add_entry_in_new_block_ok [OF assms]
  have d: "S_ISDIR (mode i)" "wf_file s i" "int (length D) = num_blocks i" "0 \<le> num_blocks i"
    using assms(2) by (auto simp: dir_ok_def wf_file_def)
  show ?thesis
  proof (cases "D = []")
    case True
    then have "add_new_entry s i m nm = add_entry_in_new_block s i m nm"
      using d assms(3) by (simp add: add_new_entry_def Let_def geometry)
    moreover have "dir_add m nm D = D @ [[(m, nm, 4096)]]" using True by (simp add: dir_add_def)
    ultimately show ?thesis using new_block by simp
  next
    case False
    define y where "y = fblk (blocks s) i (num_blocks i - 1)"
    have k: "0 \<le> num_blocks i - 1" "num_blocks i - 1 < num_blocks i" using False d(3) by (cases D; simp)+
    have h: "healthy s" using assms(1) by (simp add: fl_inv_def)
    note F = fetch_block [OF h d(2) k, folded y_def]
    have "nat (num_blocks i - 1) = length D - 1" using d(3) False by (cases D) auto
    then have "last D = D ! nat (num_blocks i - 1)" using False by (simp add: last_conv_nth)
    then have recs: "dir_recs (blocks s y) 0 (last D)"
    proof -
      have "\<forall>k < length D. dir_recs (blocks s (fblk (blocks s) i (int k))) 0 (D ! k)"
        using assms(2) by (simp add: dir_ok_def)
      then have "dir_recs (blocks s (fblk (blocks s) i (int (nat (num_blocks i - 1))))) 0 (D ! nat (num_blocks i - 1))"
        by (rule allE [of _ "nat (num_blocks i - 1)"]) (use k d(3) in simp)
      then show ?thesis using k \<open>last D = _\<close> by (simp add: y_def)
    qed
    note room = find_room_recs [OF recs, of "18 + int (length nm)"]
    have start: "add_new_entry s i m nm = (case dir_room (18 + int (length nm)) 0 (last D) of
        Room curr_pos next_entry_offset entry_length \<Rightarrow> do {
          dblock \<leftarrow> wr_s64 (blocks s y) (curr_pos + INODE_SZ) entry_length;
          if entry_length \<le> 0 then Some (False, i, s)
          else do {
            dblock \<leftarrow> put_record dblock (curr_pos + entry_length) m (next_entry_offset - entry_length) nm;
            let (ok, s) = write_dblock s y dblock;
            Some (ok, i, s) } }
      | Broken \<Rightarrow> Some (False, i, s)
      | NoRoom \<Rightarrow> add_entry_in_new_block s i m nm)"
      using F room k assms(3) d(1) by (simp add: add_new_entry_def Let_def geometry cong: dir_room.case_cong)
    show ?thesis
    proof (cases "dir_room (18 + int (length nm)) 0 (last D)")
      case NoRoom
      then have "dir_add m nm D = D @ [[(m, nm, 4096)]]"
        using False dir_room_insert(1) [of nm 0 "last D" m] by (simp add: dir_add_def)
      with NoRoom start new_block show ?thesis by simp
    next
      case Broken
      then show ?thesis using dir_room_insert(2) by blast
    next
      case (Room q e l)
      have nm: "int (length nm) < 65536" using assms(3) by simp
      obtain c b' rs' where I: "wr_s64 (blocks s y) (q + 8) l = Some c"
        "put_record c (q + l) m (e - l) nm = Some b'" "0 < l"
        "dir_insert m nm (last D) = Some rs'" "dir_recs b' 0 rs'"
        using insert_in_room [OF recs _ assms(4) nm Room] by auto
      define s' where "s' = s\<lparr>blocks := (blocks s)(y := b')\<rparr>"
      have "dir_add m nm D = butlast D @ [rs']" using I(4) False by (simp add: dir_add_def)
      moreover have "distinct (map fst (dir_names (dir_add m nm D)))"
        using assms(2,5) by (intro distinct_dir_add) (simp_all add: dir_ok_def)
      ultimately have u: "distinct (map fst (dir_names (butlast D @ [rs'])))" by simp
      note L = dir_ok_last [OF assms(1,2) False I(5) u, folded y_def, folded s'_def]
      have "add_new_entry s i m nm = Some (True, i, s')"
        using start Room I L(1) by (simp add: geometry)
      moreover have "dir_changed s i (dir_add m nm D) i s'"
        using L I(4) False by (auto simp: dir_changed_def dir_add_def s'_def)
      ultimately show ?thesis by blast
    qed
  qed
qed

text \<open>Whatever the outcome, the search works on the directory left behind.\<close>

lemma dir_refused: "dir_ok s i D \<Longrightarrow> entry_refused s s' \<Longrightarrow> dir_ok s' i D"
proof -
  assume a: "dir_ok s i D" "entry_refused s s'"
  have "blocks s' b = blocks s b" if "b \<in> set (owned (blocks s) i)" for b
    using a that data_block_nonzero by (auto simp: dir_ok_def wf_file_def entry_refused_def)
  with a show "dir_ok s' i D" by (intro dir_ok_cong [OF a(1)]) (auto simp: entry_refused_def)
qed

section \<open>A volume with a directory, for closed examples\<close>

definition sample_dir :: iNode where
  "sample_dir = sample_file\<lparr>direct_blocks := 30002 # replicate 9 0, mode := S_IFDIR,
    file_size := 4096, num_blocks := 1\<rparr>"

lemma sample_dir_wf: "wf_inode sample_dir"
  using sample_file_wf by (simp add: sample_dir_def wf_inode_def in_s64_def list_all_iff)

lemma sample_dir_ok:
  assumes "dir_recs (blocks s 30002) 0 rs" "30002 \<notin> free_set s" "distinct (map fst (live rs))"
  shows "dir_ok s sample_dir [rs]"
proof -
  have n: "num_blocks sample_dir = 1" "direct_blocks sample_dir = 30002 # replicate 9 0"
    "mode sample_dir = S_IFDIR" by (simp_all add: sample_dir_def)
  have o: "owned (blocks s) sample_dir = [30002]"
    by (simp add: owned_def data_of_def list_blocks_def n fblk_def)
  have "wf_file s sample_dir"
    unfolding wf_file_def o using assms(2) by (simp add: n data_block_def geometry)
  moreover have "S_ISDIR S_IFDIR" by (simp add: S_ISDIR_def S_IFDIR_def S_IFMT_def)
  ultimately show ?thesis using assms(1,3) by (simp add: dir_ok_def n fblk_def dir_names_one)
qed

lemma dir_volume:
  obtains s :: bstate where "fl_inv s" "free_set s = {26215, 26216}" "dir_ok s sample_dir [[(2, ''.'', 4096)]]"
proof -
  obtain b where b: "dir_recs b 0 [(2, ''.'', 4096)]"
    by (rule single_record [of "''.''" 2]) (auto simp: in_s64_def)
  define s where "s = file_volume\<lparr>blocks := (blocks file_volume)(30002 := b)\<rparr>"
  have s: "fl_inv s" "free_set s = {26215, 26216}" "blocks s 30002 = b"
    using fl_inv_write_used [OF file_volume_facts(1), of 30002 b] file_volume_facts(2) by (auto simp: s_def)
  have "dir_ok s sample_dir [[(2, ''.'', 4096)]]"
    by (rule sample_dir_ok) (use s b in simp_all)
  with s that show thesis by blast
qed

section \<open>Properties\<close>

text \<open>
  \<open>find_file\<close> is the lookup in the map of the names of the directory: for every name it
  returns a position, from which the callers read the number the map has for the name, or -1
  when the map has none.
\<close>

theorem find_file_looks_up_the_name:
  assumes "fl_inv s" "dir_ok s i D"
  shows "\<exists>fp. find_file s name i = Some fp \<and>
    (case map_of (dir_names D) name of
       None \<Rightarrow> start_pos fp = -1
     | Some n \<Rightarrow> start_pos fp \<noteq> -1 \<and> rd_s64 (fp_dblock fp) (start_pos fp) = Some n)"
proof -
  obtain fp where "find_file s name i = Some fp" "found_inum fp = map_of (dir_names D) name"
    "start_pos fp = -1 \<longleftrightarrow> map_of (dir_names D) name = None"
    by (rule find_file_ok [OF assms])
  then show ?thesis by (auto simp: found_inum_def split: option.splits)
qed

theorem find_file_looks_up_the_name_witness:
  "\<exists>(s :: bstate) fp. find_file s ''.'' sample_dir = Some fp \<and> rd_s64 (fp_dblock fp) (start_pos fp) = Some 2"
proof -
  obtain s :: bstate where "fl_inv s" "dir_ok s sample_dir [[(2, ''.'', 4096)]]" by (rule dir_volume)
  from find_file_looks_up_the_name [OF this, of "''.''"] show ?thesis
    by (auto simp: dir_names_def)
qed

text \<open>
  C15: adding an entry under a new name succeeds when the last block of the directory has room
  or three blocks are free; then \<open>find_file\<close> finds the new name with the number given and every
  other name as before, and blocks in use outside the directory are unchanged.
\<close>

theorem find_file_after_add_new_entry:
  assumes "fl_inv s" "dir_ok s i D" "int (length nm) \<le> 255" "in_s64 m" "m \<noteq> 0"
    and "map_of (dir_names D) nm = None"
    and "length (dir_add m nm D) = length D \<or> 3 \<le> card (free_set s)"
  shows "\<exists>i' s' D'. add_new_entry s i m nm = Some (True, i', s') \<and> fl_inv s' \<and> dir_ok s' i' D' \<and>
    map_of (dir_names D') = (map_of (dir_names D))(nm \<mapsto> m) \<and>
    (\<forall>x. \<exists>fp. find_file s' x i' = Some fp \<and>
       found_inum fp = (if x = nm then Some m else map_of (dir_names D) x)) \<and>
    (\<forall>b. b \<noteq> 0 \<longrightarrow> b \<notin> free_set s \<longrightarrow> b \<notin> set (owned (blocks s) i) \<longrightarrow> blocks s' b = blocks s b)"
proof -
  obtain i' s' where "add_new_entry s i m nm = Some (True, i', s')" "dir_changed s i (dir_add m nm D) i' s'"
    using add_new_entry_ok [OF assms(1-4,6)] assms(7) by (auto simp: entry_refused_def)
  note A = this [unfolded dir_changed_def]
  then have s': "fl_inv s'" "dir_ok s' i' (dir_add m nm D)" by auto
  note names = map_of_dir_add [OF assms(5,6)]
  have "\<exists>fp. find_file s' x i' = Some fp \<and> found_inum fp = (if x = nm then Some m else map_of (dir_names D) x)" for x
    by (rule find_file_ok [OF s', of x]) (simp add: names)
  then show ?thesis using A s' names by blast
qed

theorem find_file_after_add_new_entry_witness:
  "\<exists>(s :: bstate) i' s' fp. add_new_entry s sample_dir 7 ''new'' = Some (True, i', s') \<and>
    find_file s' ''new'' i' = Some fp \<and> found_inum fp = Some 7"
proof -
  obtain s :: bstate where s: "fl_inv s" "dir_ok s sample_dir [[(2, ''.'', 4096)]]" by (rule dir_volume)
  have "length (dir_add 7 ''new'' [[(2, ''.'', 4096)]]) = length [[(2 :: int, ''.'', 4096 :: int)]]"
    by (simp add: dir_add_def)
  then have "length (dir_add 7 ''new'' [[(2, ''.'', 4096)]]) = length [[(2 :: int, ''.'', 4096 :: int)]] \<or>
    3 \<le> card (free_set s)" by blast
  then obtain i' s' where r: "add_new_entry s sample_dir 7 ''new'' = Some (True, i', s')"
    "\<forall>x. \<exists>fp. find_file s' x i' = Some fp \<and>
       found_inum fp = (if x = ''new'' then Some 7 else map_of (dir_names [[(2, ''.'', 4096)]]) x)"
    using find_file_after_add_new_entry [OF s, of "''new''" 7] by (simp add: dir_names_def in_s64_def) blast
  obtain fp where "find_file s' ''new'' i' = Some fp" "found_inum fp = Some 7"
    using r(2) [rule_format, of "''new''"] by auto
  with r(1) show ?thesis by blast
qed

end
