(* ===== verification/PathSpec.thy ===== *)
theory PathSpec
  imports DirectorySpec
begin

text \<open>
  Looking up a path. \<open>resolve N path\<close> is the lookup without a cache on a tree of directories,
  where \<open>N n\<close> is the map from the names in directory \<open>n\<close> to inode numbers. The volume holds such
  a tree (\<open>tree_ok\<close>), the cache agrees with it (\<open>cache_ok\<close>), and
  \<open>get_inode_num_from_path\<close> computes \<open>resolve\<close>.
\<close>

section \<open>The lookup without a cache\<close>

type_synonym dir_tree = "int \<Rightarrow> string \<rightharpoonup> int"

function resolve :: "dir_tree \<Rightarrow> string \<Rightarrow> int" where
  "resolve N path =
     (if path = ''/'' then ROOT_INODE
      else case get_parent_path path (int (length path)) of
        None \<Rightarrow> -1
      | Some parent \<Rightarrow>
          if resolve N parent = -1 then -1
          else case get_child_name path (int (length path)) of
            None \<Rightarrow> -1
          | Some name \<Rightarrow> (case N (resolve N parent) name of None \<Rightarrow> -1 | Some n \<Rightarrow> n))"
  by pat_completeness auto
termination
  by (relation "measure (\<lambda>(N, path). length path)") (auto dest: get_parent_path_shorter)

declare resolve.simps [simp del]

text \<open>The path itself and the paths above it, the root excepted.\<close>

function ancestors :: "string \<Rightarrow> string list" where
  "ancestors path =
     (if path = ''/'' then []
      else path # (case get_parent_path path (int (length path)) of None \<Rightarrow> [] | Some parent \<Rightarrow> ancestors parent))"
  by pat_completeness auto
termination
  by (relation "measure length") (auto dest: get_parent_path_shorter)

declare ancestors.simps [simp del]

lemma resolve_root: "resolve N ''/'' = ROOT_INODE"
  by (subst resolve.simps) simp

lemma resolve_none:
  "path \<noteq> ''/'' \<Longrightarrow> get_parent_path path (int (length path)) = None \<Longrightarrow> resolve N path = -1"
  by (subst resolve.simps) simp

lemma resolve_step:
  "path \<noteq> ''/'' \<Longrightarrow> get_parent_path path (int (length path)) = Some q \<Longrightarrow>
   get_child_name path (int (length path)) = Some c \<Longrightarrow>
   resolve N path = (if resolve N q = -1 then -1 else case N (resolve N q) c of None \<Rightarrow> -1 | Some n \<Rightarrow> n)"
  by (subst resolve.simps) simp

lemma ancestors_root: "ancestors ''/'' = []"
  by (subst ancestors.simps) simp

lemma ancestors_step:
  "path \<noteq> ''/'' \<Longrightarrow> ancestors path =
   path # (case get_parent_path path (int (length path)) of None \<Rightarrow> [] | Some q \<Rightarrow> ancestors q)"
  by (subst ancestors.simps) simp

lemma ancestors_length: "p \<in> set (ancestors path) \<Longrightarrow> length p \<le> length path"
proof (induction "length path" arbitrary: path rule: less_induct)
  case less
  show ?case
  proof (cases "path = ''/''")
    case True
    then show ?thesis using less.prems by (simp add: ancestors_root)
  next
    case False
    then consider "p = path" | q where "get_parent_path path (int (length path)) = Some q" "p \<in> set (ancestors q)"
      using less.prems by (cases "get_parent_path path (int (length path))") (auto simp: ancestors_step [of path])
    then show ?thesis
    proof cases
      case 2
      note q = get_parent_path_shorter [OF 2(1)]
      from less.hyps [OF q 2(2)] q show ?thesis by simp
    qed simp
  qed
qed

lemma get_child_name_of_parent:
  "get_parent_path path (int (length path)) = Some q \<Longrightarrow> \<exists>c. get_child_name path (int (length path)) = Some c"
  by (auto simp: get_parent_path_def get_child_name_def Let_def split: if_splits)

section \<open>The tree on the volume and the cache\<close>

definition nodes :: "dir_tree \<Rightarrow> int set" where
  "nodes N = insert ROOT_INODE {m. \<exists>n c. N n c = Some m}"

definition tree_ok :: "'a bstate_scheme \<Rightarrow> dir_tree \<Rightarrow> bool" where
  "tree_ok s N \<longleftrightarrow> (\<forall>n \<in> nodes N. inum_ok n \<and>
     (if S_ISDIR (mode (inode_at s n)) then \<exists>D. dir_ok s (inode_at s n) D \<and> N n = map_of (dir_names D)
      else N n = Map.empty))"

definition cache_ok :: "dir_tree \<Rightarrow> (string \<times> int) list \<Rightarrow> bool" where
  "cache_ok N l \<longleftrightarrow> (\<forall>(p, n) \<in> set l. n = resolve N p \<and> 0 < n)"

text \<open>The cache has room, and free slots, for the paths a lookup may store.\<close>

abbreviation keys :: "(string \<times> int) list \<Rightarrow> string set" where
  "keys l \<equiv> fst ` set l"

definition room_for :: "lru_cache \<Rightarrow> (string \<times> int) list \<Rightarrow> string set \<Rightarrow> bool" where
  "room_for c l P \<longleftrightarrow> csize c + int (card (P - keys l)) \<le> capacity c \<and>
     inj_on (slot (capacity c)) (keys l \<union> P)"

lemma resolve_node: "resolve N path = -1 \<or> resolve N path \<in> nodes N"
proof (cases "path = ''/''")
  case True
  then show ?thesis by (simp add: resolve_root nodes_def)
next
  case False
  then show ?thesis
    by (subst (1 2) resolve.simps) (auto simp: nodes_def split: option.splits)
qed

lemma node_positive: "tree_ok s N \<Longrightarrow> n \<in> nodes N \<Longrightarrow> 0 < n"
  by (auto simp: tree_ok_def inum_ok_def)

lemma cache_ok_without: "cache_ok N l \<Longrightarrow> cache_ok N (without k l)"
  by (auto simp: cache_ok_def without_def)

lemma fst_without: "fst ` set (without k l) \<subseteq> fst ` set l"
  by (auto simp: without_def)

text \<open>Searching the directory a node of the tree is.\<close>

lemma find_in_node:
  fixes s :: "'a fstate_scheme"
  assumes "fl_inv s" "tree_ok s N" "n \<in> nodes N"
  obtains fp where "find_file s name (inode_at s n) = Some fp" "found_inum fp = N n name"
    "start_pos fp = -1 \<longleftrightarrow> N n name = None"
proof (cases "S_ISDIR (mode (inode_at s n))")
  case True
  then obtain D where D: "dir_ok s (inode_at s n) D" "N n = map_of (dir_names D)"
    using assms(2,3) unfolding tree_ok_def by force
  obtain fp where "find_file s name (inode_at s n) = Some fp" "found_inum fp = map_of (dir_names D) name"
    "start_pos fp = -1 \<longleftrightarrow> map_of (dir_names D) name = None"
    by (rule find_file_ok [OF assms(1) D(1)])
  then show thesis using that D(2) by simp
next
  case False
  then have "N n = Map.empty" using assms(2,3) by (auto simp: tree_ok_def)
  with False show thesis by (auto intro!: that simp: find_file_def found_inum_def)
qed

lemma inode_at_cache: "inode_at (s\<lparr>iname_cache := c\<rparr>) n = inode_at s n"
  by simp

lemma dir_ok_cache [simp]: "dir_ok (s\<lparr>iname_cache := c\<rparr>) i D = dir_ok s i D"
  by (simp add: dir_ok_def)

lemma tree_ok_cache [simp]: "tree_ok (s\<lparr>iname_cache := c\<rparr>) N = tree_ok s N"
  by (simp add: tree_ok_def)

section \<open>The lookup with the cache\<close>

text \<open>What a lookup does to the cache: it may store paths of \<open>P\<close>.\<close>

definition cache_after ::
  "dir_tree \<Rightarrow> lru_cache \<Rightarrow> (string \<times> int) list \<Rightarrow> string set \<Rightarrow> lru_cache \<Rightarrow> (string \<times> int) list \<Rightarrow> bool" where
  "cache_after N c l P c' l' \<longleftrightarrow> lru_rep c' l' \<and> cache_ok N l' \<and> capacity c' = capacity c \<and>
     keys l \<subseteq> keys l' \<and> keys l' \<subseteq> keys l \<union> P \<and> csize c' = csize c + int (card (keys l' - keys l))"

lemma cache_after_refl: "lru_rep c l \<Longrightarrow> cache_ok N l \<Longrightarrow> cache_after N c l P c l"
  by (simp add: cache_after_def)

lemma cache_after_mono: "cache_after N c l P c' l' \<Longrightarrow> P \<subseteq> Q \<Longrightarrow> cache_after N c l Q c' l'"
  by (auto simp: cache_after_def)

lemma room_for_mono:
  assumes "room_for c l Q" "P \<subseteq> Q" "finite Q"
  shows "room_for c l P"
proof -
  have "card (P - keys l) \<le> card (Q - keys l)" using assms(2,3) by (intro card_mono) auto
  with assms(1,2) show ?thesis by (auto simp: room_for_def intro: inj_on_subset)
qed

text \<open>Room for \<open>Q\<close> outlasts a lookup that stores paths of \<open>Q\<close>.\<close>

lemma room_for_after:
  assumes "room_for c l Q" "cache_after N c l P c' l'" "P \<subseteq> Q" "finite Q"
  shows "room_for c' l' Q"
proof -
  have d: "Q - keys l' = (Q - keys l) - (keys l' - keys l)" "keys l' - keys l \<subseteq> Q - keys l"
    using assms(2,3) by (auto simp: cache_after_def)
  have "card (Q - keys l') = card (Q - keys l) - card (keys l' - keys l)"
    unfolding d(1) using d(2) by (intro card_Diff_subset) auto
  moreover have "card (keys l' - keys l) \<le> card (Q - keys l)"
    using assms(4) by (intro card_mono [OF _ d(2)]) auto
  ultimately have "csize c' + int (card (Q - keys l')) = csize c + int (card (Q - keys l))"
    using assms(2) by (simp add: cache_after_def)
  moreover have "keys l' \<union> Q \<subseteq> keys l \<union> Q" using assms(2,3) by (auto simp: cache_after_def)
  ultimately show ?thesis
    using assms(1,2) by (auto simp: room_for_def cache_after_def intro: inj_on_subset)
qed

lemma cache_hit:
  assumes "lru_rep c l" "cache_ok N l" "map_of l path = Some n"
  obtains c' where "get_cache c (Some path) = Some (n, c')" "n = resolve N path" "0 < n"
    "cache_after N c l P c' ((path, n) # without path l)"
proof -
  have n: "n = resolve N path" "0 < n" using assms(2,3) by (auto simp: cache_ok_def dest: map_of_SomeD)
  obtain c' where c': "get_cache c (Some path) = Some (n, c')" "lru_rep c' ((path, n) # without path l)"
    "csize c' = csize c" "capacity c' = capacity c"
    using get_present [OF assms(1,3)] by blast
  have "path \<in> keys l" using assms(3) by (force dest: map_of_SomeD)
  then have k: "keys ((path, n) # without path l) = keys l" by (force simp: without_def)
  have "cache_ok N ((path, n) # without path l)"
    using n cache_ok_without [OF assms(2), of path] by (auto simp: cache_ok_def)
  then have "cache_after N c l P c' ((path, n) # without path l)"
    unfolding cache_after_def k using c'(2-4) by simp
  with c'(1) n that show thesis by blast
qed

lemma cache_store:
  assumes "cache_after N c l P c' l'" "room_for c l (insert path P)" "finite P"
    and "path \<notin> P" "path \<notin> keys l" "resolve N path = n" "0 < n"
  obtains c2 where "set_cache c' (Some path) n = Some c2"
    "cache_after N c l (insert path P) c2 ((path, n) # l')"
proof -
  have k: "lru_rep c' l'" "keys l \<subseteq> keys l'" "keys l' \<subseteq> keys l \<union> P" "capacity c' = capacity c"
    "csize c' = csize c + int (card (keys l' - keys l))" "cache_ok N l'"
    using assms(1) by (auto simp: cache_after_def)
  have fresh: "path \<notin> keys l'" using k(3) assms(4,5) by blast
  have "card (insert path (keys l' - keys l)) \<le> card (insert path P - keys l)"
    using k(3) assms(3,5) by (intro card_mono) auto
  then have card: "card (keys l' - keys l) < card (insert path P - keys l)"
    using fresh by simp
  have room: "csize c' < capacity c'"
    using card assms(2) k(4,5) by (simp add: room_for_def)
  have slots: "slot (capacity c') p \<noteq> slot (capacity c') path" if "p \<in> keys l'" for p
  proof -
    have "p \<in> keys l \<union> insert path P" "p \<noteq> path" using that k(3) fresh by blast+
    then show ?thesis using assms(2) k(4) by (auto simp: room_for_def inj_on_def)
  qed
  obtain c2 where c2: "set_cache c' (Some path) n = Some c2" "lru_rep c2 ((path, n) # l')"
    "csize c2 = csize c' + 1" "capacity c2 = capacity c'"
    using set_absent [OF k(1) fresh room slots, of n] by blast
  have "insert path (keys l') - keys l = insert path (keys l' - keys l)" using assms(5) by blast
  then have "card (keys ((path, n) # l') - keys l) = Suc (card (keys l' - keys l))"
    using fresh by simp
  then have "cache_after N c l (insert path P) c2 ((path, n) # l')"
    using c2(2-4) k assms(6,7) by (auto simp: cache_after_def cache_ok_def)
  with c2(1) that show thesis by blast
qed

text \<open>One step of the lookup: the parent was found as \<open>p\<close>, the directory there is searched.\<close>

lemma lookup_step:
  fixes s :: "'a fstate_scheme"
  assumes "get_cache (iname_cache s) (Some path) = Some (-1, iname_cache s)" "path \<noteq> ''/''"
    and "get_parent_path path (int (length path)) = Some q" "get_child_name path (int (length path)) = Some name"
    and "get_inode_num_from_path s q = Some (p, t)"
    and "fl_inv t" "sb_ok t" "tree_ok t N" "p = -1 \<or> p \<in> nodes N"
  shows "get_inode_num_from_path s path =
    (if p = -1 then Some (-1, t)
     else case N p name of
       None \<Rightarrow> Some (-1, t)
     | Some n \<Rightarrow> do { s \<leftarrow> cache_set t path n; Some (n, s) })"
proof -
  have same: "s\<lparr>iname_cache := iname_cache s\<rparr> = s" by simp
  have start: "get_inode_num_from_path s path =
      (if p = -1 then Some (-1, t) else do {
         inode_ptr \<leftarrow> read_inode t p;
         inode \<leftarrow> inode_ptr;
         fp \<leftarrow> find_file t name inode;
         if start_pos fp = -1 then Some (-1, t)
         else do {
           inode_num \<leftarrow> rd_s64 (fp_dblock fp) (start_pos fp);
           s \<leftarrow> cache_set t path inode_num;
           Some (inode_num, s) } })"
    using assms(1-5) by (subst get_inode_num_from_path.simps) (simp add: cache_get_def same)
  show ?thesis
  proof (cases "p = -1")
    case False
    then have p: "p \<in> nodes N" using assms(9) by blast
    then have "inum_ok p" using assms(8) by (simp add: tree_ok_def)
    then have rd: "read_inode t p = Some (Some (inode_at t p))"
      using assms(6,7) by (intro read_inode_ok) (simp_all add: fl_inv_def)
    obtain fp where "find_file t name (inode_at t p) = Some fp"
      "found_inum fp = N p name" "start_pos fp = -1 \<longleftrightarrow> N p name = None"
      using find_in_node [OF assms(6,8) p, of name] by auto
    with False show ?thesis
      by (cases "N p name") (auto simp: start rd found_inum_def split: if_splits)
  qed (simp add: start)
qed

lemma lookup_resolves:
  fixes s :: "'a fstate_scheme"
  assumes "fl_inv s" "sb_ok s" "tree_ok s N"
    and "lru_rep (iname_cache s) l" "cache_ok N l" "room_for (iname_cache s) l (set (ancestors path))"
  shows "\<exists>c l'. get_inode_num_from_path s path = Some (resolve N path, s\<lparr>iname_cache := c\<rparr>) \<and>
    cache_after N (iname_cache s) l (set (ancestors path)) c l'"
  using assms
proof (induction "length path" arbitrary: path rule: less_induct)
  case less
  note s = less.prems(1-3) and c = less.prems(4-6)
  have same: "s\<lparr>iname_cache := iname_cache s\<rparr> = s" by simp
  note stay = cache_after_refl [OF c(1,2), of "set (ancestors path)"]
  consider "path = ''/''" | n where "map_of l path = Some n" "path \<noteq> ''/''"
    | "map_of l path = None" "path \<noteq> ''/''" "get_parent_path path (int (length path)) = None"
    | q where "map_of l path = None" "path \<noteq> ''/''" "get_parent_path path (int (length path)) = Some q"
    by fastforce
  then show ?case
  proof cases
    case 1
    then have "get_inode_num_from_path s path = Some (resolve N path, s\<lparr>iname_cache := iname_cache s\<rparr>)"
      unfolding same 1 resolve_root by (subst get_inode_num_from_path.simps) simp
    with stay show ?thesis by blast
  next
    case (2 n)
    obtain c' where c': "get_cache (iname_cache s) (Some path) = Some (n, c')" "n = resolve N path" "0 < n"
      "cache_after N (iname_cache s) l (set (ancestors path)) c' ((path, n) # without path l)"
      by (rule cache_hit [OF c(1,2) 2(1)])
    then have "get_inode_num_from_path s path = Some (resolve N path, s\<lparr>iname_cache := c'\<rparr>)"
      using 2(2) by (subst get_inode_num_from_path.simps) (simp add: cache_get_def)
    with c'(4) show ?thesis by blast
  next
    case 3
    then have "get_cache (iname_cache s) (Some path) = Some (-1, iname_cache s)"
      by (intro get_absent [OF c(1)]) (simp add: map_of_eq_None_iff)
    then have "get_inode_num_from_path s path = Some (resolve N path, s\<lparr>iname_cache := iname_cache s\<rparr>)"
      unfolding same using 3 resolve_none [of path N]
      by (subst get_inode_num_from_path.simps) (simp add: cache_get_def)
    with stay show ?thesis by blast
  next
    case (4 q)
    have miss: "path \<notin> keys l" using 4(1) by (simp add: map_of_eq_None_iff)
    obtain name where name: "get_child_name path (int (length path)) = Some name"
      using get_child_name_of_parent [OF 4(3)] by blast
    have anc: "set (ancestors path) = insert path (set (ancestors q))" using 4 by (simp add: ancestors_step)
    have q: "length q < length path" using 4(3) by (rule get_parent_path_shorter)
    have "room_for (iname_cache s) l (set (ancestors q))"
      by (rule room_for_mono [OF c(3)]) (auto simp: anc)
    from less.hyps [OF q s c(1,2) this] obtain c1 l1 where
      r: "get_inode_num_from_path s q = Some (resolve N q, s\<lparr>iname_cache := c1\<rparr>)"
      and a: "cache_after N (iname_cache s) l (set (ancestors q)) c1 l1" by blast
    have a': "cache_after N (iname_cache s) l (set (ancestors path)) c1 l1"
      by (rule cache_after_mono [OF a]) (auto simp: anc)
    have "resolve N q = -1 \<or> resolve N q \<in> nodes N" by (rule resolve_node)
    note L = lookup_step [OF get_absent [OF c(1) miss] 4(2,3) name r _ _ _ this, simplified, OF s]
    note R = resolve_step [OF 4(2,3) name, of N]
    show ?thesis
    proof (cases "resolve N q = -1 \<or> N (resolve N q) name = None")
      case True
      then show ?thesis using L R a' by auto
    next
      case False
      then obtain n where n: "N (resolve N q) name = Some n" "resolve N q \<noteq> -1" by auto
      then have "n \<in> nodes N" by (auto simp: nodes_def)
      then have n0: "0 < n" "resolve N path = n" using node_positive [OF s(3)] n R by auto
      have "path \<notin> set (ancestors q)" using ancestors_length [of path q] q by auto
      from cache_store [OF a _ _ this miss n0(2,1)] c(3) anc obtain c2 where
        "set_cache c1 (Some path) n = Some c2"
        "cache_after N (iname_cache s) l (set (ancestors path)) c2 ((path, n) # l1)" by auto
      then show ?thesis using L n n0 by (auto simp: cache_set_def)
    qed
  qed
qed

end
