(* ===== verification/VolumeSpec.thy ===== *)
theory VolumeSpec
  imports PathSpec InodeAlloc
begin

text \<open>
  The volume as a whole (\<open>volume_ok\<close>): a tree of directories and files whose blocks are in use
  and belong to one file each. Creating a file extends the tree by one name, and the path then
  leads to the new inode.
\<close>

section \<open>The invariant\<close>

definition volume_ok :: "'a bstate_scheme \<Rightarrow> dir_tree \<Rightarrow> bool" where
  "volume_ok s N \<longleftrightarrow> fl_inv s \<and> sb_ok s \<and> tree_ok s N \<and>
     (\<forall>n \<in> nodes N. wf_file s (inode_at s n)) \<and>
     (\<forall>n \<in> nodes N. \<forall>m \<in> nodes N. n \<noteq> m \<longrightarrow>
        set (owned (blocks s) (inode_at s n)) \<inter> set (owned (blocks s) (inode_at s m)) = {})"

text \<open>\<open>n\<close> is entered as \<open>name\<close> in directory \<open>p\<close>; its own entries, if any, are \<open>M\<close>.\<close>

definition enter :: "dir_tree \<Rightarrow> int \<Rightarrow> string \<Rightarrow> int \<Rightarrow> (string \<rightharpoonup> int) \<Rightarrow> dir_tree" where
  "enter N p name n M = (N(n := M))(p := (N p)(name \<mapsto> n))"

lemma nodes_enter:
  assumes "p \<in> nodes N" "n \<notin> nodes N" "ran M \<subseteq> {n}"
  shows "nodes (enter N p name n M) \<subseteq> insert n (nodes N)"
  using assms(3) by (auto simp: nodes_def enter_def ran_def split: if_splits)

text \<open>A new entry makes no path lead elsewhere.\<close>

lemma resolve_enter:
  assumes "N p name = None" "n \<notin> nodes N" "resolve N path \<noteq> -1"
  shows "resolve (enter N p name n M) path = resolve N path"
  using assms(3)
proof (induction "length path" arbitrary: path rule: less_induct)
  case less
  show ?case
  proof (cases "path = ''/''")
    case True
    then show ?thesis by (simp add: resolve_root)
  next
    case False
    then obtain q where q: "get_parent_path path (int (length path)) = Some q"
      using less.prems resolve_none by blast
    obtain c where c: "get_child_name path (int (length path)) = Some c"
      using get_child_name_of_parent [OF q] by blast
    note R = resolve_step [OF False q c]
    have N: "resolve N q \<noteq> -1" "N (resolve N q) c \<noteq> None"
      using less.prems R [of N] by (auto split: if_splits option.splits)
    have e: "resolve (enter N p name n M) q = resolve N q"
      using less.hyps [OF get_parent_path_shorter [OF q]] N(1) by blast
    have "resolve N q \<noteq> n" using resolve_node [of N q] N(1) assms(2) by metis
    then have "enter N p name n M (resolve N q) c = N (resolve N q) c"
      using N(2) assms(1) by (auto simp: enter_def)
    then show ?thesis using R e N(1) by simp
  qed
qed

lemma resolve_entered:
  assumes "N p name = None" "n \<notin> nodes N" "path \<noteq> ''/''" "p \<noteq> -1"
    and "get_parent_path path (int (length path)) = Some q" "get_child_name path (int (length path)) = Some name"
    and "resolve N q = p"
  shows "resolve (enter N p name n M) path = n"
proof -
  have "resolve (enter N p name n M) q = p" using resolve_enter [OF assms(1,2)] assms(4,7) by simp
  then show ?thesis using resolve_step [OF assms(3,5,6)] assms(4) by (simp add: enter_def)
qed

lemma cache_ok_enter:
  "cache_ok N l \<Longrightarrow> N p name = None \<Longrightarrow> n \<notin> nodes N \<Longrightarrow> cache_ok (enter N p name n M) l"
  using resolve_enter [of N p name n] by (fastforce simp: cache_ok_def)

section \<open>Growing the tree\<close>

text \<open>
  \<open>s'\<close> differs from \<open>s\<close> in the directory \<open>p\<close>, which may have taken free blocks, and in the
  inode \<open>n\<close>, whose blocks were free.
\<close>

definition node_ok :: "'a bstate_scheme \<Rightarrow> iNode \<Rightarrow> (string \<rightharpoonup> int) \<Rightarrow> bool" where
  "node_ok s i M \<longleftrightarrow> wf_file s i \<and>
     (if S_ISDIR (mode i) then \<exists>D. dir_ok s i D \<and> M = map_of (dir_names D) else M = Map.empty)"

lemma volume_node:
  "volume_ok s N \<Longrightarrow> n \<in> nodes N \<Longrightarrow> inum_ok n \<and> node_ok s (inode_at s n) (N n)"
  unfolding volume_ok_def tree_ok_def node_ok_def by blast

lemma volume_disjoint:
  "volume_ok s N \<Longrightarrow> n \<in> nodes N \<Longrightarrow> m \<in> nodes N \<Longrightarrow> n \<noteq> m \<Longrightarrow>
   set (owned (blocks s) (inode_at s n)) \<inter> set (owned (blocks s) (inode_at s m)) = {}"
  unfolding volume_ok_def by blast

lemma volume_okI:
  assumes "fl_inv s" "sb_ok s" "\<And>n. n \<in> nodes N \<Longrightarrow> inum_ok n \<and> node_ok s (inode_at s n) (N n)"
    and "\<And>n m. n \<in> nodes N \<Longrightarrow> m \<in> nodes N \<Longrightarrow> n \<noteq> m \<Longrightarrow>
      set (owned (blocks s) (inode_at s n)) \<inter> set (owned (blocks s) (inode_at s m)) = {}"
  shows "volume_ok s N"
  using assms unfolding volume_ok_def tree_ok_def node_ok_def by blast

text \<open>A node none of whose blocks is touched stays what it is.\<close>

lemma node_kept:
  assumes "node_ok s i M" "set (owned (blocks s) i) \<inter> free_set s' = {}" "\<And>b. b \<in> set (owned (blocks s) i) \<Longrightarrow> blocks s' b = blocks s b"
  shows "node_ok s' i M" "owned (blocks s') i = owned (blocks s) i"
proof -
  have wf: "wf_file s i" using assms(1) by (simp add: node_ok_def)
  show "owned (blocks s') i = owned (blocks s) i" by (rule file_kept(2) [OF wf assms(2,3)])
  have "wf_file s' i" by (rule file_kept(1) [OF wf assms(2,3)])
  moreover have "dir_ok s' i D" if "dir_ok s i D" for D by (rule dir_ok_kept [OF that assms(2,3)])
  ultimately show "node_ok s' i M" using assms(1) unfolding node_ok_def by metis
qed

lemma node_frame:
  assumes "node_ok s i M" "free_set s' \<subseteq> free_set s" "\<And>b. b \<in> set (owned (blocks s) i) \<Longrightarrow> blocks s' b = blocks s b"
  shows "node_ok s' i M" "owned (blocks s') i = owned (blocks s) i"
proof -
  have "set (owned (blocks s) i) \<inter> free_set s' = {}"
    using assms(1,2) by (auto simp: node_ok_def wf_file_def)
  note K = node_kept [OF assms(1) this assms(3)]
  show "node_ok s' i M" "owned (blocks s') i = owned (blocks s) i" using K by blast+
qed

lemma volume_enter:
  assumes v: "volume_ok s N" "p \<in> nodes N" "n \<notin> nodes N" "inum_ok n"
    and s': "fl_inv s'" "sb_ok s'" "free_set s' \<subseteq> free_set s"
    and b: "\<And>b. data_block b \<Longrightarrow> b \<notin> free_set s \<Longrightarrow> b \<notin> set (owned (blocks s) (inode_at s p)) \<Longrightarrow>
      blocks s' b = blocks s b"
    and i: "\<And>k. inum_ok k \<Longrightarrow> k \<noteq> p \<Longrightarrow> k \<noteq> n \<Longrightarrow> inode_at s' k = inode_at s k"
    and d: "dir_ok s' (inode_at s' p) D" "map_of (dir_names D) = (N p)(name \<mapsto> n)"
      "set (owned (blocks s') (inode_at s' p)) \<subseteq> set (owned (blocks s) (inode_at s p)) \<union> free_set s"
    and c: "node_ok s' (inode_at s' n) M" "ran M \<subseteq> {n}" "set (owned (blocks s') (inode_at s' n)) \<subseteq> free_set s"
      "set (owned (blocks s') (inode_at s' n)) \<inter> set (owned (blocks s') (inode_at s' p)) = {}"
  shows "volume_ok s' (enter N p name n M)"
proof -
  let ?N = "enter N p name n M" and ?own = "\<lambda>s k. set (owned (blocks s) (inode_at s k))"
  have np: "n \<noteq> p" using v(2,3) by blast
  note ok = volume_node [OF v(1)]
  have node: "k \<in> nodes N \<and> k \<noteq> p \<and> k \<noteq> n \<or> k = p \<or> k = n" if "k \<in> nodes ?N" for k
    using that nodes_enter [OF v(2,3) c(2)] by blast
  have used: "data_block b \<and> b \<notin> free_set s" if "k \<in> nodes N" "b \<in> ?own s k" for k b
    using ok [OF that(1)] that(2) by (auto simp: node_ok_def wf_file_def)
  have old: "inode_at s' k = inode_at s k \<and> node_ok s' (inode_at s' k) (N k) \<and> ?own s' k = ?own s k"
    if k: "k \<in> nodes N" "k \<noteq> p" "k \<noteq> n" for k
  proof -
    have e: "inode_at s' k = inode_at s k" using i ok k by blast
    have keep: "blocks s' b = blocks s b" if "b \<in> ?own s k" for b
      using used [OF k(1) that] b volume_disjoint [OF v(1) k(1) v(2) k(2)] that by blast
    have "node_ok s (inode_at s k) (N k)" using ok [OF k(1)] by blast
    with node_frame [OF this s'(3) keep] e show ?thesis by simp
  qed
  have apart: "?own s' k \<inter> ?own s' p = {} \<and> ?own s' k \<inter> ?own s' n = {}"
    if k: "k \<in> nodes N" "k \<noteq> p" "k \<noteq> n" for k
  proof -
    have "?own s k \<inter> ?own s p = {}" by (rule volume_disjoint [OF v(1) k(1) v(2) k(2)])
    moreover have "?own s k \<inter> free_set s = {}" using used [OF k(1)] by blast
    ultimately show ?thesis using d(3) c(3) old [OF k] by blast
  qed
  show ?thesis
  proof (rule volume_okI [OF s'(1,2)])
    fix k assume "k \<in> nodes ?N"
    then consider "k \<in> nodes N" "k \<noteq> p" "k \<noteq> n" | "k = p" | "k = n" using node by blast
    then show "inum_ok k \<and> node_ok s' (inode_at s' k) (?N k)"
    proof cases
      case 1
      then have "?N k = N k" by (simp add: enter_def)
      then show ?thesis using ok [OF 1(1)] old [OF 1] by metis
    next
      case 2
      then show ?thesis using d(1,2) ok [OF v(2)] by (auto simp: enter_def node_ok_def dir_ok_def)
    next
      case 3
      then show ?thesis using c(1) v(4) np by (simp add: enter_def)
    qed
  next
    fix k m assume km: "k \<in> nodes ?N" "m \<in> nodes ?N" "k \<noteq> m"
    have "?own s' k \<inter> ?own s' m = {}" if "k \<in> nodes N" "k \<noteq> p" "k \<noteq> n" "m \<in> nodes N" "m \<noteq> p" "m \<noteq> n"
      using old [OF that(1-3)] old [OF that(4-6)] volume_disjoint [OF v(1) that(1,4) km(3)] by metis
    then show "?own s' k \<inter> ?own s' m = {}"
      using node [OF km(1)] node [OF km(2)] km(3) apart [of k] apart [of m] c(4) by blast
  qed
qed

lemma empty_node:
  assumes "num_blocks i = 0" "length (direct_blocks i) = 10"
  shows "node_ok s i Map.empty" "owned (blocks s) i = []"
proof -
  show o: "owned (blocks s) i = []" using assms by (simp add: owned_def data_of_def list_blocks_def)
  then have "wf_file s i" using assms by (simp add: wf_file_def)
  then have "dir_ok s i []" if "S_ISDIR (mode i)" using that assms by (simp add: dir_ok_def dir_names_def)
  with \<open>wf_file s i\<close> show "node_ok s i Map.empty"
    by (auto simp: node_ok_def dir_names_def intro: exI [of _ "[]"])
qed

section \<open>Creating a file\<close>

text \<open>The inode of a directory that was written to.\<close>

definition touched :: "int \<Rightarrow> iNode \<Rightarrow> iNode" where
  "touched now i = i\<lparr>modification_time := now, status_change_time := now, access_time := now\<rparr>"

lemma touched_dir:
  "dir_ok s (touched now i) D = dir_ok s i D" "owned bs (touched now i) = owned bs i"
  "wf_inode i \<Longrightarrow> in_s64 now \<Longrightarrow> wf_inode (touched now i)"
proof -
  have f: "fblk bs (touched now i) = fblk bs i" for bs by (simp add: fun_eq_iff fblk_def touched_def)
  show o: "owned bs (touched now i) = owned bs i" for bs
    unfolding owned_def data_of_def f by (simp add: list_blocks_def touched_def)
  show "dir_ok s (touched now i) D = dir_ok s i D"
    unfolding dir_ok_def wf_file_def f o by (simp add: touched_def)
  show "wf_inode i \<Longrightarrow> in_s64 now \<Longrightarrow> wf_inode (touched now i)" by (simp add: wf_inode_def touched_def)
qed

text \<open>Entering a name in a directory and storing the directory's inode.\<close>

lemma enter_and_store:
  fixes s :: "'a fstate_scheme"
  assumes s: "fl_inv s" "sb_ok s" "inum_ok p" "dir_ok s (inode_at s p) D" "in_s64 now"
    "in_s64 (file_size (inode_at s p) + 4096)" "3 \<le> card (free_set s)"
    and n: "int (length name) \<le> 255" "in_s64 n" "n \<noteq> 0" "map_of (dir_names D) name = None"
  obtains i s1 s' D' where "add_new_entry s (inode_at s p) n name = Some (True, i, s1)"
    "write_inode s1 p (touched now i) = Some (True, s')"
    "fl_inv s'" "sb_ok s'" "iname_cache s' = iname_cache s" "free_set s' \<subseteq> free_set s"
    "card (free_set s) \<le> card (free_set s') + 3"
    "dir_ok s' (inode_at s' p) D'" "map_of (dir_names D') = (map_of (dir_names D))(name \<mapsto> n)"
    "set (owned (blocks s') (inode_at s' p)) \<subseteq> set (owned (blocks s) (inode_at s p)) \<union> free_set s"
    "\<forall>k. inum_ok k \<longrightarrow> k \<noteq> p \<longrightarrow> inode_at s' k = inode_at s k"
    "\<forall>b. data_block b \<longrightarrow> b \<notin> free_set s \<longrightarrow> b \<notin> set (owned (blocks s) (inode_at s p)) \<longrightarrow>
       blocks s' b = blocks s b"
    "core s' = core s" "file_size (inode_at s' p) \<le> file_size (inode_at s p) + 4096"
proof -
  let ?i = "inode_at s p"
  obtain i s1 where a: "add_new_entry s ?i n name = Some (True, i, s1)"
    "dir_changed s ?i (dir_add n name D) i s1"
    using add_new_entry_ok [OF s(1,4) n(1,2,4)] s(7) by (auto simp: entry_refused_def)
  then have c: "fl_inv s1" "core s1 = core s" "dir_ok s1 i (dir_add n name D)" "free_set s1 \<subseteq> free_set s"
    "set (owned (blocks s1) i) \<subseteq> set (owned (blocks s) ?i) \<union> free_set s"
    "\<forall>b. b \<noteq> 0 \<longrightarrow> b \<notin> free_set s \<longrightarrow> b \<notin> set (owned (blocks s) ?i) \<longrightarrow> blocks s1 b = blocks s b"
    by (simp_all add: dir_changed_def)
  have "wf_inode ?i" by (simp add: inode_at_def)
  then have wf: "wf_inode (touched now i)"
    using a(2) s(5,6) by (intro touched_dir(3)) (simp_all add: dir_changed_def)
  have sb: "sb_ok s1" using core_sb_ok [OF c(2) s(2)] .
  obtain s' where w: "write_inode s1 p (touched now i) = Some (True, s')" "fl_inv s'" "sb_ok s'"
    "core s' = core s1" "free_set s' = free_set s1" "\<And>b. data_block b \<Longrightarrow> blocks s' b = blocks s1 b"
    "\<And>m. inum_ok m \<Longrightarrow> inode_at s' m = (if m = p then touched now i else inode_at s1 m)"
    using store_inode [OF c(1) sb s(3) wf] by metis
  have wf1: "wf_file s1 i" using c(3) by (simp add: dir_ok_def)
  have same: "blocks s' b = blocks s1 b" if "b \<in> set (owned (blocks s1) i)" for b
    using that wf1 w(6) by (auto simp: wf_file_def)
  have sub: "free_set s' \<subseteq> free_set s1" using w(5) by simp
  have F: "owned (blocks s') i = owned (blocks s1) i" by (rule file_frame(2) [OF wf1 sub same])
  have ip: "inode_at s' p = touched now i" using w(7) [OF s(3)] by simp
  have D: "dir_ok s' (inode_at s' p) (dir_add n name D)"
    unfolding ip touched_dir(1) by (rule dir_ok_cong [OF c(3) sub same])
  have "inode_at s1 k = inode_at s k" if "inum_ok k" for k
  proof -
    have "inode_block k \<noteq> 0" "\<not> data_block (inode_block k)" using inode_block_not_data [OF that] by auto
    moreover have "wf_file s ?i" using s(4) by (simp add: dir_ok_def)
    ultimately have "blocks s1 (inode_block k) = blocks s (inode_block k)"
      using c(6) fl_inv_data_block [OF s(1)] by (auto simp: wf_file_def)
    then show ?thesis by (simp add: inode_at_def)
  qed
  then have "\<forall>k. inum_ok k \<longrightarrow> k \<noteq> p \<longrightarrow> inode_at s' k = inode_at s k" using w(7) by simp
  moreover have "iname_cache s' = iname_cache s" using core_cache w(4) c(2) by metis
  moreover have "set (owned (blocks s') (inode_at s' p)) \<subseteq> set (owned (blocks s) ?i) \<union> free_set s"
    unfolding ip touched_dir(2) F by (rule c(5))
  moreover have "\<forall>b. data_block b \<longrightarrow> b \<notin> free_set s \<longrightarrow> b \<notin> set (owned (blocks s) ?i) \<longrightarrow> blocks s' b = blocks s b"
    using c(6) w(6) data_block_nonzero by auto
  moreover have "map_of (dir_names (dir_add n name D)) = (map_of (dir_names D))(name \<mapsto> n)"
    by (rule map_of_dir_add [OF n(3,4)])
  moreover have "free_set s' \<subseteq> free_set s" "card (free_set s) \<le> card (free_set s') + 3"
    using a(2) w(5) by (simp_all add: dir_changed_def)
  moreover have "core s' = core s" using w(4) c(2) by simp
  moreover have "file_size (inode_at s' p) \<le> file_size ?i + 4096"
    unfolding ip using a(2) by (simp add: dir_changed_def touched_def)
  ultimately show thesis using that [OF a(1) w(1-3)] D by blast
qed

text \<open>The inode number the next file gets, when its slot is free.\<close>

definition next_inode :: "'a bstate_scheme \<Rightarrow> int \<Rightarrow> bool" where
  "next_inode s n \<longleftrightarrow> (\<exists>sb. super_block s = Some sb \<and> latest_inum sb = n) \<and> inum_ok n \<and>
     \<not> allocated (inode_at s n) \<and> in_s64 (link_count (inode_at s n) + 1)"

text \<open>\<open>latest s n\<close>: the search for the next inode starts at \<open>n\<close>.\<close>

definition latest :: "'a bstate_scheme \<Rightarrow> int \<Rightarrow> bool" where
  "latest s n \<longleftrightarrow> (\<exists>sb. super_block s = Some sb \<and> latest_inum sb = n)"

lemma latest_super: "super_block t = super_block s \<Longrightarrow> latest t n = latest s n"
  by (simp add: latest_def)

lemma latest_core: "core t = core s \<Longrightarrow> latest t n = latest s n"
  using core_fields(8) [of t s] core_fields(8) [of s t] unfolding latest_def by fastforce

text \<open>No inode from \<open>latest\<close> on is taken, on the device or in the tree.\<close>

definition fresh :: "'a bstate_scheme \<Rightarrow> dir_tree \<Rightarrow> bool" where
  "fresh s N \<longleftrightarrow> (\<exists>n. latest s n \<and> (\<forall>k. inum_ok k \<longrightarrow> n \<le> k \<longrightarrow>
     \<not> allocated (inode_at s k) \<and> link_count (inode_at s k) = 0 \<and> k \<notin> nodes N))"

lemma fresh_next: "fresh s N \<Longrightarrow> latest s n \<Longrightarrow> inum_ok n \<Longrightarrow> next_inode s n \<and> n \<notin> nodes N"
  unfolding fresh_def latest_def next_inode_def by (auto simp: in_s64_def)

lemma fresh_kept:
  assumes "fresh s N" "\<And>n. latest t n = latest s n" "nodes M \<subseteq> nodes N"
    and "\<And>k. inum_ok k \<Longrightarrow> k \<notin> nodes N \<Longrightarrow> inode_at t k = inode_at s k"
  shows "fresh t M"
proof -
  obtain n where n: "latest s n" "\<forall>k. inum_ok k \<longrightarrow> n \<le> k \<longrightarrow>
     \<not> allocated (inode_at s k) \<and> link_count (inode_at s k) = 0 \<and> k \<notin> nodes N"
    using assms(1) unfolding fresh_def by blast
  have "\<not> allocated (inode_at t k) \<and> link_count (inode_at t k) = 0 \<and> k \<notin> nodes M" if "inum_ok k" "n \<le> k" for k
    using n(2) that assms(3,4) by auto
  then show ?thesis using n(1) assms(2) unfolding fresh_def by blast
qed

lemma fresh_enter:
  assumes "fresh s N" "latest s n" "latest t (n + 1)" "nodes M \<subseteq> insert n (nodes N)" "p \<in> nodes N"
    and "\<forall>k. inum_ok k \<longrightarrow> k \<noteq> p \<longrightarrow> k \<noteq> n \<longrightarrow> inode_at t k = inode_at s k"
  shows "fresh t M"
proof -
  have n: "\<forall>k. inum_ok k \<longrightarrow> n \<le> k \<longrightarrow>
     \<not> allocated (inode_at s k) \<and> link_count (inode_at s k) = 0 \<and> k \<notin> nodes N"
    using assms(1,2) by (auto simp: fresh_def latest_def)
  have "\<not> allocated (inode_at t k) \<and> link_count (inode_at t k) = 0 \<and> k \<notin> nodes M"
    if k: "inum_ok k" "n + 1 \<le> k" for k
  proof -
    have "k \<notin> nodes N" "k \<noteq> n" "k \<noteq> p" using n k assms(5) by auto
    then show ?thesis using n k assms(4,6) by auto
  qed
  then show ?thesis using assms(3) unfolding fresh_def by blast
qed

lemma take_inode:
  fixes s :: "'a fstate_scheme"
  assumes "fl_inv s" "sb_ok s" "next_inode s n"
  obtains t where "create_new_inode s = Some (n, t)" "fl_inv t" "sb_ok t" "free_set t = free_set s"
    "blocks t = blocks s" "iname_cache t = iname_cache s" "latest t (n + 1)"
proof -
  obtain sb where sb: "super_block s = Some sb" "latest_inum sb = n" using assms(3) by (auto simp: next_inode_def)
  let ?t = "s\<lparr>super_block := Some (sb\<lparr>latest_inum := n + 1\<rparr>)\<rparr>"
  have "healthy s" using assms(1) by (simp add: fl_inv_def)
  then have "create_new_inode s = Some (n, ?t)"
    using create_new_inode_fresh [of s sb] assms(2,3) sb by (simp add: next_inode_def)
  moreover have "sb_ok ?t" using assms(2) sb by (auto simp: sb_ok_def)
  ultimately show thesis using fl_inv_latest [OF assms(1) sb(1), of "n + 1"] by (intro that [of ?t]) (simp_all add: latest_def)
qed

lemma same_blocks:
  assumes "blocks t = blocks s" "free_set t = free_set s"
  shows "inode_at t = inode_at s" "wf_file t i = wf_file s i" "dir_ok t i D = dir_ok s i D"
  using assms by (simp_all add: inode_at_def [abs_def] wf_file_def dir_ok_def)

text \<open>A file that was not there: the path above it leads to a directory without the name.\<close>

definition absent_in :: "'a fstate_scheme \<Rightarrow> dir_tree \<Rightarrow> string \<Rightarrow> int \<Rightarrow> string \<Rightarrow> bool" where
  "absent_in s N path p name \<longleftrightarrow> path \<noteq> ''/'' \<and>
     (\<exists>q. get_parent_path path (int (length path)) = Some q \<and> resolve N q = p) \<and>
     get_child_name path (int (length path)) = Some name \<and> int (length name) \<le> 255 \<and>
     p \<in> nodes N \<and> S_ISDIR (mode (inode_at s p)) \<and> N p name = None"

text \<open>The inode of a new file.\<close>

definition newborn :: "int \<Rightarrow> 32 word \<Rightarrow> iNode \<Rightarrow> iNode" where
  "newborn now m i = i\<lparr>link_count := link_count i + 1, mode := m, num_blocks := 0, file_size := 0,
     access_time := now, modification_time := now, creation_time := now, status_change_time := now\<rparr>"

lemma both_lookups:
  fixes s :: "'a fstate_scheme"
  assumes "volume_ok s N" "absent_in s N path p name"
    and "lru_rep (iname_cache s) l" "cache_ok N l" "room_for (iname_cache s) l Q" "set (ancestors path) \<subseteq> Q" "finite Q"
  obtains q c1 c l' where "get_parent_path path (int (length path)) = Some q" "resolve N q = p"
    "get_inode_num_from_path s q = Some (p, s\<lparr>iname_cache := c1\<rparr>)"
    "get_inode_num_from_path (s\<lparr>iname_cache := c1\<rparr>) path = Some (-1, s\<lparr>iname_cache := c\<rparr>)"
    "lru_rep c l'" "cache_ok N l'" "room_for c l' Q"
proof -
  obtain q where q: "get_parent_path path (int (length path)) = Some q" "resolve N q = p"
    using assms(2) by (auto simp: absent_in_def)
  have a: "path \<noteq> ''/''" "get_child_name path (int (length path)) = Some name" "N p name = None" "p \<in> nodes N"
    using assms(2) by (simp_all add: absent_in_def)
  have v: "fl_inv s" "sb_ok s" "tree_ok s N" using assms(1) by (simp_all add: volume_ok_def)
  have gone: "resolve N path = -1" using resolve_step [OF a(1) q(1) a(2), of N] q(2) a(3) by simp
  have sub: "set (ancestors q) \<subseteq> set (ancestors path)"
    using ancestors_step [OF a(1)] q(1) by auto
  have sub': "set (ancestors q) \<subseteq> Q" using sub assms(6) by blast
  from lookup_resolves [OF v assms(3,4) room_for_mono [OF assms(5) sub' assms(7)]] q(2) obtain c1 l1 where
    1: "get_inode_num_from_path s q = Some (p, s\<lparr>iname_cache := c1\<rparr>)"
    "cache_after N (iname_cache s) l (set (ancestors q)) c1 l1" by auto
  have r1: "room_for c1 l1 Q" by (rule room_for_after [OF assms(5) 1(2) sub' assms(7)])
  let ?t = "s\<lparr>iname_cache := c1\<rparr>"
  have "fl_inv ?t" "sb_ok ?t" "tree_ok ?t N" "lru_rep (iname_cache ?t) l1" "cache_ok N l1"
    "room_for (iname_cache ?t) l1 (set (ancestors path))"
    using v 1(2) room_for_mono [OF r1 assms(6,7)] by (simp_all add: cache_after_def)
  from lookup_resolves [OF this] gone obtain c l' where
    2: "get_inode_num_from_path ?t path = Some (-1, s\<lparr>iname_cache := c\<rparr>)"
    "cache_after N c1 l1 (set (ancestors path)) c l'" by auto
  have "room_for c l' Q" by (rule room_for_after [OF r1 2(2) assms(6,7)])
  moreover have "lru_rep c l'" "cache_ok N l'" using 2(2) by (simp_all add: cache_after_def)
  ultimately show thesis using that [OF q 1(1) 2(1)] by blast
qed

text \<open>The directory \<open>p\<close> has the new name, the inode \<open>n\<close> is not yet written.\<close>

definition file_entered ::
  "'a fstate_scheme \<Rightarrow> dir_tree \<Rightarrow> int \<Rightarrow> string \<Rightarrow> int \<Rightarrow> 'a fstate_scheme \<Rightarrow> bool" where
  "file_entered s N p name n t \<longleftrightarrow>
     fl_inv t \<and> sb_ok t \<and> free_set t \<subseteq> free_set s \<and> card (free_set s) \<le> card (free_set t) + 3 \<and>
     (\<exists>D. dir_ok t (inode_at t p) D \<and> map_of (dir_names D) = (N p)(name \<mapsto> n)) \<and>
     set (owned (blocks t) (inode_at t p)) \<subseteq> set (owned (blocks s) (inode_at s p)) \<union> free_set s \<and>
     (\<forall>k. inum_ok k \<longrightarrow> k \<noteq> p \<longrightarrow> inode_at t k = inode_at s k) \<and>
     latest t (n + 1) \<and>
     file_size (inode_at t p) \<le> file_size (inode_at s p) + 4096 \<and>
     (\<forall>b. data_block b \<longrightarrow> b \<notin> free_set s \<longrightarrow> b \<notin> set (owned (blocks s) (inode_at s p)) \<longrightarrow>
        blocks t b = blocks s b)"

lemma create_new_file_room:
  fixes s :: "'a fstate_scheme"
  assumes v: "volume_ok s N" and a: "absent_in s N path p name" and n: "next_inode s n" "n \<notin> nodes N"
    and c: "lru_rep (iname_cache s) l" "cache_ok N l" "room_for (iname_cache s) l Q"
      "set (ancestors path) \<subseteq> Q" "finite Q"
    and r: "3 \<le> card (free_set s)" "in_s64 now" "in_s64 (file_size (inode_at s p) + 4096)"
  obtains s' l' where "create_new_file now s path m = Some (n, Some (newborn now m (inode_at s n)), s')"
    "file_entered s N p name n s'"
    "lru_rep (iname_cache s') l'" "cache_ok N l'" "room_for (iname_cache s') l' Q"
proof -
  obtain q c1 c2 l' where q: "get_parent_path path (int (length path)) = Some q" "resolve N q = p"
    "get_inode_num_from_path s q = Some (p, s\<lparr>iname_cache := c1\<rparr>)"
    "get_inode_num_from_path (s\<lparr>iname_cache := c1\<rparr>) path = Some (-1, s\<lparr>iname_cache := c2\<rparr>)"
    "lru_rep c2 l'" "cache_ok N l'" "room_for c2 l' Q"
    by (rule both_lookups [OF v a c])
  have pd: "p \<in> nodes N" "S_ISDIR (mode (inode_at s p))" "N p name = None" "int (length name) \<le> 255"
    "get_child_name path (int (length path)) = Some name"
    using a by (simp_all add: absent_in_def)
  have vv: "fl_inv s" "sb_ok s" "tree_ok s N" using v by (simp_all add: volume_ok_def)
  have p: "inum_ok p" "p \<noteq> -1" using vv(3) pd(1) node_positive [OF vv(3) pd(1)] by (auto simp: tree_ok_def)
  obtain D where D: "dir_ok s (inode_at s p) D" "N p = map_of (dir_names D)"
    using vv(3) pd(1,2) by (force simp: tree_ok_def)
  let ?s = "s\<lparr>iname_cache := c2\<rparr>"
  have s2: "fl_inv ?s" "sb_ok ?s" "next_inode ?s n" using vv n(1) by (simp_all add: next_inode_def)
  obtain t where t: "create_new_inode ?s = Some (n, t)" "fl_inv t" "sb_ok t" "free_set t = free_set s"
    "blocks t = blocks s" "iname_cache t = c2" "latest t (n + 1)"
    using take_inode [OF s2] by auto
  note T = same_blocks [OF t(5,4)]
  have n0: "inum_ok n" "in_s64 n" "n \<noteq> 0" "n \<noteq> -1" "n \<noteq> p"
    using n pd(1) by (auto simp: next_inode_def inum_ok_def in_s64_def geometry)
  have rd: "read_inode ?s p = Some (Some (inode_at s p))"
    using s2(1,2) p(1) read_inode_ok [of ?s p] by (simp add: fl_inv_def)
  have none: "map_of (dir_names D) name = None" using D(2) pd(3) by simp
  have Dt: "dir_ok t (inode_at t p) D" using D(1) T by simp
  have rt: "in_s64 (file_size (inode_at t p) + 4096)" "3 \<le> card (free_set t)" using r T t(4) by simp_all
  obtain i s1 s' D' where e: "add_new_entry t (inode_at t p) n name = Some (True, i, s1)"
    "write_inode s1 p (touched now i) = Some (True, s')"
    "fl_inv s'" "sb_ok s'" "iname_cache s' = iname_cache t" "free_set s' \<subseteq> free_set t"
    "card (free_set t) \<le> card (free_set s') + 3"
    "dir_ok s' (inode_at s' p) D'" "map_of (dir_names D') = (map_of (dir_names D))(name \<mapsto> n)"
    "set (owned (blocks s') (inode_at s' p)) \<subseteq> set (owned (blocks t) (inode_at t p)) \<union> free_set t"
    "\<forall>k. inum_ok k \<longrightarrow> k \<noteq> p \<longrightarrow> inode_at s' k = inode_at t k"
    "\<forall>b. data_block b \<longrightarrow> b \<notin> free_set t \<longrightarrow> b \<notin> set (owned (blocks t) (inode_at t p)) \<longrightarrow>
       blocks s' b = blocks t b"
    "core s' = core t" "file_size (inode_at s' p) \<le> file_size (inode_at t p) + 4096"
    by (rule enter_and_store [OF t(2,3) p(1) Dt r(2) rt pd(4) n0(2,3) none])
  have child: "read_inode s' n = Some (Some (inode_at s n))"
    using e(3,4,11) n0(1,5) read_inode_ok [of s' n] T(1) by (simp add: fl_inv_def)
  have "create_new_file now s path m = Some (n, Some (newborn now m (inode_at s n)), s')"
    unfolding create_new_file_def
    using q p(2) rd pd(2,5) t(1) e(1,2) child n0(4) T(1) by (simp add: newborn_def touched_def)
  moreover have "file_entered s N p name n s'"
    using e(3-12,14) t(4,5,7) T D(2) latest_core [OF e(13)] by (auto simp: file_entered_def)
  ultimately show thesis using that [of s' l'] e(5) t(6) q(5-7) by simp
qed

lemma create_new_file_ok:
  fixes s :: "'a fstate_scheme"
  assumes v: "volume_ok s N" and a: "absent_in s N path p name" and n: "next_inode s n" "n \<notin> nodes N"
    and c: "lru_rep (iname_cache s) l" "cache_ok N l" "room_for (iname_cache s) l (set (ancestors path))"
    and r: "3 \<le> card (free_set s)" "in_s64 now" "in_s64 (file_size (inode_at s p) + 4096)"
  obtains s' l' where "create_new_file now s path m = Some (n, Some (newborn now m (inode_at s n)), s')"
    "file_entered s N p name n s'"
    "lru_rep (iname_cache s') l'" "cache_ok N l'" "room_for (iname_cache s') l' (set (ancestors path))"
  by (rule create_new_file_room [OF v a n c subset_refl finite_set r]) (rule that)

text \<open>Writing the inode of the new file completes the tree.\<close>

lemma store_child:
  fixes s t :: "'a fstate_scheme"
  assumes v: "volume_ok s N" "p \<in> nodes N" "n \<notin> nodes N" "inum_ok n" "file_entered s N p name n t"
    and u: "fl_inv u" "core u = core t" "free_set u \<subseteq> free_set t"
      "\<forall>b. b \<noteq> 0 \<longrightarrow> b \<notin> free_set t \<longrightarrow> blocks u b = blocks t b"
    and c: "wf_inode i" "node_ok u i M" "ran M \<subseteq> {n}" "set (owned (blocks u) i) \<subseteq> free_set t"
  obtains s' where "write_inode u n i = Some (True, s')" "volume_ok s' (enter N p name n M)"
    "inode_at s' n = i" "iname_cache s' = iname_cache t"
    "\<forall>k. inum_ok k \<longrightarrow> k \<noteq> p \<longrightarrow> k \<noteq> n \<longrightarrow> inode_at s' k = inode_at s k" "latest s' (n + 1)"
proof -
  have t: "fl_inv t" "sb_ok t" "free_set t \<subseteq> free_set s"
    "set (owned (blocks t) (inode_at t p)) \<subseteq> set (owned (blocks s) (inode_at s p)) \<union> free_set s"
    "\<forall>k. inum_ok k \<longrightarrow> k \<noteq> p \<longrightarrow> inode_at t k = inode_at s k"
    "\<forall>b. data_block b \<longrightarrow> b \<notin> free_set s \<longrightarrow> b \<notin> set (owned (blocks s) (inode_at s p)) \<longrightarrow>
       blocks t b = blocks s b"
    using v(5) by (simp_all add: file_entered_def)
  obtain D where D: "dir_ok t (inode_at t p) D" "map_of (dir_names D) = (N p)(name \<mapsto> n)"
    using v(5) by (auto simp: file_entered_def)
  have ok: "inum_ok k" if "k \<in> nodes N" for k using volume_node [OF v(1) that] by blast
  have np: "n \<noteq> p" using v(2,3) by blast
  obtain s' where w: "write_inode u n i = Some (True, s')" "fl_inv s'" "sb_ok s'" "core s' = core u"
    "free_set s' = free_set u" "\<And>b. data_block b \<Longrightarrow> blocks s' b = blocks u b"
    "\<And>k. inum_ok k \<Longrightarrow> inode_at s' k = (if k = n then i else inode_at u k)"
    using store_inode [OF u(1) core_sb_ok [OF u(2) t(2)] v(4) c(1)] by metis
  have inode: "inode_at u k = inode_at t k" if "inum_ok k" for k
  proof -
    have "inode_block k \<noteq> 0" "\<not> data_block (inode_block k)" using inode_block_not_data [OF that] by auto
    then have "blocks u (inode_block k) = blocks t (inode_block k)"
      using u(4) fl_inv_data_block [OF t(1)] by blast
    then show ?thesis by (simp add: inode_at_def)
  qed
  have ip: "inode_at s' p = inode_at t p" using w(7) [OF ok [OF v(2)]] inode [OF ok [OF v(2)]] np by simp
  have ic: "inode_at s' n = i" using w(7) [OF v(4)] by simp
  have wft: "wf_file t (inode_at t p)" using D(1) by (simp add: dir_ok_def)
  have p: "free_set s' \<subseteq> free_set t" "\<And>b. b \<in> set (owned (blocks t) (inode_at t p)) \<Longrightarrow> blocks s' b = blocks t b"
    using w(5,6) u(3,4) wft data_block_nonzero by (auto simp: wf_file_def)
  have own: "owned (blocks s') (inode_at s' p) = owned (blocks t) (inode_at t p)"
    unfolding ip by (rule file_frame(2) [OF wft p])
  have Dp: "dir_ok s' (inode_at s' p) D" unfolding ip by (rule dir_ok_cong [OF D(1) p])
  have child: "node_ok s' i M" "owned (blocks s') i = owned (blocks u) i"
  proof -
    have sub: "free_set s' \<subseteq> free_set u" using w(5) by simp
    have same: "blocks s' b = blocks u b" if "b \<in> set (owned (blocks u) i)" for b
      using that c(2) w(6) by (auto simp: node_ok_def wf_file_def)
    show "node_ok s' i M" "owned (blocks s') i = owned (blocks u) i"
      by (rule node_frame [OF c(2) sub same], assumption)+
  qed
  have "volume_ok s' (enter N p name n M)"
  proof (rule volume_enter [OF v(1-4) w(2,3) _ _ _ Dp D(2)])
    show "free_set s' \<subseteq> free_set s" using p(1) t(3) by blast
    show "blocks s' b = blocks s b"
      if "data_block b" "b \<notin> free_set s" "b \<notin> set (owned (blocks s) (inode_at s p))" for b
    proof -
      have "b \<noteq> 0" "b \<notin> free_set t" using that data_block_nonzero t(3) by blast+
      then show ?thesis using that w(6) u(4) t(6) by simp
    qed
    show "inode_at s' k = inode_at s k" if "inum_ok k" "k \<noteq> p" "k \<noteq> n" for k
      using that w(7) inode t(5) by simp
    show "set (owned (blocks s') (inode_at s' p)) \<subseteq> set (owned (blocks s) (inode_at s p)) \<union> free_set s"
      unfolding own by (rule t(4))
    show "node_ok s' (inode_at s' n) M" "ran M \<subseteq> {n}" unfolding ic by (fact child(1), fact c(3))
    show "set (owned (blocks s') (inode_at s' n)) \<subseteq> free_set s" unfolding ic child(2) using c(4) t(3) by blast
    show "set (owned (blocks s') (inode_at s' n)) \<inter> set (owned (blocks s') (inode_at s' p)) = {}"
      unfolding own ic child(2) using c(4) wft by (auto simp: wf_file_def)
  qed
  moreover have "iname_cache s' = iname_cache t" using core_cache w(4) u(2) by metis
  moreover have "\<forall>k. inum_ok k \<longrightarrow> k \<noteq> p \<longrightarrow> k \<noteq> n \<longrightarrow> inode_at s' k = inode_at s k"
    using w(7) inode t(5) by auto
  moreover have "latest s' (n + 1)"
    using v(5) latest_core [OF w(4)] latest_core [OF u(2)] by (simp add: file_entered_def)
  ultimately show thesis using w(1) ic that by blast
qed

lemma newborn_wf:
  "in_s64 now \<Longrightarrow> in_s64 (link_count i + 1) \<Longrightarrow> wf_inode i \<Longrightarrow> wf_inode (newborn now m i)"
  by (simp add: newborn_def wf_inode_def in_s64_def)

lemma newborn_empty:
  "num_blocks (newborn now m i) = 0" "mode (newborn now m i) = m" "file_size (newborn now m i) = 0"
  by (simp_all add: newborn_def)

lemma custom_mknod_ok:
  fixes s :: "'a fstate_scheme"
  assumes v: "volume_ok s N" and a: "absent_in s N path p name" and n: "next_inode s n" "n \<notin> nodes N"
    and c: "lru_rep (iname_cache s) l" "cache_ok N l" "room_for (iname_cache s) l (set (ancestors path))"
    and r: "3 \<le> card (free_set s)" "in_s64 now" "in_s64 (file_size (inode_at s p) + 4096)"
  obtains s' l' where "custom_mknod now s path m dev = Some (True, s')"
    "volume_ok s' (enter N p name n Map.empty)" "inode_at s' n = newborn now m (inode_at s n)"
    "lru_rep (iname_cache s') l'" "cache_ok (enter N p name n Map.empty) l'"
    "room_for (iname_cache s') l' (set (ancestors path))"
    "\<forall>k. inum_ok k \<longrightarrow> k \<noteq> p \<longrightarrow> k \<noteq> n \<longrightarrow> inode_at s' k = inode_at s k" "latest s' (n + 1)"
proof -
  let ?c = "newborn now m (inode_at s n)"
  obtain t l' where t: "create_new_file now s path m = Some (n, Some ?c, t)" "file_entered s N p name n t"
    "lru_rep (iname_cache t) l'" "cache_ok N l'" "room_for (iname_cache t) l' (set (ancestors path))"
    by (rule create_new_file_ok [OF v a n c r])
  have pd: "p \<in> nodes N" "N p name = None" using a by (simp_all add: absent_in_def)
  have n0: "inum_ok n" "0 < n" using n by (auto simp: next_inode_def inum_ok_def)
  have wf: "wf_inode ?c" using n(1) r(2) by (intro newborn_wf) (simp_all add: next_inode_def inode_at_def)
  then have z: "length (direct_blocks ?c) = 10" by (simp add: wf_inode_def)
  note E = empty_node [OF newborn_empty(1) z, of t]
  have "fl_inv t" using t(2) by (simp add: file_entered_def)
  from store_child [OF v pd(1) n(2) n0(1) t(2) this refl _ _ wf E(1)] E(2) obtain s' where
    s': "write_inode t n ?c = Some (True, s')" "volume_ok s' (enter N p name n Map.empty)"
    "inode_at s' n = ?c" "iname_cache s' = iname_cache t"
    "\<forall>k. inum_ok k \<longrightarrow> k \<noteq> p \<longrightarrow> k \<noteq> n \<longrightarrow> inode_at s' k = inode_at s k" "latest s' (n + 1)" by auto
  have "custom_mknod now s path m dev = Some (True, s')"
    using t(1) s'(1) n0(2) by (simp add: custom_mknod_def)
  then show thesis
    using s'(2-6) t(3-5) by (intro that [OF _ _ _ _ cache_ok_enter [OF t(4) pd(2) n(2)]]) simp_all
qed

section \<open>Making a directory\<close>

text \<open>The two entries of an empty directory; both get the number \<open>n\<close>.\<close>

definition dots :: "int \<Rightarrow> dir_rec list list" where
  "dots n = [[(n, ''.'', 19), (n, ''..'', 4077)]]"

lemma dots_names: "n \<noteq> 0 \<Longrightarrow> map_of (dir_names (dots n)) = [''.'' \<mapsto> n, ''..'' \<mapsto> n]"
  by (simp add: dots_def dir_names_def fun_eq_iff)

lemma dots_added: "dir_add n ''.'' [] = [[(n, ''.'', 4096)]]" "dir_add n ''..'' [[(n, ''.'', 4096)]] = dots n"
  by (simp_all add: dir_add_def dots_def)

lemma add_dots:
  assumes "fl_inv t" "S_ISDIR (mode c)" "num_blocks c = 0" "wf_inode c" "0 \<le> file_size c" "file_size c < 4096"
    and "in_s64 n" "3 \<le> card (free_set t)"
  obtains i1 t1 i2 t2 where "add_new_entry t c n ''.'' = Some (True, i1, t1)"
    "add_new_entry t1 i1 n ''..'' = Some (True, i2, t2)"
    "fl_inv t2" "core t2 = core t" "free_set t2 \<subseteq> free_set t" "wf_inode i2" "mode i2 = mode c"
    "dir_ok t2 i2 (dots n)" "set (owned (blocks t2) i2) \<subseteq> free_set t"
    "\<forall>b. b \<noteq> 0 \<longrightarrow> b \<notin> free_set t \<longrightarrow> blocks t2 b = blocks t b"
    "card (free_set t) \<le> card (free_set t2) + 6" "file_size i2 \<le> file_size c + 8192"
proof -
  have z: "length (direct_blocks c) = 10" using assms(4) by (simp add: wf_inode_def)
  have own: "owned (blocks t) c = []" using empty_node(2) [OF assms(3) z] .
  have d: "dir_ok t c []" using assms(2,3) z own by (simp add: dir_ok_def wf_file_def dir_names_def)
  have new: "map_of (dir_names []) ''.'' = None" "map_of (dir_names [[(n, ''.'', 4096)]]) ''..'' = None"
    by (simp_all add: dir_names_def)
  have len: "int (length ''.'') \<le> 255" "int (length ''..'') \<le> 255" by simp_all
  obtain i1 t1 where 1: "add_new_entry t c n ''.'' = Some (True, i1, t1)"
    "dir_changed t c [[(n, ''.'', 4096)]] i1 t1"
    using add_new_entry_ok [OF assms(1) d len(1) assms(7) new(1)] assms(8) by (auto simp: entry_refused_def dots_added)
  then have c1: "fl_inv t1" "dir_ok t1 i1 [[(n, ''.'', 4096)]]" by (simp_all add: dir_changed_def)
  have "length (dir_add n ''..'' [[(n, ''.'', 4096)]]) \<noteq> Suc (length [[(n, ''.'', 4096 :: int)]])"
    by (simp add: dots_added) (simp add: dots_def)
  then obtain i2 t2 where 2: "add_new_entry t1 i1 n ''..'' = Some (True, i2, t2)"
    "dir_changed t1 i1 (dots n) i2 t2"
    using add_new_entry_ok [OF c1 len(2) assms(7) new(2)] unfolding dots_added by blast
  have "in_s64 (file_size c + 4096)" "in_s64 (file_size i1 + 4096)"
    using assms(5,6) 1(2) by (simp_all add: dir_changed_def in_s64_def)
  then have "wf_inode i2" using 1(2) 2(2) assms(4) by (simp add: dir_changed_def)
  moreover have "set (owned (blocks t2) i2) \<subseteq> free_set t" using 1(2) 2(2) own by (auto simp: dir_changed_def)
  moreover have "blocks t2 b = blocks t b" if "b \<noteq> 0" "b \<notin> free_set t" for b
  proof -
    have "b \<notin> free_set t1" "b \<notin> set (owned (blocks t1) i1)" "blocks t1 b = blocks t b"
      using that 1(2) own by (auto simp: dir_changed_def)
    then show ?thesis using 2(2) that(1) by (simp add: dir_changed_def)
  qed
  ultimately show thesis
    by (intro that [OF 1(1) 2(1)]) (use 1(2) 2(2) in \<open>auto simp: dir_changed_def\<close>)
qed

lemma mkdir_mode: "m AND S_IFMT = 0 \<Longrightarrow> S_ISDIR (S_IFDIR OR m)"
proof -
  assume "m AND S_IFMT = 0"
  then have "(S_IFDIR OR m) AND S_IFMT = S_IFDIR AND S_IFMT"
    by (simp add: bit.conj_disj_distrib2)
  then show ?thesis by (simp add: S_ISDIR_def S_IFDIR_def S_IFMT_def)
qed

lemma custom_mkdir_ok:
  fixes s :: "'a fstate_scheme"
  assumes v: "volume_ok s N" and a: "absent_in s N path p name" and n: "next_inode s n" "n \<notin> nodes N"
    and c: "lru_rep (iname_cache s) l" "cache_ok N l" "room_for (iname_cache s) l (set (ancestors path))"
    and r: "6 \<le> card (free_set s)" "in_s64 now" "in_s64 (file_size (inode_at s p) + 4096)" "m AND S_IFMT = 0"
  defines "N' \<equiv> enter N p name n [''.'' \<mapsto> n, ''..'' \<mapsto> n]"
  obtains s' l' where "custom_mkdir now s path m = Some (True, s')"
    "volume_ok s' N'" "mode (inode_at s' n) = S_IFDIR OR m"
    "lru_rep (iname_cache s') l'" "cache_ok N' l'" "room_for (iname_cache s') l' (set (ancestors path))"
    "\<forall>k. inum_ok k \<longrightarrow> k \<noteq> p \<longrightarrow> k \<noteq> n \<longrightarrow> inode_at s' k = inode_at s k" "latest s' (n + 1)"
proof -
  let ?c = "newborn now (S_IFDIR OR m) (inode_at s n)"
  have r': "3 \<le> card (free_set s)" using r(1) by simp
  obtain t l' where t: "create_new_file now s path (S_IFDIR OR m) = Some (n, Some ?c, t)"
    "file_entered s N p name n t"
    "lru_rep (iname_cache t) l'" "cache_ok N l'" "room_for (iname_cache t) l' (set (ancestors path))"
    by (rule create_new_file_ok [OF v a n c r' r(2,3)])
  have pd: "p \<in> nodes N" "N p name = None" using a by (simp_all add: absent_in_def)
  have n0: "inum_ok n" "0 < n" "n \<noteq> 0" "in_s64 n"
    using n by (auto simp: next_inode_def inum_ok_def in_s64_def geometry)
  have wf: "wf_inode ?c" using n(1) r(2) by (intro newborn_wf) (simp_all add: next_inode_def inode_at_def)
  have ft: "fl_inv t" "3 \<le> card (free_set t)" using t(2) r(1) by (simp_all add: file_entered_def)
  have dir: "S_ISDIR (mode ?c)" "num_blocks ?c = 0" "0 \<le> file_size ?c" "file_size ?c < 4096"
    using mkdir_mode [OF r(4)] by (simp_all add: newborn_empty)
  obtain i1 t1 i2 t2 where d: "add_new_entry t ?c n ''.'' = Some (True, i1, t1)"
    "add_new_entry t1 i1 n ''..'' = Some (True, i2, t2)"
    "fl_inv t2" "core t2 = core t" "free_set t2 \<subseteq> free_set t" "wf_inode i2" "mode i2 = mode ?c"
    "dir_ok t2 i2 (dots n)" "set (owned (blocks t2) i2) \<subseteq> free_set t"
    "\<forall>b. b \<noteq> 0 \<longrightarrow> b \<notin> free_set t \<longrightarrow> blocks t2 b = blocks t b"
    by (rule add_dots [OF ft(1) dir(1,2) wf dir(3,4) n0(4) ft(2)])
  have node: "node_ok t2 i2 [''.'' \<mapsto> n, ''..'' \<mapsto> n]"
    using d(7,8) dir(1) dots_names [OF n0(3)] unfolding node_ok_def dir_ok_def by metis
  have ran: "ran [''.'' \<mapsto> n, ''..'' \<mapsto> n] \<subseteq> {n}" by simp
  obtain s' where s': "write_inode t2 n i2 = Some (True, s')" "volume_ok s' N'"
    "inode_at s' n = i2" "iname_cache s' = iname_cache t"
    "\<forall>k. inum_ok k \<longrightarrow> k \<noteq> p \<longrightarrow> k \<noteq> n \<longrightarrow> inode_at s' k = inode_at s k" "latest s' (n + 1)"
    unfolding N'_def
    by (rule store_child [OF v pd(1) n(2) n0(1) t(2) d(3-5,10,6) node ran d(9)])
  have "custom_mkdir now s path m = Some (True, s')"
    using t(1) d(1,2) s'(1) n0(2) by (simp add: custom_mkdir_def)
  then show thesis
    using s'(2-6) t(3-5) d(7) cache_ok_enter [OF t(4) pd(2) n(2)]
    by (intro that [of s' l']) (simp_all add: newborn_empty N'_def)
qed

end
