(* ===== verification/RootDir.thy ===== *)
theory RootDir
  imports VolumeSpec MakeFs
begin

text \<open>
  Starting the file layer (\<open>init_file_layer\<close> of \<open>lib/file_layer.c\<close>): on a working device it
  leaves a volume whose tree is the root directory with its two entries, and an empty cache.
\<close>

section \<open>The first tree\<close>

definition root_tree :: dir_tree where
  "root_tree = (\<lambda>_. Map.empty)(ROOT_INODE := [''.'' \<mapsto> ROOT_INODE, ''..'' \<mapsto> ROOT_INODE])"

lemma root_nodes: "nodes root_tree = {ROOT_INODE}"
  by (auto simp: nodes_def root_tree_def split: if_splits)

lemma root_inode_ok: "inum_ok ROOT_INODE" "inum_ok 3" "ROOT_INODE \<noteq> 3" "in_s64 ROOT_INODE" "ROOT_INODE \<noteq> 0"
  by (simp_all add: ROOT_INODE_def inum_ok_def in_s64_def geometry)

lemma all_data_blocks: "card {n. data_block n} = 235929"
proof -
  have "{n. data_block n} = {26215..<262144}" by (auto simp: data_block_def geometry)
  then show ?thesis by simp
qed

lemma default_mode: "S_ISDIR (S_IFDIR OR DEFAULT_PERMS)"
  by (simp add: S_ISDIR_def S_IFDIR_def S_IFMT_def DEFAULT_PERMS_def)

text \<open>The root's inode before its entries are added.\<close>

definition new_root :: "int \<Rightarrow> iNode \<Rightarrow> iNode" where
  "new_root now root = root\<lparr>allocated := True, link_count := link_count root + 1,
     mode := S_IFDIR OR DEFAULT_PERMS, num_blocks := 0, file_size := 0, access_time := now,
     creation_time := now, modification_time := now, status_change_time := now\<rparr>"

lemma new_root_ok:
  assumes "wf_inode junk" "in_s64 now"
  defines "r \<equiv> new_root now (blank_inode junk)"
  shows "wf_inode r" "S_ISDIR (mode r)" "num_blocks r = 0" "0 \<le> file_size r" "file_size r < 4096"
proof -
  show "wf_inode r"
    using assms(1,2) by (simp add: r_def new_root_def blank_inode_def wf_inode_def in_s64_def list_all_iff)
  show "S_ISDIR (mode r)" "num_blocks r = 0" "0 \<le> file_size r" "file_size r < 4096"
    using default_mode by (simp_all add: r_def new_root_def)
qed

lemma fresh_root:
  assumes "next_inode s 3" "\<And>k. inum_ok k \<Longrightarrow> k \<noteq> ROOT_INODE \<Longrightarrow> \<not> allocated (inode_at s k) \<and> link_count (inode_at s k) = 0"
  shows "fresh s root_tree"
proof -
  have "latest s 3" using assms(1) by (simp add: next_inode_def latest_def)
  then show ?thesis using assms(2) unfolding fresh_def by (force simp: root_nodes ROOT_INODE_def)
qed

lemma blank_inode_free: "\<not> allocated (blank_inode i)" "link_count (blank_inode i) = 0"
  by (simp_all add: blank_inode_def)

lemma init_file_layer_full:
  fixes s :: "'a fstate_scheme"
  assumes "device_works s" "wf_inode junk" "in_s64 now" "\<forall>a \<ge> brk (iname_cache s). heap (iname_cache s) a = None"
  obtains s' where "init_file_layer now junk s = Some (True, s')" "volume_ok s' root_tree"
    "lru_rep (iname_cache s') []" "csize (iname_cache s') = 0" "capacity (iname_cache s') = CACHE_SIZE"
    "next_inode s' 3" "235923 \<le> card (free_set s')" "file_size (inode_at s' ROOT_INODE) \<le> 8192"
    "fresh s' root_tree"
proof -
  obtain bs where m: "make_fs junk s = Some (True, built s bs)" "fl_inv (built s bs)"
    "free_set (built s bs) = {n. data_block n}" "sb_ok (built s bs)"
    "\<And>n. inum_ok n \<Longrightarrow> inode_at (built s bs) n = blank_inode junk"
    using make_fs_ok [OF assms(1,2)] by metis
  define t where "t = built s bs"
  note m = m [folded t_def]
  define c where "c = new_root now (blank_inode junk)"
  note c = new_root_ok [OF assms(2,3), folded c_def]
  have h: "healthy t" using m(2) by (simp add: fl_inv_def)
  have rd: "read_inode t ROOT_INODE = Some (Some (blank_inode junk))"
    using read_inode_ok [OF h m(4) root_inode_ok(1)] m(5) [OF root_inode_ok(1)] by simp
  have free: "3 \<le> card (free_set t)" using m(3) all_data_blocks by simp
  obtain i1 t1 i2 t2 where d: "add_new_entry t c ROOT_INODE ''.'' = Some (True, i1, t1)"
    "add_new_entry t1 i1 ROOT_INODE ''..'' = Some (True, i2, t2)"
    "fl_inv t2" "core t2 = core t" "free_set t2 \<subseteq> free_set t" "wf_inode i2" "mode i2 = mode c"
    "dir_ok t2 i2 (dots ROOT_INODE)" "set (owned (blocks t2) i2) \<subseteq> free_set t"
    "\<forall>b. b \<noteq> 0 \<longrightarrow> b \<notin> free_set t \<longrightarrow> blocks t2 b = blocks t b"
    "card (free_set t) \<le> card (free_set t2) + 6" "file_size i2 \<le> file_size c + 8192"
    by (rule add_dots [OF m(2) c(2,3,1,4,5) root_inode_ok(4) free])
  obtain u where w: "write_inode t2 ROOT_INODE i2 = Some (True, u)" "fl_inv u" "sb_ok u" "core u = core t2"
    "free_set u = free_set t2" "\<And>b. data_block b \<Longrightarrow> blocks u b = blocks t2 b"
    "\<And>k. inum_ok k \<Longrightarrow> inode_at u k = (if k = ROOT_INODE then i2 else inode_at t2 k)"
    using store_inode [OF d(3) core_sb_ok [OF d(4) m(4)] root_inode_ok(1) d(6)] by metis
  let ?s = "u\<lparr>iname_cache := create_cache (iname_cache u) CACHE_SIZE\<rparr>"
  have ir: "inode_at u ROOT_INODE = i2" using w(7) [OF root_inode_ok(1)] by simp
  have wf2: "wf_file t2 i2" using d(8) by (simp add: dir_ok_def)
  have dir: "dir_ok u i2 (dots ROOT_INODE)"
    by (rule dir_ok_cong [OF d(8)]) (use w(5,6) wf2 in \<open>auto simp: wf_file_def\<close>)
  have node: "node_ok u i2 (root_tree ROOT_INODE)"
    using dir dots_names [OF root_inode_ok(5)] d(7) c(2)
    unfolding node_ok_def root_tree_def dir_ok_def by auto
  have vol: "volume_ok ?s root_tree"
  proof (rule volume_okI)
    show "fl_inv ?s" "sb_ok ?s" using w(2,3) by simp_all
    show "inum_ok n \<and> node_ok ?s (inode_at ?s n) (root_tree n)" if "n \<in> nodes root_tree" for n
      using that node ir root_inode_ok(1) by (simp add: root_nodes node_ok_def)
  qed (simp add: root_nodes)
  have others: "inode_at ?s k = blank_inode junk" if "inum_ok k" "k \<noteq> ROOT_INODE" for k
  proof -
    have "inode_block k \<noteq> 0" "\<not> data_block (inode_block k)" using inode_block_not_data [OF that(1)] by auto
    then have "blocks t2 (inode_block k) = blocks t (inode_block k)"
      using d(10) fl_inv_data_block [OF m(2)] by blast
    then have "inode_at t2 k = inode_at t k" by (simp add: inode_at_def)
    then show ?thesis using w(7) [OF that(1)] m(5) [OF that(1)] that(2) by simp
  qed
  have three: "inode_at ?s 3 = blank_inode junk" by (rule others [OF root_inode_ok(2)]) (use root_inode_ok(3) in simp)
  have ct: "core u = core t" using w(4) d(4) by simp
  have sbt: "super_block t = Some new_superblock" by (simp add: t_def built_def)
  obtain h where "super_block u = Some (new_superblock\<lparr>free_list_head := h\<rparr>)"
    using core_fields(8) [OF ct sbt] by blast
  then have next3: "next_inode ?s 3"
    unfolding next_inode_def three
    using root_inode_ok(2) by (simp add: new_superblock_def blank_inode_def in_s64_def)
  have "iname_cache u = iname_cache t" by (rule core_cache [OF ct])
  then have cu: "iname_cache u = iname_cache s" by (simp add: t_def built_def)
  have rep: "lru_rep (iname_cache ?s) []"
    using rep_create [of CACHE_SIZE "iname_cache s"] assms(4) cu by (simp add: CACHE_SIZE_def)
  have run: "init_file_layer now junk s = Some (True, ?s)"
    unfolding init_file_layer_def
    using m(1) rd d(1,2) w(1) by (simp add: c_def new_root_def)
  have free': "235923 \<le> card (free_set ?s)" using d(11) w(5) m(3) all_data_blocks by simp
  have size: "file_size (inode_at ?s ROOT_INODE) \<le> 8192"
    using ir d(12) by (simp add: c_def new_root_def)
  have fresh: "fresh ?s root_tree" by (rule fresh_root [OF next3]) (simp only: others blank_inode_free simp_thms)
  show thesis
    by (rule that [OF run vol rep _ _ next3 free' size fresh]) (simp_all add: create_cache_def)
qed

lemma init_file_layer_ok:
  fixes s :: "'a fstate_scheme"
  assumes "device_works s" "wf_inode junk" "in_s64 now" "\<forall>a \<ge> brk (iname_cache s). heap (iname_cache s) a = None"
  obtains s' where "init_file_layer now junk s = Some (True, s')" "volume_ok s' root_tree"
    "lru_rep (iname_cache s') []" "csize (iname_cache s') = 0" "capacity (iname_cache s') = CACHE_SIZE"
    "next_inode s' 3" "235923 \<le> card (free_set s')" "file_size (inode_at s' ROOT_INODE) \<le> 8192"
  by (rule init_file_layer_full [OF assms]) (rule that)

section \<open>Finding what was created\<close>

lemma lookup_after_enter:
  fixes s' :: "'a fstate_scheme"
  assumes "absent_in s N path p name" "n \<notin> nodes N" "volume_ok s' (enter N p name n M)"
    and "lru_rep (iname_cache s') l" "cache_ok (enter N p name n M) l"
    and "room_for (iname_cache s') l (set (ancestors path))" "volume_ok s N"
  obtains s'' where "get_inode_num_from_path s' path = Some (n, s'')"
proof -
  obtain q where q: "get_parent_path path (int (length path)) = Some q" "resolve N q = p"
    using assms(1) by (auto simp: absent_in_def)
  have a: "path \<noteq> ''/''" "get_child_name path (int (length path)) = Some name" "N p name = None" "p \<in> nodes N"
    using assms(1) by (simp_all add: absent_in_def)
  have "inum_ok p" using volume_node [OF assms(7) a(4)] by blast
  then have "p \<noteq> -1" by (auto simp: inum_ok_def)
  then have r: "resolve (enter N p name n M) path = n"
    using resolve_entered [OF a(3) assms(2) a(1) _ q(1) a(2) q(2)] by blast
  have "fl_inv s'" "sb_ok s'" "tree_ok s' (enter N p name n M)"
    using assms(3) by (simp_all add: volume_ok_def)
  from lookup_resolves [OF this assms(4-6)] r that show thesis by auto
qed

text \<open>A started volume, for closed examples.\<close>

lemma started_fresh:
  obtains s :: fstate where "volume_ok s root_tree" "lru_rep (iname_cache s) []"
    "csize (iname_cache s) = 0" "capacity (iname_cache s) = CACHE_SIZE" "next_inode s 3"
    "235923 \<le> card (free_set s)" "file_size (inode_at s ROOT_INODE) \<le> 8192"
    "init_file_layer 0 (blank_inode (inode_at sample_volume 4)) (file_state empty_cache) = Some (True, s)"
    "fresh s root_tree"
proof -
  let ?j = "blank_inode (inode_at sample_volume 4)" and ?s = "file_state empty_cache"
  have d: "device_works ?s" using file_state_facts(1) by (simp add: fl_inv_def healthy_def)
  have j: "wf_inode ?j" by (rule blank_inode_wf) (simp add: inode_at_def)
  have h: "\<forall>a \<ge> brk (iname_cache ?s). heap (iname_cache ?s) a = None"
    unfolding file_state_facts(6) by (simp add: empty_cache_def create_cache_def)
  have time: "in_s64 0" by (simp add: in_s64_def)
  obtain s :: fstate where s: "init_file_layer 0 ?j ?s = Some (True, s)" "volume_ok s root_tree"
    "lru_rep (iname_cache s) []" "csize (iname_cache s) = 0" "capacity (iname_cache s) = CACHE_SIZE"
    "next_inode s 3" "235923 \<le> card (free_set s)" "file_size (inode_at s ROOT_INODE) \<le> 8192"
    "fresh s root_tree"
    by (rule init_file_layer_full [OF d j time h])
  show thesis by (rule that [OF s(2-8,1,9)])
qed

lemma started:
  obtains s :: fstate where "volume_ok s root_tree" "lru_rep (iname_cache s) []"
    "csize (iname_cache s) = 0" "capacity (iname_cache s) = CACHE_SIZE" "next_inode s 3"
    "235923 \<le> card (free_set s)" "file_size (inode_at s ROOT_INODE) \<le> 8192"
    "init_file_layer 0 (blank_inode (inode_at sample_volume 4)) (file_state empty_cache) = Some (True, s)"
  by (rule started_fresh) (rule that)

lemma one_step_path:
  assumes "name \<noteq> []" "CHR ''/'' \<notin> set name"
  shows "get_parent_path (''/'' @ name) (int (length (''/'' @ name))) = Some ''/''"
    "get_child_name (''/'' @ name) (int (length (''/'' @ name))) = Some name"
    "ancestors (''/'' @ name) = [''/'' @ name]"
proof -
  show p: "get_parent_path (''/'' @ name) (int (length (''/'' @ name))) = Some ''/''"
    "get_child_name (''/'' @ name) (int (length (''/'' @ name))) = Some name"
    using parent_path_split [OF assms, of "[]" "[]"] child_name_split [OF assms, of "[]" "[]"] by simp_all
  have "''/'' @ name \<noteq> ''/''" using assms(1) by simp
  from ancestors_step [OF this] p(1) show "ancestors (''/'' @ name) = [''/'' @ name]"
    by (simp add: ancestors_root del: length_append)
qed

lemma room_for_one: "csize c = 0 \<Longrightarrow> capacity c = CACHE_SIZE \<Longrightarrow> room_for c [] {p}"
  by (simp add: room_for_def CACHE_SIZE_def)

lemma absent_in_root:
  assumes "name \<noteq> []" "CHR ''/'' \<notin> set name" "name \<noteq> ''.''" "name \<noteq> ''..''" "int (length name) \<le> 255"
    and "volume_ok s root_tree"
  shows "absent_in s root_tree (''/'' @ name) ROOT_INODE name"
proof -
  have r: "ROOT_INODE \<in> nodes root_tree" by (simp add: root_nodes)
  then have "node_ok s (inode_at s ROOT_INODE) (root_tree ROOT_INODE)"
    using volume_node [OF assms(6)] by blast
  then have "S_ISDIR (mode (inode_at s ROOT_INODE))"
    by (auto simp: node_ok_def root_tree_def split: if_splits dest: fun_cong [of _ _ "''.''"])
  then show ?thesis
    unfolding absent_in_def one_step_path(1,2) [OF assms(1,2)]
    using assms r resolve_root by (simp add: root_tree_def)
qed

section \<open>Properties\<close>

text \<open>
  C6: started on a working device, the file layer holds a sound volume whose tree is the root
  directory with \<open>.\<close> and \<open>..\<close>, both the root itself, an empty cache, and the first free inode
  number 3 next in line.
\<close>

theorem init_file_layer_builds_the_root:
  fixes s :: "'a fstate_scheme"
  assumes "device_works s" "wf_inode junk" "in_s64 now"
    and "\<forall>a \<ge> brk (iname_cache s). heap (iname_cache s) a = None"
  shows "\<exists>s'. init_file_layer now junk s = Some (True, s') \<and> volume_ok s' root_tree \<and>
    lru_rep (iname_cache s') [] \<and> next_inode s' 3 \<and> 235923 \<le> card (free_set s')"
  by (rule init_file_layer_ok [OF assms]) blast

theorem init_file_layer_builds_the_root_witness:
  "\<exists>s'. init_file_layer 7 (blank_inode (inode_at sample_volume 4)) (file_state empty_cache) = Some (True, s') \<and>
    volume_ok s' root_tree"
proof -
  have "device_works (file_state empty_cache)"
    using file_state_facts(1) by (simp add: fl_inv_def healthy_def)
  moreover have "wf_inode (blank_inode (inode_at sample_volume 4))"
    by (rule blank_inode_wf) (simp add: inode_at_def)
  moreover have "\<forall>a \<ge> brk (iname_cache (file_state empty_cache)). heap (iname_cache (file_state empty_cache)) a = None"
    unfolding file_state_facts(6) by (simp add: empty_cache_def create_cache_def)
  ultimately show ?thesis
    using init_file_layer_builds_the_root [of "file_state empty_cache" "blank_inode (inode_at sample_volume 4)" 7]
    by (auto simp: in_s64_def)
qed

text \<open>
  C7: looking up a path with the cache gives what walking the directories without it gives,
  whatever paths the cache holds, as long as they agree with the tree and it has room for the
  paths on the way; and the cache still agrees with the tree.
\<close>

theorem path_lookup_computes_resolve:
  fixes s :: "'a fstate_scheme"
  assumes "volume_ok s N" "lru_rep (iname_cache s) l" "cache_ok N l"
    and "room_for (iname_cache s) l (set (ancestors path))"
  shows "\<exists>c l'. get_inode_num_from_path s path = Some (resolve N path, s\<lparr>iname_cache := c\<rparr>) \<and>
    lru_rep c l' \<and> cache_ok N l'"
proof -
  have "fl_inv s" "sb_ok s" "tree_ok s N" using assms(1) by (simp_all add: volume_ok_def)
  from lookup_resolves [OF this assms(2-4)] show ?thesis by (auto simp: cache_after_def)
qed

theorem path_lookup_computes_resolve_witness:
  "\<exists>(s :: fstate) s'. get_inode_num_from_path s ''/..'' = Some (2, s')"
proof -
  obtain s :: fstate where s: "volume_ok s root_tree" "lru_rep (iname_cache s) []"
    "csize (iname_cache s) = 0" "capacity (iname_cache s) = CACHE_SIZE" by (rule started)
  have p: "get_parent_path ''/..'' (int (length ''/..'')) = Some ''/''"
    "get_child_name ''/..'' (int (length ''/..'')) = Some ''..''" "ancestors ''/..'' = [''/..'']"
    using one_step_path [of "''..''"] by simp_all
  have "room_for (iname_cache s) [] (set (ancestors ''/..''))"
    unfolding p(3) using room_for_one [OF s(3,4)] by simp
  moreover have "resolve root_tree ''/..'' = 2"
    using resolve_step [OF _ p(1,2), of root_tree] by (simp add: resolve_root root_tree_def ROOT_INODE_def)
  ultimately show ?thesis
    using path_lookup_computes_resolve [OF s(1,2), of "''/..''"] by (auto simp: cache_ok_def)
qed

text \<open>
  C4: on a sound volume, creating a file under a name its directory does not have succeeds
  while three blocks are free; the volume stays sound, the path then leads to the new inode,
  which is an empty file of the mode asked for, and no inode changed but the directory's.
\<close>

theorem mknod_makes_the_path_lead_to_the_file:
  fixes s :: "'a fstate_scheme"
  assumes "volume_ok s N" "absent_in s N path p name" "next_inode s n" "n \<notin> nodes N"
    and "lru_rep (iname_cache s) l" "cache_ok N l" "room_for (iname_cache s) l (set (ancestors path))"
    and "3 \<le> card (free_set s)" "in_s64 now" "in_s64 (file_size (inode_at s p) + 4096)"
  shows "\<exists>s' s''. custom_mknod now s path m dev = Some (True, s') \<and>
    volume_ok s' (enter N p name n Map.empty) \<and> get_inode_num_from_path s' path = Some (n, s'') \<and>
    mode (inode_at s' n) = m \<and> file_size (inode_at s' n) = 0 \<and>
    (\<forall>k \<in> nodes N. k \<noteq> p \<longrightarrow> inode_at s' k = inode_at s k)"
proof -
  obtain s' l' where s': "custom_mknod now s path m dev = Some (True, s')"
    "volume_ok s' (enter N p name n Map.empty)" "inode_at s' n = newborn now m (inode_at s n)"
    "lru_rep (iname_cache s') l'" "cache_ok (enter N p name n Map.empty) l'"
    "room_for (iname_cache s') l' (set (ancestors path))"
    "\<forall>k. inum_ok k \<longrightarrow> k \<noteq> p \<longrightarrow> k \<noteq> n \<longrightarrow> inode_at s' k = inode_at s k"
    by (rule custom_mknod_ok [OF assms]) blast
  obtain s'' where "get_inode_num_from_path s' path = Some (n, s'')"
    by (rule lookup_after_enter [OF assms(2,4) s'(2,4-6) assms(1)])
  moreover have "\<forall>k \<in> nodes N. k \<noteq> p \<longrightarrow> inode_at s' k = inode_at s k"
    using s'(7) volume_node [OF assms(1)] assms(4) by metis
  ultimately show ?thesis using s'(1-3) by (simp add: newborn_empty)
qed

theorem mknod_makes_the_path_lead_to_the_file_witness:
  "\<exists>(s :: fstate) s' s''. custom_mknod 7 s ''/f'' 0x81A4 0 = Some (True, s') \<and>
    get_inode_num_from_path s' ''/f'' = Some (3, s'') \<and> mode (inode_at s' 3) = 0x81A4"
proof -
  obtain s :: fstate where s: "volume_ok s root_tree" "lru_rep (iname_cache s) []"
    "csize (iname_cache s) = 0" "capacity (iname_cache s) = CACHE_SIZE" "next_inode s 3"
    "235923 \<le> card (free_set s)" "file_size (inode_at s ROOT_INODE) \<le> 8192" by (rule started)
  have a: "absent_in s root_tree ''/f'' ROOT_INODE ''f''" using absent_in_root [of "''f''"] s(1) by simp
  have r: "room_for (iname_cache s) [] (set (ancestors ''/f''))"
    using one_step_path(3) [of "''f''"] room_for_one [OF s(3,4)] by simp
  have "wf_inode (inode_at s ROOT_INODE)" by (simp add: inode_at_def)
  then have "in_s64 (file_size (inode_at s ROOT_INODE) + 4096)" using s(7) by (simp add: wf_inode_def in_s64_def)
  with mknod_makes_the_path_lead_to_the_file [OF s(1) a s(5) _ s(2) _ r, of 7 "0x81A4" 0] s(6)
  show ?thesis by (auto simp: root_nodes ROOT_INODE_def cache_ok_def in_s64_def)
qed

text \<open>
  C16: making a directory succeeds while six blocks are free and keeps the volume sound; the
  path leads to the new directory. But its entry \<open>..\<close> names the new directory itself, not
  its parent.
\<close>

theorem mkdir_makes_a_directory_whose_parent_entry_is_itself:
  fixes s :: "'a fstate_scheme"
  assumes "volume_ok s N" "absent_in s N path p name" "next_inode s n" "n \<notin> nodes N"
    and "lru_rep (iname_cache s) l" "cache_ok N l" "room_for (iname_cache s) l (set (ancestors path))"
    and "6 \<le> card (free_set s)" "in_s64 now" "in_s64 (file_size (inode_at s p) + 4096)" "m AND S_IFMT = 0"
  shows "\<exists>s' s'' fp. custom_mkdir now s path m = Some (True, s') \<and>
    volume_ok s' (enter N p name n [''.'' \<mapsto> n, ''..'' \<mapsto> n]) \<and>
    get_inode_num_from_path s' path = Some (n, s'') \<and> S_ISDIR (mode (inode_at s' n)) \<and>
    find_file s' ''..'' (inode_at s' n) = Some fp \<and> found_inum fp = Some n \<and> n \<noteq> p"
proof -
  let ?N = "enter N p name n [''.'' \<mapsto> n, ''..'' \<mapsto> n]"
  obtain s' l' where s': "custom_mkdir now s path m = Some (True, s')"
    "volume_ok s' ?N" "mode (inode_at s' n) = S_IFDIR OR m"
    "lru_rep (iname_cache s') l'" "cache_ok ?N l'" "room_for (iname_cache s') l' (set (ancestors path))"
    by (rule custom_mkdir_ok [OF assms]) blast
  obtain s'' where look: "get_inode_num_from_path s' path = Some (n, s'')"
    by (rule lookup_after_enter [OF assms(2,4) s'(2,4-6) assms(1)])
  have pn: "p \<in> nodes N" "n \<noteq> p" using assms(2,4) by (auto simp: absent_in_def)
  have "?N p name = Some n" by (simp add: enter_def)
  then have nn: "n \<in> nodes ?N" unfolding nodes_def by blast
  have v: "fl_inv s'" "tree_ok s' ?N" using s'(2) by (simp_all add: volume_ok_def)
  obtain fp where "find_file s' ''..'' (inode_at s' n) = Some fp" "found_inum fp = ?N n ''..''"
    by (rule find_in_node [OF v nn])
  moreover have "?N n ''..'' = Some n" using pn(2) by (simp add: enter_def)
  ultimately show ?thesis using s' look pn(2) mkdir_mode [OF assms(11)] by auto
qed

theorem mkdir_makes_a_directory_whose_parent_entry_is_itself_witness:
  "\<exists>(s :: fstate) s' s'' fp. custom_mkdir 7 s ''/d'' 493 = Some (True, s') \<and>
    get_inode_num_from_path s' ''/d'' = Some (3, s'') \<and>
    find_file s' ''..'' (inode_at s' 3) = Some fp \<and> found_inum fp = Some 3"
proof -
  obtain s :: fstate where s: "volume_ok s root_tree" "lru_rep (iname_cache s) []"
    "csize (iname_cache s) = 0" "capacity (iname_cache s) = CACHE_SIZE" "next_inode s 3"
    "235923 \<le> card (free_set s)" "file_size (inode_at s ROOT_INODE) \<le> 8192" by (rule started)
  have a: "absent_in s root_tree ''/d'' ROOT_INODE ''d''" using absent_in_root [of "''d''"] s(1) by simp
  have r: "room_for (iname_cache s) [] (set (ancestors ''/d''))"
    using one_step_path(3) [of "''d''"] room_for_one [OF s(3,4)] by simp
  have "wf_inode (inode_at s ROOT_INODE)" by (simp add: inode_at_def)
  then have "in_s64 (file_size (inode_at s ROOT_INODE) + 4096)" using s(7) by (simp add: wf_inode_def in_s64_def)
  with mkdir_makes_a_directory_whose_parent_entry_is_itself [OF s(1) a s(5) _ s(2) _ r, of 7 493] s(6)
  show ?thesis by (auto simp: root_nodes ROOT_INODE_def cache_ok_def in_s64_def S_IFMT_def)
qed

end
