(* ===== verification/Removal.thy ===== *)
theory Removal
  imports DirectorySpec
begin

text \<open>
  Taking a record out of a directory (\<open>remove_record\<close>, the middle part of \<open>custom_unlink\<close> in
  \<open>lib/file_layer.c\<close>). On the records of a block it is \<open>dir_drop\<close>: the record before the hit
  swallows it, or the record behind a first hit takes its place. A block whose only record is
  hit leaves the directory, and the last block takes its place.
\<close>

section \<open>Taking a record out of a block\<close>

fun dir_drop :: "string \<Rightarrow> dir_rec list \<Rightarrow> dir_rec list" where
  "dir_drop name [] = []"
| "dir_drop name [(n, nm, d)] = (if n \<noteq> 0 \<and> nm = name then [] else [(n, nm, d)])"
| "dir_drop name ((n, nm, d) # (m, nm', e) # rs) =
     (if n \<noteq> 0 \<and> nm = name then (m, nm', e + d) # rs
      else if m \<noteq> 0 \<and> nm' = name then (n, nm, d + e) # rs
      else (n, nm, d) # dir_drop name ((m, nm', e) # rs))"

lemma without_Cons: "without k ((x, v) # l) = (if x = k then without k l else (x, v) # without k l)"
  by (simp add: without_def)

lemma without_append: "without k (xs @ ys) = without k xs @ without k ys"
  by (simp add: without_def)

lemma without_absent': "k \<notin> set (map fst l) \<Longrightarrow> without k l = l"
  by (induction l) (auto simp: without_def)

lemma live_dir_drop: "distinct (map fst (live rs)) \<Longrightarrow> live (dir_drop name rs) = without name (live rs)"
proof (induction name rs rule: dir_drop.induct)
  case (3 name n nm d m nm' e rs)
  show ?case
  proof (cases "n \<noteq> 0 \<and> nm = name")
    case True
    then have "name \<notin> set (map fst (live ((m, nm', e) # rs)))" using "3.prems" by auto
    then have "without name (live ((m, nm', e) # rs)) = live ((m, nm', e) # rs)" by (rule without_absent')
    with True show ?thesis by (auto simp: without_Cons)
  next
    case F: False
    show ?thesis
    proof (cases "m \<noteq> 0 \<and> nm' = name")
      case True
      then have "name \<notin> set (map fst (live rs))" using "3.prems" by (auto split: if_splits)
      then have "without name (live rs) = live rs" by (rule without_absent')
      with True F show ?thesis by (auto simp: without_Cons without_append without_def)
    next
      case False
      have "distinct (map fst (live ((m, nm', e) # rs)))" using "3.prems" by (auto split: if_splits)
      then have "live (dir_drop name ((m, nm', e) # rs)) = without name (live ((m, nm', e) # rs))"
        using "3.IH" [OF F False] by blast
      with F False show ?thesis
        by (simp add: without_append) (auto simp: without_def)
    qed
  qed
qed (auto simp: without_def)

text \<open>Where the hit is not the first record, the record before it swallows it.\<close>

lemma dir_find_ge: "dir_recs b p rs \<Longrightarrow> dir_find name p prev rs = Found q r \<Longrightarrow> p \<le> q"
proof (induction rs arbitrary: p prev)
  case Nil
  then show ?case by simp
next
  case (Cons x xs)
  obtain n nm d where x: "x = (n, nm, d)" by (cases x)
  with Cons.prems(1) have "0 \<le> d" "dir_recs b (p + d) xs" by auto
  with Cons.IH [of "p + d" p] Cons.prems(2) x show ?case by (auto split: if_splits)
qed

text \<open>The distance of the first record of a block.\<close>

lemma stretch_record:
  assumes "dir_recs b p ((n, nm, d) # rs)" "0 \<le> p" "dir_recs b (p + e) us" "d \<le> e"
  shows "dir_recs (st_s64 b (p + 8) e) p ((n, nm, e) # us)"
proof -
  let ?b = "st_s64 b (p + 8) e"
  have R: "ld_s64 b p = n" "ld_u16 b (p + 16) = int (length nm)"
    "\<forall>k < length nm. b (p + 18 + int k) = of_char (nm ! k)" "18 + int (length nm) \<le> d" using assms(1) by auto
  have "p + e \<le> 4096" using assms(3) by (rule dir_recs_end)
  then have "in_s64 e" using R(4) assms(2,4) by (auto simp: in_s64_def)
  then have "ld_s64 ?b (p + 8) = e" by (rule ld_st_s64_same)
  moreover have "ld_s64 ?b p = n" "ld_u16 ?b (p + 16) = int (length nm)"
  proof -
    have "ld_s64 ?b p = ld_s64 b p" by (rule ld_st_s64_other) simp
    then show "ld_s64 ?b p = n" using R(1) by simp
    have "ld_u16 ?b (p + 16) = ld_u16 b (p + 16)" by (rule ld_u16_cong) (simp add: st_s64_apply_other)
    then show "ld_u16 ?b (p + 16) = int (length nm)" using R(2) by simp
  qed
  moreover have "\<forall>k < length nm. ?b (p + 18 + int k) = of_char (nm ! k)"
    using R(3) by (simp add: st_s64_apply_other)
  moreover have "dir_recs ?b (p + e) us"
    by (rule dir_recs_frame [OF assms(3)]) (use R(4) assms(4) in \<open>simp add: st_s64_apply_other\<close>)
  ultimately show ?thesis using R(4) assms(4) by simp
qed

lemma drop_behind:
  assumes "dir_recs b p rs" "0 \<le> p" "dir_find name p prev rs = Found q r" "q \<noteq> p"
  shows "p \<le> r \<and> r + 16 \<le> 4096 \<and> q + 16 \<le> 4096 \<and> 0 \<le> q \<and>
    dir_recs (st_s64 b (r + 8) (ld_s64 b (r + 8) + ld_s64 b (q + 8))) p (dir_drop name rs)"
  using assms
proof (induction rs arbitrary: p prev)
  case Nil
  then show ?case by simp
next
  case (Cons x xs)
  obtain n nm d where x: "x = (n, nm, d)" by (cases x)
  with Cons.prems have R: "ld_s64 b p = n" "ld_s64 b (p + 8) = d" "18 + int (length nm) \<le> d" "dir_recs b (p + d) xs"
    "\<not> (n \<noteq> 0 \<and> nm = name)" "dir_find name (p + d) p xs = Found q r"
    by (auto split: if_splits)
  then obtain y ys where xs: "xs = y # ys" by (cases xs) auto
  obtain m nm' e where y: "y = (m, nm', e)" by (cases y)
  have Y: "ld_s64 b (p + d + 8) = e" "18 + int (length nm') \<le> e" "dir_recs b (p + d + e) ys"
    using R(4) xs y by auto
  have e4: "p + d + e \<le> 4096" using Y(3) by (rule dir_recs_end)
  show ?case
  proof (cases "m \<noteq> 0 \<and> nm' = name")
    case True
    then have q: "q = p + d" "r = p" using R(6) xs y by auto
    have "dir_recs (st_s64 b (p + 8) (d + e)) p ((n, nm, d + e) # ys)"
      using Cons.prems(1) x Y Cons.prems(2) by (intro stretch_record [where d = d and rs = xs]) (auto simp: add.assoc)
    moreover have "dir_drop name (x # xs) = (n, nm, d + e) # ys" using True R(5) x xs y by auto
    ultimately show ?thesis using q e4 R(2,3) Y(1,2) Cons.prems(2) by simp
  next
    case False
    then have "dir_find name (p + d + e) (p + d) ys = Found q r" using R(6) xs y by auto
    from dir_find_ge [OF Y(3) this] have "q \<noteq> p + d" using Y(2) by linarith
    let ?b = "st_s64 b (r + 8) (ld_s64 b (r + 8) + ld_s64 b (q + 8))"
    have I: "p + d \<le> r" "r + 16 \<le> 4096" "q + 16 \<le> 4096" "0 \<le> q" "dir_recs ?b (p + d) (dir_drop name xs)"
      using Cons.IH [OF R(4) _ R(6) \<open>q \<noteq> p + d\<close>] Cons.prems(2) R(3) by auto
    have "dir_recs ?b p (x # dir_drop name xs)"
    proof -
      have same: "?b i = b i" if "i < p + d" for i using I(1) that by (simp add: st_s64_apply_other)
      have "ld_s64 ?b p = ld_s64 b p" "ld_s64 ?b (p + 8) = ld_s64 b (p + 8)" "ld_u16 ?b (p + 16) = ld_u16 b (p + 16)"
        using R(3) same by (auto intro!: ld_s64_cong ld_u16_cong)
      then show ?thesis using Cons.prems(1) x I(5) R(3) same by auto
    qed
    moreover have "dir_drop name (x # xs) = x # dir_drop name xs" using False R(5) x xs y by auto
    ultimately show ?thesis using I Cons.prems(2) R(3) by simp
  qed
qed

text \<open>Where it is, its successor is copied over it.\<close>

lemma le_load_shift: "(\<And>k. k < n \<Longrightarrow> c (p + int k) = b (q + int k)) \<Longrightarrow> le_load c p n = le_load b q n"
proof (induction n arbitrary: p q)
  case 0
  then show ?case by simp
next
  case (Suc n)
  have "c (p + 1 + int k) = b (q + 1 + int k)" if "k < n" for k
    using Suc.prems [of "Suc k"] that by (simp add: add.assoc)
  then have "le_load c (p + 1) n = le_load b (q + 1) n" by (rule Suc.IH)
  then show ?case using Suc.prems [of 0] by simp
qed

lemma move_first:
  assumes "dir_recs b 0 ((n, nm, d) # (m, nm', e) # rs)" "18 + int (length nm') \<le> d"
  shows "\<exists>c. memcpy_within b 0 d (18 + int (length nm')) = Some c \<and> rd_s64 c 8 = Some e \<and>
    dir_recs (st_s64 c 8 (e + d)) 0 ((m, nm', e + d) # rs)"
proof -
  let ?l = "18 + int (length nm')"
  have R: "ld_s64 b d = m" "ld_s64 b (d + 8) = e" "ld_u16 b (d + 16) = int (length nm')"
    "\<forall>k < length nm'. b (d + 18 + int k) = of_char (nm' ! k)" "?l \<le> e" "dir_recs b (d + e) rs"
    using assms(1) by auto
  have e4: "d + e \<le> 4096" using R(6) by (rule dir_recs_end)
  define c where "c = memcpy b 0 b d ?l"
  have at: "c i = (if 0 \<le> i \<and> i < ?l then b (d + i) else b i)" for i by (simp add: c_def memcpy_def)
  have C: "ld_s64 c 0 = m" "ld_s64 c 8 = e" "ld_u16 c 16 = int (length nm')"
  proof -
    have "le_load c 0 8 = le_load b d 8" "le_load c 8 8 = le_load b (d + 8) 8" "le_load c 16 2 = le_load b (d + 16) 2"
      by (rule le_load_shift; simp add: at algebra_simps)+
    then show "ld_s64 c 0 = m" "ld_s64 c 8 = e" "ld_u16 c 16 = int (length nm')"
      using R(1-3) by (simp_all add: ld_s64_def ld_u16_def)
  qed
  have name: "\<forall>k < length nm'. c (18 + int k) = of_char (nm' ! k)"
    using R(4) by (simp add: at algebra_simps)
  let ?e = "st_s64 c 8 (e + d)"
  have "in_s64 (e + d)" using e4 R(5) assms(2) by (auto simp: in_s64_def)
  then have "ld_s64 ?e 8 = e + d" by (rule ld_st_s64_same)
  moreover have "ld_s64 ?e 0 = ld_s64 c 0" by (rule ld_st_s64_other) simp
  moreover have "ld_u16 ?e 16 = ld_u16 c 16" by (rule ld_u16_cong) (simp add: st_s64_apply_other)
  moreover have "\<forall>k < length nm'. ?e (18 + int k) = of_char (nm' ! k)" using name by (simp add: st_s64_apply_other)
  moreover have "dir_recs ?e (e + d) rs"
    unfolding add.commute [of e d]
    by (rule dir_recs_frame [OF R(6)]) (use R(5) assms(2) in \<open>simp add: st_s64_apply_other at\<close>)
  ultimately have "dir_recs ?e 0 ((m, nm', e + d) # rs)" using C R(5) assms(2) by simp
  moreover have "memcpy_within b 0 d ?l = Some c"
    using assms(2) R(5) e4 by (simp add: memcpy_within_def in_block_def geometry c_def)
  moreover have "rd_s64 c 8 = Some e" using C(2) by (simp add: rd_s64_def in_block_def geometry)
  ultimately show ?thesis by blast
qed

lemma dir_find_first:
  assumes "dir_recs b 0 rs" "dir_find name 0 (-1) rs = Found q r"
  shows "r = -1 \<longleftrightarrow> q = 0"
proof (cases rs)
  case Nil
  then show ?thesis using assms by simp
next
  case (Cons x xs)
  obtain n nm d where x: "x = (n, nm, d)" by (cases x)
  show ?thesis
  proof (cases "q = 0")
    case True
    have "\<not> (0 + d \<le> 0)" "dir_recs b (0 + d) xs" using assms(1) Cons x by auto
    then have "\<not> dir_find name (0 + d) 0 xs = Found q r" using True dir_find_ge by blast
    then show ?thesis using assms(2) Cons x True by (auto split: if_splits)
  next
    case False
    then show ?thesis using drop_behind [OF assms(1) _ assms(2)] by auto
  qed
qed

section \<open>Taking an entry out of a directory\<close>

lemma names_of_others:
  assumes "distinct (map fst (dir_names D))" "k < length D" "map_of (live (D ! k)) name \<noteq> None"
  shows "without name (dir_names (take k D)) = dir_names (take k D)"
    "without name (dir_names (drop (Suc k) D)) = dir_names (drop (Suc k) D)"
    "distinct (map fst (live (D ! k)))"
proof -
  have "D = take k D @ D ! k # drop (Suc k) D" using assms(2) by (rule id_take_nth_drop)
  then have n: "dir_names D = dir_names (take k D) @ live (D ! k) @ dir_names (drop (Suc k) D)"
    by (metis concat.simps(2) concat_append dir_names_def list.map(2) map_append)
  have "name \<in> set (map fst (live (D ! k)))" using assms(3) by (auto simp: map_of_eq_None_iff)
  with assms(1) n have "name \<notin> set (map fst (dir_names (take k D)))"
    "name \<notin> set (map fst (dir_names (drop (Suc k) D)))" "distinct (map fst (live (D ! k)))" by auto
  then show "without name (dir_names (take k D)) = dir_names (take k D)"
    "without name (dir_names (drop (Suc k) D)) = dir_names (drop (Suc k) D)"
    "distinct (map fst (live (D ! k)))" by (auto intro: without_absent')
qed

lemma dir_names_three: "dir_names (xs @ r # ys) = dir_names xs @ live r @ dir_names ys"
  by (simp add: dir_names_def)

lemma dir_names_drop:
  assumes "distinct (map fst (dir_names D))" "k < length D" "map_of (live (D ! k)) name \<noteq> None"
  shows "dir_names (D[k := dir_drop name (D ! k)]) = without name (dir_names D)"
proof -
  note N = names_of_others [OF assms]
  have "D[k := dir_drop name (D ! k)] = take k D @ dir_drop name (D ! k) # drop (Suc k) D"
    using assms(2) by (rule upd_conv_take_nth_drop)
  moreover have "D = take k D @ D ! k # drop (Suc k) D" using assms(2) by (rule id_take_nth_drop)
  ultimately show ?thesis
    using N live_dir_drop [OF N(3), of name] by (metis dir_names_three without_append)
qed

lemma distinct_without: "distinct (map fst l) \<Longrightarrow> distinct (map fst (without k l))"
  by (simp add: without_def distinct_map_filter)

lemma map_of_without_upd: "map_of (without k l) = (map_of l)(k := None)"
  by (induction l) (auto simp: without_def)

text \<open>A block with one record, which is hit, gives its place to the last block.\<close>

lemma mset_fill_hole:
  assumes "k < length xs"
  shows "mset (butlast (xs[k := last xs]) @ [xs ! k]) = mset xs"
proof (cases "k = length xs - 1")
  case True
  have "xs \<noteq> []" using assms by auto
  then have "xs[k := last xs] = xs" "last xs = xs ! k" using True by (simp_all add: last_conv_nth)
  then show ?thesis using \<open>xs \<noteq> []\<close> by (metis append_butlast_last_id)
next
  case False
  obtain ys x where xs: "xs = ys @ [x]" using assms by (cases xs rule: rev_cases) auto
  with assms False have "k < length ys" by simp
  then show ?thesis using xs by (simp add: list_update_append nth_append mset_update)
qed

lemma mset_dir_names: "mset (dir_names D) = sum_mset (image_mset (\<lambda>r. mset (live r)) (mset D))"
  by (induction D) (simp_all add: dir_names_def)

lemma dir_names_block_removed:
  assumes "distinct (map fst (dir_names D))" "k < length D" "D ! k = [(n, name, d)]" "n \<noteq> 0"
  defines "E \<equiv> butlast (D[k := last D])"
  shows "distinct (map fst (dir_names E))" "map_of (dir_names E) = (map_of (dir_names D))(name := None)"
proof -
  have hit: "map_of (live (D ! k)) name \<noteq> None" using assms(3,4) by simp
  have "mset (E @ [D ! k]) = mset D" unfolding E_def by (rule mset_fill_hole [OF assms(2)])
  then have "mset D = add_mset (D ! k) (mset E)" by simp
  then have "mset (dir_names D) = mset (live (D ! k)) + mset (dir_names E)" by (simp add: mset_dir_names)
  then have "add_mset (name, n) (mset (dir_names E)) = mset (dir_names D)" using assms(3,4) by simp
  then have e: "mset ((name, n) # dir_names E) = mset (dir_names D)" by simp
  then have "mset (map fst ((name, n) # dir_names E)) = mset (map fst (dir_names D))" by (metis mset_map)
  then have u: "distinct (map fst ((name, n) # dir_names E))"
    using assms(1) mset_eq_imp_distinct_iff by blast
  then show "distinct (map fst (dir_names E))" by simp
  have "map_of (dir_names D) = map_of ((name, n) # dir_names E)"
    using map_of_inject_set [OF assms(1) u] mset_eq_setD [OF e] by blast
  moreover have "map_of (dir_names E) name = None" using u by (simp add: map_of_eq_None_iff)
  ultimately show "map_of (dir_names E) = (map_of (dir_names D))(name := None)" by auto
qed

text \<open>
  When the code can take the entry out: its block is not released, or the directory has only
  direct blocks and the volume is not full; and a record that moves to the front of a block
  fits into the room of the first one.
\<close>

fun drop_defined :: "int \<Rightarrow> string \<Rightarrow> dir_rec list \<Rightarrow> bool" where
  "drop_defined blks name [] \<longleftrightarrow> True"
| "drop_defined blks name [(n, nm, d)] \<longleftrightarrow> n \<noteq> 0 \<and> nm = name \<longrightarrow> blks \<le> 10"
| "drop_defined blks name ((n, nm, d) # (m, nm', e) # rs) \<longleftrightarrow>
     n \<noteq> 0 \<and> nm = name \<longrightarrow> 18 + int (length nm') \<le> d"

definition removable :: "iNode \<Rightarrow> dir_rec list list \<Rightarrow> string \<Rightarrow> bool" where
  "removable i D name \<longleftrightarrow> (\<forall>rs \<in> set D. drop_defined (num_blocks i) name rs)"

text \<open>The directory of inode \<open>i\<close> lost entries, and perhaps a block.\<close>

definition dir_reduced ::
  "'a bstate_scheme \<Rightarrow> iNode \<Rightarrow> (string \<rightharpoonup> int) \<Rightarrow> iNode \<Rightarrow> 'a bstate_scheme \<Rightarrow> bool" where
  "dir_reduced s i M i' s' \<longleftrightarrow>
     fl_inv s' \<and> core s' = core s \<and> (\<exists>D. dir_ok s' i' D \<and> map_of (dir_names D) = M) \<and>
     free_set s \<subseteq> free_set s' \<and> free_set s' \<subseteq> free_set s \<union> set (owned (blocks s) i) \<and>
     mode i' = mode i \<and> (wf_inode i \<longrightarrow> wf_inode i') \<and>
     set (owned (blocks s') i') \<subseteq> set (owned (blocks s) i) \<and>
     (\<forall>b. b \<noteq> 0 \<longrightarrow> b \<notin> free_set s \<longrightarrow> b \<notin> set (owned (blocks s) i) \<longrightarrow> blocks s' b = blocks s b)"

lemma rewritten_reduced:
  assumes "fl_inv s" "dir_ok s i D" "k < length D" "map_of (live (D ! k)) name \<noteq> None"
    and "dir_recs b 0 (dir_drop name (D ! k))"
  defines "y \<equiv> fblk (blocks s) i (int k)"
  defines "s' \<equiv> s\<lparr>blocks := (blocks s)(y := b)\<rparr>"
  shows "snd (write_dblock s y b) = s'" "dir_reduced s i ((map_of (dir_names D))(name := None)) i s'"
proof -
  have u: "distinct (map fst (dir_names D))" using assms(2) by (simp add: dir_ok_def)
  note N = dir_names_drop [OF u assms(3,4)]
  have "distinct (map fst (dir_names (D[k := dir_drop name (D ! k)])))"
    unfolding N by (rule distinct_without [OF u])
  note L = dir_ok_update [OF assms(1-3,5) this, folded y_def, folded s'_def]
  show "snd (write_dblock s y b) = s'" using L(1) by simp
  have "map_of (dir_names (D[k := dir_drop name (D ! k)])) = (map_of (dir_names D))(name := None)"
    unfolding N by (rule map_of_without_upd)
  then show "dir_reduced s i ((map_of (dir_names D))(name := None)) i s'"
    using L unfolding dir_reduced_def by (auto simp: s'_def)
qed

text \<open>Releasing a block of a directory.\<close>

definition without_block :: "iNode \<Rightarrow> nat \<Rightarrow> iNode" where
  "without_block i k = i\<lparr>direct_blocks := (direct_blocks i)[k := direct_blocks i ! nat (num_blocks i - 1)],
     num_blocks := num_blocks i - 1\<rparr>"

lemma without_block_map:
  assumes "wf_file s i" "num_blocks i \<le> 10" "k < nat (num_blocks i)" "0 \<le> l" "l < num_blocks i - 1"
  shows "fblk bs (without_block i k) l = fblk bs i (if l = int k then num_blocks i - 1 else l)"
proof -
  have "length (direct_blocks i) = 10" using assms(1) by (simp add: wf_file_def)
  then show ?thesis using assms(2-5) by (auto simp: fblk_def without_block_def nth_list_update)
qed

lemma owned_direct:
  assumes "length (direct_blocks i) = 10" "num_blocks i \<le> 10"
  shows "owned bs i = take (nat (num_blocks i)) (direct_blocks i)"
proof (rule nth_equalityI)
  show "length (owned bs i) = length (take (nat (num_blocks i)) (direct_blocks i))"
    using assms by (simp add: owned_def list_blocks_def)
  fix l assume "l < length (owned bs i)"
  then have l: "0 \<le> int l" "int l < num_blocks i" using assms(2) by (simp_all add: owned_def list_blocks_def)
  then show "owned bs i ! l = take (nat (num_blocks i)) (direct_blocks i) ! l"
    using nth_data_of [OF l, of bs] assms by (simp add: owned_def list_blocks_def fblk_def)
qed

lemma without_block_owned:
  assumes "wf_file s i" "num_blocks i \<le> 10" "k < nat (num_blocks i)"
  shows "set (owned bs (without_block i k)) = set (owned bs i) - {fblk bs i (int k)}"
    "distinct (owned bs (without_block i k))"
proof -
  let ?n = "nat (num_blocks i)"
  define xs where "xs = take ?n (direct_blocks i)"
  have len: "length (direct_blocks i) = 10" "distinct (owned (blocks s) i)" using assms(1) by (simp_all add: wf_file_def)
  have xs: "owned bs i = xs" "length xs = ?n" "distinct xs"
    using owned_direct [OF len(1) assms(2)] len assms(2) by (simp_all add: xs_def)
  have k: "k < length xs" using xs(2) assms(3) by simp
  then have lx: "last xs = direct_blocks i ! nat (num_blocks i - 1)"
    using xs(2) by (subst last_conv_nth) (auto simp: xs_def nat_diff_distrib)
  have "owned bs (without_block i k) = take (?n - 1) ((direct_blocks i)[k := last xs])"
    unfolding lx using assms(2,3) len
    by (subst owned_direct) (auto simp: without_block_def nat_diff_distrib)
  also have "\<dots> = butlast (xs[k := last xs])"
  proof -
    have "?n \<le> 10" using assms(2) by simp
    then have "length ((take ?n (direct_blocks i))[k := last xs]) = ?n" using len(1) by simp
    then show ?thesis by (simp add: butlast_conv_take take_update_swap xs_def)
  qed
  finally have o: "owned bs (without_block i k) = butlast (xs[k := last xs])" .
  note M = mset_fill_hole [OF k]
  have d: "distinct (butlast (xs[k := last xs]) @ [xs ! k])" using mset_eq_imp_distinct_iff [OF M] xs(3) by blast
  then show "distinct (owned bs (without_block i k))" unfolding o by simp
  have "k < 10" using assms(2,3) by linarith
  then have "fblk bs i (int k) = xs ! k" using k xs(2) by (simp add: fblk_def xs_def)
  then show "set (owned bs (without_block i k)) = set (owned bs i) - {fblk bs i (int k)}"
    unfolding o xs(1) using d mset_eq_setD [OF M] by auto
qed

lemma block_removed:
  assumes s: "fl_inv s" "dir_ok s i D" "k < length D" "free_set s \<noteq> {}" "num_blocks i \<le> 10"
    and n: "D ! k = [(n, name, d)]" "n \<noteq> 0"
  defines "y \<equiv> fblk (blocks s) i (int k)"
  obtains s' where "free_dblock s y = Some (True, s')"
    "write_dblock_to_inode s' i (int k) (fblk (blocks s) i (num_blocks i - 1)) =
       Some (True, i\<lparr>direct_blocks := (direct_blocks i)[k := direct_blocks i ! nat (num_blocks i - 1)]\<rparr>, s')"
    "dir_reduced s i ((map_of (dir_names D))(name := None)) (without_block i k) s'"
proof -
  have wf: "wf_file s i" and D: "int (length D) = num_blocks i" "S_ISDIR (mode i)" "distinct (map fst (dir_names D))"
    using s(2) by (auto simp: dir_ok_def)
  then have len: "length (direct_blocks i) = 10" by (simp add: wf_file_def)
  have k: "0 \<le> int k" "int k < num_blocks i" "k < nat (num_blocks i)" using s(3) D(1) by auto
  note Y = wf_file_fblk [OF wf k(1,2), folded y_def]
  have "releasable s [y]" using s(1,4) Y by (simp add: releasable_def)
  then obtain s' where s': "free_dblock s y = Some (True, s')" "released s [y] s'"
    by (rule free_dblock_released)
  have last: "fblk (blocks s) i (num_blocks i - 1) = direct_blocks i ! nat (num_blocks i - 1)"
    using s(5) by (simp add: fblk_def)
  have w: "write_dblock_to_inode s' i (int k) (fblk (blocks s) i (num_blocks i - 1)) =
      Some (True, i\<lparr>direct_blocks := (direct_blocks i)[k := direct_blocks i ! nat (num_blocks i - 1)]\<rparr>, s')"
    using k s(5) len unfolding last by (simp add: write_dblock_to_inode_def geometry)
  let ?i = "without_block i k" and ?D = "butlast (D[k := last D])"
  note O = without_block_owned [OF wf s(5) k(3)]
  have f: "fl_inv s'" "core s' = core s" "free_set s' = free_set s \<union> {y}"
    "\<forall>b. b \<noteq> 0 \<longrightarrow> b \<notin> free_set s \<longrightarrow> b \<noteq> y \<longrightarrow> blocks s' b = blocks s b"
    using s'(2) by (auto simp: released_def)
  have used: "\<And>b. b \<in> set (owned (blocks s) i) \<Longrightarrow> data_block b \<and> b \<notin> free_set s" using wf by (simp add: wf_file_def)
  have own: "owned bs ?i = owned (blocks s) ?i" for bs
    using s(5) len by (simp add: owned_direct without_block_def)
  have wfi: "wf_file s' ?i"
    unfolding wf_file_def own [of "blocks s'"] using O [of "blocks s"] used k len f(3) by (auto simp: y_def without_block_def)
  have recs: "dir_recs (blocks s' (fblk (blocks s') ?i (int l))) 0 (?D ! l)" if "l < length ?D" for l
  proof -
    have l: "0 \<le> int l" "int l < num_blocks i - 1" using that D(1) by auto
    let ?j = "if l = k then length D - 1 else l"
    have j: "?j < length D" "int ?j < num_blocks i" "int ?j = (if int l = int k then num_blocks i - 1 else int l)"
      using that s(3) D(1) by auto
    have e: "fblk (blocks s') ?i (int l) = fblk (blocks s) i (int ?j)"
      unfolding j(3) without_block_map [OF wf s(5) k(3) l] using s(5) l by (auto simp: fblk_def)
    have "int ?j \<noteq> int k" using l D(1) by auto
    then have ne: "fblk (blocks s) i (int ?j) \<noteq> y"
      unfolding y_def using wf_file_inj [OF wf _ j(2) k(1,2)] by auto
    have o: "fblk (blocks s) i (int ?j) \<in> set (owned (blocks s) i)"
      using j(2) unfolding owned_def set_append Un_iff in_data_of by (intro disjI1 exI [of _ "int ?j"]) simp
    then have "blocks s' (fblk (blocks s) i (int ?j)) = blocks s (fblk (blocks s) i (int ?j))"
      using f(4) used [OF o] ne data_block_nonzero by blast
    moreover have "dir_recs (blocks s (fblk (blocks s) i (int ?j))) 0 (D ! ?j)"
      using s(2) j(1) by (simp only: dir_ok_def)
    moreover have "?D ! l = D ! ?j"
    proof -
      have "D \<noteq> []" using s(3) by auto
      then show ?thesis using that s(3) by (auto simp: nth_butlast last_conv_nth)
    qed
    
    ultimately show ?thesis using e by simp
  qed
  note N = dir_names_block_removed [OF D(3) s(3) n]
  have "dir_ok s' ?i ?D"
    using wfi recs N(1) D(1,2) k by (auto simp: dir_ok_def without_block_def)
  moreover have "wf_inode ?i" if "wf_inode i"
  proof -
    have "in_s64 (direct_blocks i ! nat (num_blocks i - 1))"
      using that s(5) k len unfolding wf_inode_def by (auto simp: list_all_length)
    then show ?thesis using that wf k s(5) by (auto simp: wf_inode_def without_block_def in_s64_def
        list_all_length nth_list_update)
  qed
  moreover have "set (owned (blocks s') ?i) \<subseteq> set (owned (blocks s) i)" unfolding own [of "blocks s'"] O(1) by blast
  moreover have "y \<in> set (owned (blocks s) i)"
    using k(1,2) unfolding y_def owned_def set_append Un_iff in_data_of by blast
  moreover have "mode ?i = mode i" by (simp add: without_block_def)
  ultimately have "dir_reduced s i ((map_of (dir_names D))(name := None)) ?i s'"
    using f N(2) unfolding dir_reduced_def by blast
  with s'(1) w show thesis by (rule that)
qed

text \<open>What \<open>remove_record\<close> does, whichever of its three cases the entry is in.\<close>

lemma remove_record_ok:
  assumes s: "fl_inv s" "dir_ok s i D" "free_set s \<noteq> {}"
    and fp: "found_at s i D name fp k" "removable i D name"
  obtains i' s' where "remove_record s i fp = Some (True, i', s')"
    "dir_reduced s i ((map_of (dir_names D))(name := None)) i' s'"
proof -
  define y where "y = fblk (blocks s) i (int k)"
  have f: "k < length D" "map_of (live (D ! k)) name \<noteq> None" "fp_fblock_num fp = int k" "fp_dblock_num fp = y"
    "fp_dblock fp = blocks s y" "dir_find name 0 (-1) (D ! k) = Found (start_pos fp) (prev_entry fp)"
    using fp(1) by (simp_all add: found_at_def y_def)
  have d: "wf_file s i" "int (length D) = num_blocks i" "dir_recs (blocks s y) 0 (D ! k)"
    using s(2) f(1) by (auto simp: dir_ok_def y_def)
  have def: "drop_defined (num_blocks i) name (D ! k)" using fp(2) f(1) by (simp add: removable_def)
  have h: "healthy s" using s(1) by (simp add: fl_inv_def)
  note first = dir_find_first [OF d(3) f(6)]
  note rewrite = rewritten_reduced [OF s(1,2) f(1,2), folded y_def]
  show thesis
  proof (cases "start_pos fp = 0")
    case False
    then have "0 \<le> prev_entry fp" "prev_entry fp + 16 \<le> 4096" "start_pos fp + 16 \<le> 4096" "0 \<le> start_pos fp"
      and R: "dir_recs (st_s64 (blocks s y) (prev_entry fp + 8) (ld_s64 (blocks s y) (prev_entry fp + 8) +
        ld_s64 (blocks s y) (start_pos fp + 8))) 0 (dir_drop name (D ! k))"
      using drop_behind [OF d(3) _ f(6)] by auto
    then have "remove_record s i fp = Some (True, i, snd (write_dblock s y (st_s64 (blocks s y) (prev_entry fp + 8)
        (ld_s64 (blocks s y) (prev_entry fp + 8) + ld_s64 (blocks s y) (start_pos fp + 8)))))"
      using f(4,5) False first
      by (simp add: remove_record_def rd_s64_def wr_s64_def in_block_def geometry)
    with rewrite [OF R] that show thesis by metis
  next
    case q: True
    then have prev: "prev_entry fp = -1" using first by simp
    obtain x xs where xs: "D ! k = x # xs" using f(2) by (cases "D ! k") auto
    obtain n nm e where x: "x = (n, nm, e)" by (cases x)
    have R: "ld_s64 (blocks s y) 8 = e" "18 + int (length nm) \<le> e" "dir_recs (blocks s y) e xs"
      using d(3) xs x by auto
    have hit: "n \<noteq> 0" "nm = name"
    proof -
      have "\<not> dir_find name (0 + e) 0 xs = Found (start_pos fp) (prev_entry fp)"
        using dir_find_ge [of "blocks s y" "0 + e" xs] R(2,3) q by fastforce
      then show "n \<noteq> 0" "nm = name" using f(6) xs x by (auto split: if_splits)
    qed
    have rd: "rd_s64 (blocks s y) 8 = Some e" using R(1) by (simp add: rd_s64_def in_block_def geometry)
    show thesis
    proof (cases xs)
      case Nil
      then have e: "e = 4096" using R(3) by simp
      have blk: "D ! k = [(n, name, e)]" "num_blocks i \<le> 10" using def xs x Nil hit by auto
      obtain s' where s': "free_dblock s y = Some (True, s')"
        "write_dblock_to_inode s' i (int k) (fblk (blocks s) i (num_blocks i - 1)) =
           Some (True, i\<lparr>direct_blocks := (direct_blocks i)[k := direct_blocks i ! nat (num_blocks i - 1)]\<rparr>, s')"
        "dir_reduced s i ((map_of (dir_names D))(name := None)) (without_block i k) s'"
        by (rule block_removed [OF s(1,2) f(1) s(3) blk(2,1) hit(1), folded y_def])
      have k: "0 \<le> int k" "int k < num_blocks i" "0 \<le> num_blocks i - 1" "num_blocks i - 1 < num_blocks i"
        using f(1) d(2) by auto
      note F = fetch_block [OF h d(1) k(1,2), folded y_def] fetch_block [OF h d(1) k(3,4)]
      have "remove_record s i fp = Some (True, without_block i k, s')"
        using F s'(1,2) f(3,5) q prev rd e
        by (simp add: remove_record_def geometry without_block_def)
      with s'(3) show thesis by (rule that [rotated])
    next
      case (Cons z zs)
      obtain m nm' e' where z: "z = (m, nm', e')" by (cases z)
      have rs: "D ! k = (n, nm, e) # (m, nm', e') # zs" using xs x z Cons by simp
      have fits: "18 + int (length nm') \<le> e" using def rs hit by auto
      have Z: "ld_u16 (blocks s y) (e + 16) = int (length nm')" "18 + int (length nm') \<le> e'" "e + e' \<le> 4096"
        using d(3) rs dir_recs_end [of "blocks s y" "e + e'" zs] by auto
      have rd2: "rd_u16 (blocks s y) (e + 16) = Some (int (length nm'))"
        using Z R(2) by (simp add: rd_u16_def in_block_def geometry)
      obtain c where c: "memcpy_within (blocks s y) 0 e (18 + int (length nm')) = Some c" "rd_s64 c 8 = Some e'"
        "dir_recs (st_s64 c 8 (e' + e)) 0 ((m, nm', e' + e) # zs)"
        using move_first [OF d(3) [unfolded rs] fits] by blast
      have "dir_drop name (D ! k) = (m, nm', e' + e) # zs" using rs hit by simp
      with c(3) have R': "dir_recs (st_s64 c 8 (e' + e)) 0 (dir_drop name (D ! k))" by simp
      have "e \<noteq> 4096" using Z(2,3) by simp
      then have "remove_record s i fp = Some (True, i, snd (write_dblock s y (st_s64 c 8 (e' + e))))"
        using f(4,5) q prev rd rd2 c(1,2)
        by (simp add: remove_record_def geometry add.assoc wr_s64_def in_block_def)
      with rewrite [OF R'] that show thesis by metis
    qed
  qed
qed

end
