(* ===== verification/Unlink.thy ===== *)
theory Unlink
  imports RootDir Removal
begin

text \<open>
  Unlinking (\<open>custom_unlink\<close> of \<open>lib/file_layer.c\<close>): the name leaves its directory, the path
  leaves the cache, and the blocks of the file become free. The tree afterwards is \<open>leave\<close>.
\<close>

section \<open>The tree without a file\<close>

definition leave :: "dir_tree \<Rightarrow> int \<Rightarrow> string \<Rightarrow> int \<Rightarrow> dir_tree" where
  "leave N p name n = (N(n := Map.empty))(p := (N p)(name := None))"

text \<open>\<open>n\<close> has one name, in directory \<open>p\<close>, apart from entries of its own.\<close>

definition sole_entry :: "dir_tree \<Rightarrow> int \<Rightarrow> string \<Rightarrow> int \<Rightarrow> bool" where
  "sole_entry N p name n \<longleftrightarrow> n \<noteq> ROOT_INODE \<and> n \<noteq> p \<and> N p name = Some n \<and> ran (N n) \<subseteq> {n} \<and>
     (\<forall>q c. N q c = Some n \<longrightarrow> q = p \<and> c = name \<or> q = n)"

lemma nodes_leave: "sole_entry N p name n \<Longrightarrow> nodes (leave N p name n) \<subseteq> nodes N - {n}"
  by (auto simp: nodes_def leave_def sole_entry_def split: if_splits)

text \<open>Paths that led elsewhere lead where they led.\<close>

lemma resolve_leave:
  assumes "sole_entry N p name n" "resolve N path \<noteq> -1" "resolve N path \<noteq> n"
  shows "resolve (leave N p name n) path = resolve N path"
  using assms(2,3)
proof (induction "length path" arbitrary: path rule: less_induct)
  case less
  show ?case
  proof (cases "path = ''/''")
    case True
    then show ?thesis by (simp add: resolve_root)
  next
    case False
    then obtain q where q: "get_parent_path path (int (length path)) = Some q"
      using less.prems resolve_none by blast
    obtain c where c: "get_child_name path (int (length path)) = Some c"
      using get_child_name_of_parent [OF q] by blast
    note R = resolve_step [OF False q c]
    obtain m where m: "N (resolve N q) c = Some m" "resolve N path = m" "resolve N q \<noteq> -1"
      using less.prems R [of N] by (auto split: if_splits option.splits)
    have "resolve N q \<noteq> n"
    proof
      assume "resolve N q = n"
      then have "m \<in> ran (N n)" using m(1) by (auto simp: ran_def)
      then show False using assms(1) less.prems(2) m(2) by (auto simp: sole_entry_def)
    qed
    with m(3) less.hyps [OF get_parent_path_shorter [OF q]] have e: "resolve (leave N p name n) q = resolve N q"
      by blast
    have "leave N p name n (resolve N q) c = N (resolve N q) c"
      using \<open>resolve N q \<noteq> n\<close> m(1,2) less.prems(2) assms(1) by (auto simp: leave_def sole_entry_def)
    then show ?thesis using R e m by simp
  qed
qed

lemma resolve_left:
  assumes "sole_entry N p name n" "path \<noteq> ''/''" "p \<noteq> -1"
    and "get_parent_path path (int (length path)) = Some q" "get_child_name path (int (length path)) = Some name"
    and "resolve N q = p"
  shows "resolve (leave N p name n) path = -1"
proof -
  have "resolve (leave N p name n) q = p"
    using resolve_leave [OF assms(1)] assms(1,3,6) by (auto simp: sole_entry_def)
  then show ?thesis using resolve_step [OF assms(2,4,5)] by (simp add: leave_def)
qed

lemma cache_ok_leave:
  assumes "sole_entry N p name n" "cache_ok N l" "n \<notin> snd ` set l"
  shows "cache_ok (leave N p name n) l"
  unfolding cache_ok_def
proof (intro ballI, clarify)
  fix k v assume kv: "(k, v) \<in> set l"
  then have "v = resolve N k" "0 < v" using assms(2) by (auto simp: cache_ok_def)
  moreover have "v \<noteq> n" using kv assms(3) by force
  ultimately show "v = resolve (leave N p name n) k \<and> 0 < v" using resolve_leave [OF assms(1)] by auto
qed

section \<open>Shrinking the volume\<close>

lemma volume_leave:
  assumes v: "volume_ok s N" "p \<in> nodes N" "n \<in> nodes N" "sole_entry N p name n"
    and s': "fl_inv s'" "sb_ok s'"
      "free_set s' \<subseteq> free_set s \<union> set (owned (blocks s) (inode_at s p)) \<union> set (owned (blocks s) (inode_at s n))"
    and b: "\<And>b. data_block b \<Longrightarrow> b \<notin> free_set s \<Longrightarrow> b \<notin> set (owned (blocks s) (inode_at s p)) \<Longrightarrow>
      b \<notin> set (owned (blocks s) (inode_at s n)) \<Longrightarrow> blocks s' b = blocks s b"
    and i: "\<And>k. inum_ok k \<Longrightarrow> k \<noteq> p \<Longrightarrow> k \<noteq> n \<Longrightarrow> inode_at s' k = inode_at s k"
    and d: "node_ok s' (inode_at s' p) ((N p)(name := None))"
      "set (owned (blocks s') (inode_at s' p)) \<subseteq> set (owned (blocks s) (inode_at s p))"
  shows "volume_ok s' (leave N p name n)"
proof -
  let ?N = "leave N p name n" and ?own = "\<lambda>s k. set (owned (blocks s) (inode_at s k))"
  note ok = volume_node [OF v(1)]
  have node: "k = p \<or> k \<in> nodes N \<and> k \<noteq> p \<and> k \<noteq> n" if "k \<in> nodes ?N" for k
    using that nodes_leave [OF v(4)] by blast
  have old: "inode_at s' k = inode_at s k \<and> node_ok s' (inode_at s' k) (N k) \<and> ?own s' k = ?own s k"
    if k: "k \<in> nodes N" "k \<noteq> p" "k \<noteq> n" for k
  proof -
    have e: "inode_at s' k = inode_at s k" using i ok k by blast
    have used: "data_block b \<and> b \<notin> free_set s" if "b \<in> ?own s k" for b
      using ok [OF k(1)] that by (auto simp: node_ok_def wf_file_def)
    have apart: "?own s k \<inter> ?own s p = {}" "?own s k \<inter> ?own s n = {}"
      using volume_disjoint [OF v(1) k(1) v(2) k(2)] volume_disjoint [OF v(1) k(1) v(3) k(3)] by blast+
    have keep: "blocks s' b = blocks s b" if "b \<in> ?own s k" for b
      using used [OF that] b apart that by blast
    have "?own s k \<inter> free_set s' = {}" using s'(3) used apart by blast
    moreover have "node_ok s (inode_at s k) (N k)" using ok [OF k(1)] by blast
    ultimately show ?thesis using node_kept [of s "inode_at s k" "N k" s'] keep e by simp
  qed
  show ?thesis
  proof (rule volume_okI [OF s'(1,2)])
    fix k assume "k \<in> nodes ?N"
    then consider "k = p" | "k \<in> nodes N" "k \<noteq> p" "k \<noteq> n" using node by blast
    then show "inum_ok k \<and> node_ok s' (inode_at s' k) (?N k)"
    proof cases
      case 1
      then show ?thesis using d(1) ok [OF v(2)] by (simp add: leave_def)
    next
      case 2
      then have "?N k = N k" by (simp add: leave_def)
      then show ?thesis using ok [OF 2(1)] old [OF 2] by metis
    qed
  next
    fix k m assume km: "k \<in> nodes ?N" "m \<in> nodes ?N" "k \<noteq> m"
    have sub: "?own s' j \<subseteq> ?own s j" if "j \<in> nodes ?N" for j
      using node [OF that] old [of j] d(2) by blast
    have "?own s k \<inter> ?own s m = {}"
      using volume_disjoint [OF v(1) _ _ km(3)] node [OF km(1)] node [OF km(2)] v(2) by blast
    then show "?own s' k \<inter> ?own s' m = {}" using sub [OF km(1)] sub [OF km(2)] by blast
  qed
qed

section \<open>What is released\<close>

text \<open>The lists of a file end where the file ends, so that releasing it releases its blocks.\<close>

definition tidy :: "'a bstate_scheme \<Rightarrow> iNode \<Rightarrow> bool" where
  "tidy s i \<longleftrightarrow> distinct (file_tree (blocks s) i) \<and> set (file_tree (blocks s) i) = set (owned (blocks s) i)"

lemma file_tree_frame:
  assumes "\<And>b. b \<in> set (file_tree bs i) \<Longrightarrow> bs' b = bs b"
  shows "file_tree bs' i = file_tree bs i"
proof (cases "length (takeWhile (\<lambda>v. v \<noteq> 0) (direct_blocks i)) < 10 \<or> single_indirect i = 0")
  case True
  then show ?thesis by (auto simp: file_tree_def Let_def)
next
  case F1: False
  then have x: "bs' (single_indirect i) = bs (single_indirect i)"
    by (intro assms) (auto simp: file_tree_def Let_def single_tree_def)
  show ?thesis
  proof (cases "length (listed (bs (single_indirect i))) < 512 \<or> double_indirect i = 0")
    case True
    then show ?thesis using x by (auto simp: file_tree_def Let_def single_tree_def)
  next
    case F2: False
    have sub: "set (double_tree bs (double_indirect i)) \<union> {double_indirect i} \<subseteq> set (file_tree bs i)"
      using F1 F2 by (auto simp: file_tree_def Let_def)
    then have "double_tree bs' (double_indirect i) = double_tree bs (double_indirect i)"
      using assms in_double_tree by (intro double_tree_cong) blast+
    then show ?thesis using x F1 F2 by (auto simp: file_tree_def Let_def single_tree_def)
  qed
qed

text \<open>Releasing a tidy file.\<close>

lemma release_file:
  assumes "sb_ok t" "inum_ok n" "fl_inv t" "free_set t \<noteq> {}" "tidy t (inode_at t n)"
    and "\<And>b. b \<in> set (owned (blocks t) (inode_at t n)) \<Longrightarrow> data_block b \<and> b \<notin> free_set t"
  obtains s' where "free_inode t n = Some (True, s')" "fl_inv s'" "sb_ok s'" "core s' = core t"
    "free_set s' = free_set t \<union> set (owned (blocks t) (inode_at t n))"
    "\<forall>m. inum_ok m \<longrightarrow> m \<noteq> n \<longrightarrow> inode_at s' m = inode_at t m"
    "\<forall>b. data_block b \<longrightarrow> b \<notin> free_set s' \<longrightarrow> blocks s' b = blocks t b"
    "inode_at s' n = (inode_at t n)\<lparr>allocated := False\<rparr>"
proof -
  have "releasable t (file_tree (blocks t) (inode_at t n))"
    using assms(3-6) by (simp add: releasable_def tidy_def)
  then obtain s' where "free_inode t n = Some (True, s')" "fl_inv s'" "sb_ok s'" "core s' = core t"
    "free_set s' = free_set t \<union> set (file_tree (blocks t) (inode_at t n))"
    "\<And>m. inum_ok m \<Longrightarrow> inode_at s' m = (if m = n then (inode_at t n)\<lparr>allocated := False\<rparr> else inode_at t m)"
    "\<And>b. data_block b \<Longrightarrow> b \<notin> free_set s' \<Longrightarrow> blocks s' b = blocks t b"
    using free_inode_ok [OF assms(1,2)] by metis
  with assms(2,5) show thesis by (intro that [of s']) (simp_all add: tidy_def)
qed

section \<open>Finding what is to go\<close>

text \<open>The path leads to file \<open>n\<close>, an entry of directory \<open>p\<close>.\<close>

definition present_in :: "dir_tree \<Rightarrow> string \<Rightarrow> int \<Rightarrow> string \<Rightarrow> int \<Rightarrow> bool" where
  "present_in N path p name n \<longleftrightarrow> path \<noteq> ''/'' \<and>
     (\<exists>q. get_parent_path path (int (length path)) = Some q \<and> resolve N q = p) \<and>
     get_child_name path (int (length path)) = Some name \<and> p \<in> nodes N \<and> sole_entry N p name n"

lemma present_nodes: "present_in N path p name n \<Longrightarrow> p \<in> nodes N \<and> n \<in> nodes N \<and> sole_entry N p name n"
  by (auto simp: present_in_def sole_entry_def nodes_def)

lemma present_lookups:
  fixes s :: "'a fstate_scheme"
  assumes v: "volume_ok s N" and a: "present_in N path p name n"
    and c: "lru_rep (iname_cache s) l" "cache_ok N l" "room_for (iname_cache s) l (set (ancestors path))"
  obtains q c1 c2 l' where "get_parent_path path (int (length path)) = Some q"
    "get_inode_num_from_path s path = Some (n, s\<lparr>iname_cache := c1\<rparr>)"
    "get_inode_num_from_path (s\<lparr>iname_cache := c1\<rparr>) q = Some (p, s\<lparr>iname_cache := c2\<rparr>)"
    "lru_rep c2 l'" "cache_ok N l'" "keys l \<subseteq> keys l'" "keys l' \<subseteq> keys l \<union> set (ancestors path)"
proof -
  obtain q where q: "get_parent_path path (int (length path)) = Some q" "resolve N q = p"
    using a by (auto simp: present_in_def)
  have b: "path \<noteq> ''/''" "get_child_name path (int (length path)) = Some name" "N p name = Some n" "p \<in> nodes N"
    using a by (simp_all add: present_in_def sole_entry_def)
  have t: "fl_inv s" "sb_ok s" "tree_ok s N" using v by (simp_all add: volume_ok_def)
  have "p \<noteq> -1" using node_positive [OF t(3) b(4)] by simp
  then have here: "resolve N path = n" using resolve_step [OF b(1) q(1) b(2), of N] q(2) b(3) by simp
  have sub: "set (ancestors q) \<subseteq> set (ancestors path)" using ancestors_step [OF b(1)] q(1) by auto
  from lookup_resolves [OF t c] here obtain c1 l1 where
    1: "get_inode_num_from_path s path = Some (n, s\<lparr>iname_cache := c1\<rparr>)"
    "cache_after N (iname_cache s) l (set (ancestors path)) c1 l1" by auto
  have r1: "room_for c1 l1 (set (ancestors path))" by (rule room_for_after [OF c(3) 1(2)]) simp_all
  let ?t = "s\<lparr>iname_cache := c1\<rparr>"
  have "fl_inv ?t" "sb_ok ?t" "tree_ok ?t N" "lru_rep (iname_cache ?t) l1" "cache_ok N l1"
    "room_for (iname_cache ?t) l1 (set (ancestors q))"
    using t 1(2) room_for_mono [OF r1 sub] by (simp_all add: cache_after_def)
  from lookup_resolves [OF this] q(2) obtain c2 l2 where
    2: "get_inode_num_from_path ?t q = Some (p, s\<lparr>iname_cache := c2\<rparr>)"
    "cache_after N c1 l1 (set (ancestors q)) c2 l2" by auto
  have k: "keys l \<subseteq> keys l1" "keys l1 \<subseteq> keys l \<union> set (ancestors path)" using 1(2) by (simp_all add: cache_after_def)
  have k2: "lru_rep c2 l2" "cache_ok N l2" "keys l1 \<subseteq> keys l2" "keys l2 \<subseteq> keys l1 \<union> set (ancestors q)"
    using 2(2) by (simp_all add: cache_after_def)
  have "keys l \<subseteq> keys l2" using k(1) k2(3) by (rule subset_trans)
  moreover have "keys l2 \<subseteq> keys l \<union> set (ancestors path)" using k(2) k2(4) sub by blast
  ultimately show thesis by (rule that [OF q(1) 1(1) 2(1) k2(1,2)])
qed

text \<open>A directory with one block, whose last record is the entry \<open>..\<close>, counts as empty.\<close>

lemma dir_find_last:
  assumes "dir_recs b p rs" "0 \<le> p" "rs \<noteq> []" "distinct (map fst (live rs))" "last rs = (n, name, d)" "n \<noteq> 0"
  obtains q r where "dir_find name p prev rs = Found q r" "0 \<le> q" "q + 16 \<le> 4096" "q + ld_s64 b (q + 8) = 4096"
proof -
  have "\<exists>q r. dir_find name p prev rs = Found q r \<and> 0 \<le> q \<and> q + 16 \<le> 4096 \<and> q + ld_s64 b (q + 8) = 4096"
    using assms
  proof (induction rs arbitrary: p prev)
    case Nil
    then show ?case by simp
  next
    case (Cons x xs)
    obtain m nm e where x: "x = (m, nm, e)" by (cases x)
    with Cons.prems(1) have R: "ld_s64 b (p + 8) = e" "18 + int (length nm) \<le> e" "dir_recs b (p + e) xs" by auto
    show ?case
    proof (cases "xs = []")
      case True
      then show ?thesis using Cons.prems R x by auto
    next
      case False
      then have l: "last xs = (n, name, d)" using Cons.prems(5) by simp
      have "last xs \<in> set xs" using False by simp
      then have "name \<in> set (map fst (live xs))" using Cons.prems(6) unfolding l by (force simp: live_def)
      then have miss: "\<not> (m \<noteq> 0 \<and> nm = name)" using Cons.prems(4) x by auto
      have "distinct (map fst (live xs))" using Cons.prems(4) x by (auto split: if_splits)
      from Cons.IH [OF R(3) _ False this l Cons.prems(6), of p] Cons.prems(2) R(2) miss x show ?thesis by auto
    qed
  qed
  then show thesis using that by blast
qed

lemma is_empty_dir_ok:
  assumes "fl_inv s" "dir_ok s i [rs]" "rs \<noteq> []" "last rs = (n, ''..'', d)" "n \<noteq> 0"
  shows "is_empty_dir s i = Some True"
proof -
  have d: "num_blocks i = 1" "distinct (map fst (live rs))" "dir_recs (blocks s (fblk (blocks s) i 0)) 0 rs"
    using assms(2) by (auto simp: dir_ok_def dir_names_one)
  obtain q r where q: "dir_find ''..'' 0 (-1) rs = Found q r" "0 \<le> q" "q + 16 \<le> 4096"
    "q + ld_s64 (blocks s (fblk (blocks s) i 0)) (q + 8) = 4096"
    by (rule dir_find_last [OF d(3) _ assms(3) d(2) assms(4,5)]) auto
  show ?thesis
  proof (cases rule: find_file_cases [OF assms(1,2), of "''..''"])
    case (1 fp)
    have "last rs \<in> set rs" using assms(3) by simp
    then have "''..'' \<in> fst ` set (live rs)" using assms(4,5) by (force simp: live_def)
    then show ?thesis using 1(3) by (simp add: dir_names_one map_of_eq_None_iff)
  next
    case (2 fp k)
    then show ?thesis using q d(1)
      by (auto simp: is_empty_dir_def found_at_def rd_s64_def in_block_def geometry)
  qed
qed

section \<open>The whole operation\<close>

lemma pop_either:
  assumes "lru_rep c l" "\<exists>k \<in> keys l. k \<noteq> path"
  obtains b c' where "pop_cache c (Some path) = Some (b, c')" "lru_rep c' (without path l)"
proof (cases "path \<in> keys l")
  case True
  obtain k where "k \<in> keys l" "k \<noteq> path" using assms(2) by blast
  then have "card {k, path} \<le> card (keys l)" using True by (intro card_mono) auto
  then have "2 \<le> length l" using \<open>k \<noteq> path\<close> card_length [of "map fst l"] by simp
  from pop_present [OF assms(1) True this] that show thesis by blast
next
  case False
  then have "without path l = l" by (intro without_absent') simp
  then show thesis using that [OF pop_absent [OF assms(1) False]] assms(1) by simp
qed

lemma core_with_cache: "core (u\<lparr>iname_cache := c\<rparr>) = (core u)\<lparr>iname_cache := c\<rparr>"
  by (simp add: core_def)

lemma tidy_cache [simp]: "tidy (s\<lparr>iname_cache := c\<rparr>) i = tidy s i"
  by (simp add: tidy_def)

text \<open>
  \<open>unlinkable\<close>: what \<open>custom_unlink\<close> needs of the volume. The directory is the one with records
  \<open>D\<close>; the file is a tidy one with one link, and when it is a directory, an empty one.
\<close>

definition unlinkable :: "'a fstate_scheme \<Rightarrow> int \<Rightarrow> string \<Rightarrow> int \<Rightarrow> dir_rec list list \<Rightarrow> bool" where
  "unlinkable s p name n D \<longleftrightarrow> dir_ok s (inode_at s p) D \<and> removable (inode_at s p) D name \<and>
     link_count (inode_at s n) = 1 \<and> tidy s (inode_at s n) \<and> free_set s \<noteq> {} \<and>
     (S_ISDIR (mode (inode_at s n)) \<longrightarrow>
       (\<exists>rs m d. dir_ok s (inode_at s n) [rs] \<and> rs \<noteq> [] \<and> last rs = (m, ''..'', d) \<and> m \<noteq> 0))"

lemma custom_unlink_ok:
  fixes s :: "'a fstate_scheme"
  assumes v: "volume_ok s N" and a: "present_in N path p name n"
    and c: "lru_rep (iname_cache s) l" "cache_ok N l" "room_for (iname_cache s) l (set (ancestors path))"
      "\<exists>k \<in> keys l. k \<noteq> path"
    and u: "unlinkable s p name n D" "N p = map_of (dir_names D)" "in_s64 now"
  obtains s' l' where "custom_unlink now s path = Some (0, s')" "volume_ok s' (leave N p name n)"
    "free_set s \<union> set (owned (blocks s) (inode_at s n)) \<subseteq> free_set s'"
    "lru_rep (iname_cache s') (without path l')" "cache_ok N l'" "keys l \<subseteq> keys l'"
    "keys l' \<subseteq> keys l \<union> set (ancestors path)"
    "\<forall>k. inum_ok k \<longrightarrow> k \<noteq> p \<longrightarrow> k \<noteq> n \<longrightarrow> inode_at s' k = inode_at s k"
    "S_ISDIR (mode (inode_at s' p))" "\<And>k. latest s' k = latest s k"
    "inode_at s' n = (inode_at s n)\<lparr>allocated := False\<rparr>"
proof -
  let ?p = "inode_at s p" and ?n = "inode_at s n" and ?own = "\<lambda>i. set (owned (blocks s) i)"
  note pn = present_nodes [OF a]
  have np: "n \<noteq> p" using pn by (simp add: sole_entry_def)
  have vv: "fl_inv s" "sb_ok s" using v by (simp_all add: volume_ok_def)
  have ok: "inum_ok p" "inum_ok n" "node_ok s ?n (N n)" "p \<noteq> -1" "n \<noteq> -1"
    using volume_node [OF v, of p] volume_node [OF v, of n] pn by (auto simp: inum_ok_def)
  have apart: "?own ?p \<inter> ?own ?n = {}" using volume_disjoint [OF v, of p n] pn np by blast
  have used: "\<And>b. b \<in> ?own ?n \<Longrightarrow> data_block b \<and> b \<notin> free_set s"
    using ok(3) by (simp add: node_ok_def wf_file_def)
  have U: "dir_ok s ?p D" "removable ?p D name" "link_count ?n = 1" "tidy s ?n" "free_set s \<noteq> {}"
    using u(1) by (simp_all add: unlinkable_def)
  have keep: "(if S_ISDIR (mode ?n) then do { e \<leftarrow> is_empty_dir (s\<lparr>iname_cache := c1\<rparr>) ?n; Some (\<not> e) }
      else Some False) = Some False" for c1
  proof (cases "S_ISDIR (mode ?n)")
    case True
    then obtain rs m d where "dir_ok s ?n [rs]" "rs \<noteq> []" "last rs = (m, ''..'', d)" "m \<noteq> 0"
      using u(1) by (auto simp: unlinkable_def)
    then show ?thesis using is_empty_dir_ok [of "s\<lparr>iname_cache := c1\<rparr>"] vv(1) by simp
  qed simp
  obtain q c1 c2 l' where q: "get_parent_path path (int (length path)) = Some q"
    "get_inode_num_from_path s path = Some (n, s\<lparr>iname_cache := c1\<rparr>)"
    "get_inode_num_from_path (s\<lparr>iname_cache := c1\<rparr>) q = Some (p, s\<lparr>iname_cache := c2\<rparr>)"
    "lru_rep c2 l'" "cache_ok N l'" "keys l \<subseteq> keys l'" "keys l' \<subseteq> keys l \<union> set (ancestors path)"
    by (rule present_lookups [OF v a c(1-3)])
  let ?t = "s\<lparr>iname_cache := c2\<rparr>"
  have rd: "read_inode (s\<lparr>iname_cache := c\<rparr>) k = Some (Some (inode_at s k))" if "inum_ok k" for k c
  proof -
    have "fl_inv (s\<lparr>iname_cache := c\<rparr>)" using vv(1) by simp
    then have "healthy (s\<lparr>iname_cache := c\<rparr>)" unfolding fl_inv_def by blast
    then show ?thesis using read_inode_ok [of "s\<lparr>iname_cache := c\<rparr>" k] vv(2) that by simp
  qed
  have t: "fl_inv ?t" "dir_ok ?t ?p D" "free_set ?t \<noteq> {}" using vv U(1,5) by simp_all
  have child: "get_child_name path (int (length path)) = Some name" "N p name = Some n"
    using a by (simp_all add: present_in_def sole_entry_def)
  obtain fp k where fp: "find_file ?t name ?p = Some fp" "found_at ?t ?p D name fp k"
  proof (cases rule: find_file_cases [OF t(1,2), of name])
    case (1 fp)
    then show thesis using u(2) child(2) by simp
  qed (use that in blast)
  have pos: "start_pos fp \<noteq> -1" using found_at_inum(2) [OF t(2) fp(2)] by simp
  obtain i' w where w: "remove_record ?t ?p fp = Some (True, i', w)"
    "dir_reduced ?t ?p ((map_of (dir_names D))(name := None)) i' w"
    by (rule remove_record_ok [OF t fp(2) U(2)])
  then have W: "fl_inv w" "core w = core ?t" "free_set s \<subseteq> free_set w" "free_set w \<subseteq> free_set s \<union> ?own ?p"
    "mode i' = mode ?p" "wf_inode ?p \<longrightarrow> wf_inode i'" "set (owned (blocks w) i') \<subseteq> ?own ?p"
    "\<forall>b. b \<noteq> 0 \<longrightarrow> b \<notin> free_set s \<longrightarrow> b \<notin> ?own ?p \<longrightarrow> blocks w b = blocks s b"
    by (simp_all add: dir_reduced_def)
  obtain D' where D': "dir_ok w i' D'" "map_of (dir_names D') = (map_of (dir_names D))(name := None)"
    using w(2) by (auto simp: dir_reduced_def)
  have wc: "iname_cache w = c2" using core_cache [OF W(2)] by simp
  obtain b c3 where c3: "pop_cache c2 (Some path) = Some (b, c3)" "lru_rep c3 (without path l')"
  proof -
    obtain k where "k \<in> keys l" "k \<noteq> path" using c(4) by (rule bexE)
    then have "\<exists>k \<in> keys l'. k \<noteq> path" using subsetD [OF q(6)] by blast
    from pop_either [OF q(4) this] that show thesis by metis
  qed
  let ?w = "w\<lparr>iname_cache := c3\<rparr>"
  have same_n: "blocks w b = blocks s b" if "b \<in> ?own ?n" for b
  proof -
    have "b \<noteq> 0" "b \<notin> free_set s" "b \<notin> ?own ?p" using used [OF that] apart that data_block_nonzero by blast+
    then show ?thesis by (rule W(8) [rule_format])
  qed
  have inode_w: "inode_at w k = inode_at s k" if "inum_ok k" for k
  proof -
    have "inode_block k \<noteq> 0" "\<not> data_block (inode_block k)" using inode_block_not_data [OF that] by auto
    moreover have "wf_file s ?p" using U(1) by (simp add: dir_ok_def)
    ultimately have "blocks w (inode_block k) = blocks s (inode_block k)"
      using W(8) fl_inv_data_block [OF vv(1)] by (auto simp: wf_file_def)
    then show ?thesis by (simp add: inode_at_def)
  qed
  have own_w: "owned (blocks w) ?n = owned (blocks s) ?n"
    by (rule node_kept(2) [OF ok(3) _ same_n]) (use W(4) used apart in blast)
  have tree_w: "file_tree (blocks w) ?n = file_tree (blocks s) ?n"
    using U(4) same_n by (intro file_tree_frame) (simp add: tidy_def)
  have "sb_ok w" by (rule core_sb_ok [OF W(2)]) (use vv in simp)
  then have pre: "sb_ok ?w" "inum_ok n" "fl_inv ?w" "free_set ?w \<noteq> {}" "tidy ?w (inode_at ?w n)"
    using ok(2) W(1,3) U(4,5) inode_w [OF ok(2)] own_w tree_w by (auto simp: tidy_def)
  have used_w: "data_block b \<and> b \<notin> free_set ?w" if "b \<in> set (owned (blocks ?w) (inode_at ?w n))" for b
    using that own_w inode_w [OF ok(2)] used W(4) apart by auto
  obtain x where x: "free_inode ?w n = Some (True, x)" "fl_inv x" "sb_ok x" "core x = core ?w"
    "free_set x = free_set ?w \<union> set (owned (blocks ?w) (inode_at ?w n))"
    "\<forall>m. inum_ok m \<longrightarrow> m \<noteq> n \<longrightarrow> inode_at x m = inode_at ?w m"
    "\<forall>b. data_block b \<longrightarrow> b \<notin> free_set x \<longrightarrow> blocks x b = blocks ?w b"
    "inode_at x n = (inode_at ?w n)\<lparr>allocated := False\<rparr>"
    by (rule release_file [OF pre used_w])
  have fx: "free_set x = free_set w \<union> ?own ?n" using x(5) own_w inode_w [OF ok(2)] by simp
  have xc: "iname_cache x = c3" using core_cache [OF x(4)] by simp
  have "wf_inode i'" using W(6) by (simp add: inode_at_def)
  then have wf: "wf_inode (touched now i')" by (rule touched_dir(3)) (rule u(3))
  obtain s' where s': "write_inode x p (touched now i') = Some (True, s')" "fl_inv s'" "sb_ok s'" "core s' = core x"
    "free_set s' = free_set x" "\<And>b. data_block b \<Longrightarrow> blocks s' b = blocks x b"
    "\<And>m. inum_ok m \<Longrightarrow> inode_at s' m = (if m = p then touched now i' else inode_at x m)"
    using store_inode [OF x(2,3) ok(1) wf] by metis
  have stamp: "i'\<lparr>access_time := now, modification_time := now, status_change_time := now\<rparr> = touched now i'"
    by (simp add: touched_def)
  have drop: "drop_link now w path n ?n = Some x"
    using U(3) wc c3(1) x(1) by (simp add: drop_link_def Let_def cache_pop_def)
  have run: "custom_unlink now s path = Some (0, s')"
    unfolding custom_unlink_def
    using q(1-3) ok(4,5) rd [OF ok(1)] rd [OF ok(2)] keep child(1) fp(1) pos w(1) drop s'(1)
    by (simp add: Let_def stamp)
  have ip: "inode_at s' p = touched now i'" using s'(7) [OF ok(1)] by simp
  have others: "\<forall>k. inum_ok k \<longrightarrow> k \<noteq> p \<longrightarrow> k \<noteq> n \<longrightarrow> inode_at s' k = inode_at s k"
    using s'(7) x(6) inode_w by simp
  have wfw: "wf_file w i'" using D'(1) by (simp add: dir_ok_def)
  have dirs: "set (owned (blocks w) i') \<inter> free_set s' = {}"
    using wfw W(7) apart unfolding s'(5) fx by (auto simp: wf_file_def)
  have same: "blocks s' b = blocks w b" if "b \<in> set (owned (blocks w) i')" for b
    using that wfw dirs s'(5,6) x(7) by (auto simp: wf_file_def)
  have isdir: "S_ISDIR (mode (inode_at s' p))" unfolding ip using U(1) W(5) by (simp add: touched_def dir_ok_def)
  have node: "node_ok s' (inode_at s' p) ((N p)(name := None))"
  proof -
    have "dir_ok s' (touched now i') D'" unfolding touched_dir(1) by (rule dir_ok_kept [OF D'(1) dirs same])
    moreover have "S_ISDIR (mode (touched now i'))" using U(1) W(5) by (simp add: touched_def dir_ok_def)
    moreover have "(N p)(name := None) = map_of (dir_names D')" using D'(2) u(2) by simp
    ultimately show ?thesis unfolding ip node_ok_def dir_ok_def by auto
  qed
  have own_p: "set (owned (blocks s') (inode_at s' p)) \<subseteq> ?own ?p"
  proof -
    have "owned (blocks s') i' = owned (blocks w) i'" by (rule file_kept(2) [OF wfw dirs same])
    then show ?thesis using W(7) unfolding ip touched_dir(2) by simp
  qed
  have "volume_ok s' (leave N p name n)"
  proof (rule volume_leave [OF v _ _ _ s'(2,3) _ _ _ node own_p])
    show "p \<in> nodes N" "n \<in> nodes N" "sole_entry N p name n" using pn by blast+
    show "free_set s' \<subseteq> free_set s \<union> ?own ?p \<union> ?own ?n" using s'(5) fx W(4) by blast
    show "blocks s' b = blocks s b" if "data_block b" "b \<notin> free_set s" "b \<notin> ?own ?p" "b \<notin> ?own ?n" for b
    proof -
      have "b \<notin> free_set x" using that(2-4) fx W(4) by blast
      then show ?thesis using that s'(6) x(7) W(8) data_block_nonzero by simp
    qed
    show "inode_at s' k = inode_at s k" if "inum_ok k" "k \<noteq> p" "k \<noteq> n" for k using others that by blast
  qed
  moreover have "free_set s \<union> ?own ?n \<subseteq> free_set s'" using s'(5) fx W(3) by blast
  moreover have "iname_cache s' = c3" using core_cache [OF s'(4)] xc by simp
  moreover have "latest s' k = latest s k" for k
    using latest_core [OF s'(4), of k] latest_core [OF x(4), of k] latest_core [OF W(2), of k] by (simp add: latest_def)
  moreover have "inode_at s' n = (inode_at s n)\<lparr>allocated := False\<rparr>"
    using s'(7) [OF ok(2)] x(8) inode_w [OF ok(2)] np by simp
  ultimately show thesis using that [OF run] c3(2) q(5-7) others isdir by simp
qed

section \<open>A volume with one file in its root, for closed examples\<close>

primrec fits :: "int \<Rightarrow> dir_rec list \<Rightarrow> bool" where
  "fits p [] \<longleftrightarrow> p = 4096"
| "fits p (r # rs) \<longleftrightarrow> (case r of (n, nm, d) \<Rightarrow>
     in_s64 n \<and> 18 + int (length nm) \<le> d \<and> fits (p + d) rs)"

lemma fits_end: "fits p rs \<Longrightarrow> p \<le> 4096"
  by (induction rs arbitrary: p) (simp, fastforce)

lemma dir_recs_exist: "fits p rs \<Longrightarrow> 0 \<le> p \<Longrightarrow> \<exists>b. dir_recs b p rs"
proof (induction rs arbitrary: p)
  case Nil
  then show ?case by simp
next
  case (Cons r rs)
  obtain n nm d where r: "r = (n, nm, d)" by (cases r)
  with Cons.prems have R: "in_s64 n" "18 + int (length nm) \<le> d" "fits (p + d) rs" by auto
  then obtain c where c: "dir_recs c (p + d) rs" using Cons.IH [OF R(3)] Cons.prems(2) by auto
  have e: "p + d \<le> 4096" using R(3) by (rule fits_end)
  obtain b where "put_record c p n d nm = Some b" "ld_s64 b p = n" "ld_s64 b (p + 8) = d"
    "ld_u16 b (p + 16) = int (length nm)" "\<forall>k < length nm. b (p + 18 + int k) = of_char (nm ! k)"
    "\<forall>i. i < p \<or> p + 18 + int (length nm) \<le> i \<longrightarrow> b i = c i"
    by (rule put_record_ok [of p nm n d c]) (use R e Cons.prems(2) in \<open>auto simp: in_s64_def\<close>)
  moreover have "dir_recs b (p + d) rs"
    by (rule dir_recs_frame [OF c]) (use calculation(6) R(2) in auto)
  ultimately show ?case using r R(2) by auto
qed

definition one_file :: "dir_rec list" where
  "one_file = [(2, ''.'', 19), (2, ''..'', 20), (5, ''f'', 4057)]"

definition one_file_tree :: dir_tree where
  "one_file_tree = (\<lambda>_. Map.empty)(2 := [''.'' \<mapsto> 2, ''..'' \<mapsto> 2, ''f'' \<mapsto> 5])"

lemma one_file_entries:
  "one_file_tree n c = Some m \<longleftrightarrow> n = 2 \<and> (c = ''.'' \<and> m = 2 \<or> c = ''..'' \<and> m = 2 \<or> c = ''f'' \<and> m = 5)"
  by (auto simp: one_file_tree_def)

lemma one_file_nodes: "nodes one_file_tree = {2, 5}"
  unfolding nodes_def one_file_entries by (auto simp: ROOT_INODE_def)

lemma sample_file_regular: "\<not> S_ISDIR (mode sample_file)"
proof -
  have "ld_u32 zero_buf 152 = 0" by (simp add: ld_u32_def eval_nat_numeral)
  then show ?thesis
    by (simp add: sample_file_def blank_inode_def get_inode_def S_ISDIR_def S_IFDIR_def S_IFMT_def)
qed

lemma one_file_volume:
  obtains s :: fstate where "volume_ok s one_file_tree" "iname_cache s = c" "free_set s = {26215, 26216}"
    "inode_at s 2 = sample_dir" "inode_at s 5 = sample_file" "dir_ok s sample_dir [one_file]"
proof -
  obtain b where b: "dir_recs b 0 one_file"
    using dir_recs_exist [of 0 one_file] by (auto simp: one_file_def in_s64_def)
  let ?s = "file_state c"
  define u where "u = ?s\<lparr>blocks := (blocks ?s)(30002 := b)\<rparr>"
  note F = file_state_facts [of c]
  have "30002 \<notin> free_set ?s" using F(2) by simp
  from fl_inv_write_used [OF F(1) this, of b] have u: "fl_inv u" "free_set u = {26215, 26216}"
    using F(2) by (simp_all add: u_def)
  have su: "sb_ok u" "iname_cache u = c" using F(3,6) by (simp_all add: u_def)
  have ok: "inum_ok 2" "inum_ok 5" by (simp_all add: inum_ok_def geometry)
  obtain s where s: "write_inode u 2 sample_dir = Some (True, s)" "fl_inv s" "sb_ok s" "core s = core u"
    "free_set s = free_set u" "\<And>b. data_block b \<Longrightarrow> blocks s b = blocks u b"
    "\<And>m. inum_ok m \<Longrightarrow> inode_at s m = (if m = 2 then sample_dir else inode_at u m)"
    using store_inode [OF u(1) su(1) ok(1) sample_dir_wf] by metis
  have db: "data_block 30000" "data_block 30001" "data_block 30002" by (simp_all add: data_block_def geometry)
  have "inode_at u 5 = inode_at ?s 5"
    unfolding u_def by (rule inode_at_other_block) (use inode_block_not_data [OF ok(2)] db(3) in auto)
  then have i: "inode_at s 2 = sample_dir" "inode_at s 5 = sample_file"
    using s(7) [OF ok(1)] s(7) [OF ok(2)] F(4) by simp_all
  have free: "free_set s = {26215, 26216}" using s(5) u(2) by simp
  have recs: "dir_recs (blocks s 30002) 0 one_file" using s(6) [OF db(3)] b by (simp add: u_def)
  have dir: "dir_ok s sample_dir [one_file]"
    by (rule sample_dir_ok [OF recs]) (simp_all add: free one_file_def)
  have wff: "wf_file ?s sample_file" by (rule F(5))
  have own: "owned (blocks ?s) sample_file = [30000, 30001]" using sample_file_blocks(2) F(7) by simp
  have K: "wf_file s sample_file" "owned (blocks s) sample_file = [30000, 30001]"
  proof -
    have keep: "blocks s b = blocks ?s b" if "b \<in> set (owned (blocks ?s) sample_file)" for b
      using that s(6) [OF db(1)] s(6) [OF db(2)] unfolding own by (auto simp: u_def)
    have sub: "free_set s \<subseteq> free_set ?s" using free F(2) by simp
    show "wf_file s sample_file" by (rule file_frame(1) [OF wff sub keep])
    show "owned (blocks s) sample_file = [30000, 30001]"
      unfolding own [symmetric] by (rule file_frame(2) [OF wff sub keep])
  qed
  have own2: "owned (blocks s) sample_dir = [30002]"
    by (subst owned_direct) (simp_all add: sample_dir_def)
  have n: "node_ok s sample_dir (one_file_tree 2)" "node_ok s sample_file (one_file_tree 5)"
  proof -
    have "map_of (dir_names [one_file]) = one_file_tree 2"
      by (simp add: fun_eq_iff dir_names_def one_file_def one_file_tree_def)
    moreover have "S_ISDIR (mode sample_dir)" "wf_file s sample_dir" using dir by (simp_all add: dir_ok_def)
    ultimately show "node_ok s sample_dir (one_file_tree 2)" using dir unfolding node_ok_def by metis
    have "\<not> S_ISDIR (mode sample_file)" by (rule sample_file_regular)
    then show "node_ok s sample_file (one_file_tree 5)" using K(1) by (simp add: node_ok_def one_file_tree_def)
  qed
  have "volume_ok s one_file_tree"
    by (rule volume_okI [OF s(2,3)]) (use ok n i K(2) own2 in \<open>auto simp: one_file_nodes\<close>)
  moreover have "iname_cache s = c" using core_cache [OF s(4)] su(2) by simp
  ultimately show thesis using that free i dir by blast
qed

text \<open>What the examples share: the file \<open>/f\<close> can go, two paths are cached.\<close>

lemma sample_file_tidy:
  assumes "owned (blocks s) sample_file = [30000, 30001]"
  shows "tidy s sample_file"
  using assms by (simp add: tidy_def file_tree_def Let_def sample_file_def eval_nat_numeral)

lemma one_file_unlinkable:
  assumes "free_set s = {26215, 26216}" "inode_at s 2 = sample_dir" "inode_at s 5 = sample_file"
    "dir_ok s sample_dir [one_file]"
  shows "unlinkable s 2 ''f'' 5 [one_file]" "one_file_tree 2 = map_of (dir_names [one_file])"
    "present_in one_file_tree ''/f'' 2 ''f'' 5"
proof -
  have "owned (blocks s) sample_file = [30000, 30001]"
    by (subst owned_direct) (simp_all add: sample_file_def eval_nat_numeral)
  then have "tidy s sample_file" by (rule sample_file_tidy)
  moreover have "removable sample_dir [one_file] ''f''" by (simp add: removable_def one_file_def)
  moreover have "link_count sample_file = 1" by (simp add: sample_file_def)
  moreover note sample_file_regular
  ultimately show "unlinkable s 2 ''f'' 5 [one_file]" using assms by (simp add: unlinkable_def)
  show "one_file_tree 2 = map_of (dir_names [one_file])"
    by (simp add: fun_eq_iff dir_names_def one_file_def one_file_tree_def)
  have "ran (one_file_tree 5) = {}" by (simp add: one_file_tree_def)
  then have "sole_entry one_file_tree 2 ''f'' 5"
    by (simp add: sole_entry_def one_file_entries ROOT_INODE_def)
  then show "present_in one_file_tree ''/f'' 2 ''f'' 5"
    using one_step_path [of "''f''"] one_file_nodes
    by (simp add: present_in_def resolve_root ROOT_INODE_def)
qed

lemma one_file_resolve: "resolve one_file_tree ''/f'' = 5" "resolve one_file_tree ''/f/'' = 5"
  "resolve one_file_tree ''/.'' = 2"
proof -
  have p: "get_parent_path ''/f/'' (int (length ''/f/'')) = Some ''/''"
    "get_child_name ''/f/'' (int (length ''/f/'')) = Some ''f''"
    using parent_path_split [of "''f''" "''/''" "[]"] child_name_split [of "''f''" "''/''" "[]"] by simp_all
  show "resolve one_file_tree ''/f'' = 5" "resolve one_file_tree ''/f/'' = 5" "resolve one_file_tree ''/.'' = 2"
    using resolve_step [OF _ one_step_path(1,2) [of "''f''"], of one_file_tree]
      resolve_step [OF _ p, of one_file_tree] resolve_step [OF _ one_step_path(1,2) [of "''.''"], of one_file_tree]
    by (simp_all add: resolve_root one_file_tree_def ROOT_INODE_def)
qed

lemma path_slots: "slot 3 ''/f'' = 0" "slot 3 ''/.'' = 1" "slot 3 ''/f/'' = 2"
  by code_simp+

lemma two_paths:
  assumes "k = ''/.'' \<or> k = ''/f/''"
  obtains c where "lru_rep c [(k, v), (''/f'', 5)]"
    "room_for c [(k, v), (''/f'', 5)] (set (ancestors ''/f''))"
proof -
  obtain c1 where c1: "lru_rep c1 [(''/f'', 5)]" "csize c1 = 1" "capacity c1 = 3"
    using set_absent [OF empty_cache_rep(1), of "''/f''" 5] empty_cache_rep(2,3) by auto
  obtain c where c: "lru_rep c [(k, v), (''/f'', 5)]" "csize c = 2" "capacity c = 3"
    using set_absent [OF c1(1), of k v] c1(2,3) path_slots assms by auto
  have "set (ancestors ''/f'') = {''/f''}" using one_step_path(3) [of "''f''"] by simp
  moreover have "inj_on (slot 3) {k, ''/f''}" using path_slots assms by auto
  ultimately have "room_for c [(k, v), (''/f'', 5)] (set (ancestors ''/f''))"
    using c(2,3) by (simp add: room_for_def insert_absorb)
  with c(1) that show thesis by blast
qed

section \<open>Properties\<close>

text \<open>
  C8: unlinking a file with one name and one link, or an empty directory, takes its name out
  of the tree, keeps the volume sound and every other inode, frees the blocks of the file, marks
  its inode as not allocated and changes nothing else of it, and leaves a cache that agrees with
  the new tree. The guards: the record is one the code can take out (\<open>removable\<close>) and the list
  blocks of the file name no released block (both in \<open>unlinkable\<close>, with the link count and a free
  block), another path is cached, and no other path on the way or in the cache leads to the file.
\<close>

theorem unlink_removes_the_name:
  fixes s :: "'a fstate_scheme"
  assumes "volume_ok s N" "present_in N path p name n"
    and "unlinkable s p name n D" "N p = map_of (dir_names D)" "in_s64 now"
    and "lru_rep (iname_cache s) l" "cache_ok N l" "room_for (iname_cache s) l (set (ancestors path))"
    and "\<exists>k \<in> keys l. k \<noteq> path" "\<forall>k \<in> keys l \<union> set (ancestors path). k \<noteq> path \<longrightarrow> resolve N k \<noteq> n"
  shows "\<exists>s' l'. custom_unlink now s path = Some (0, s') \<and> volume_ok s' (leave N p name n) \<and>
    resolve (leave N p name n) path = -1 \<and>
    free_set s \<union> set (owned (blocks s) (inode_at s n)) \<subseteq> free_set s' \<and>
    inode_at s' n = (inode_at s n)\<lparr>allocated := False\<rparr> \<and>
    lru_rep (iname_cache s') l' \<and> cache_ok (leave N p name n) l' \<and>
    (\<forall>k. inum_ok k \<longrightarrow> k \<noteq> p \<longrightarrow> k \<noteq> n \<longrightarrow> inode_at s' k = inode_at s k)"
proof -
  obtain s' l' where r: "custom_unlink now s path = Some (0, s')" "volume_ok s' (leave N p name n)"
    "free_set s \<union> set (owned (blocks s) (inode_at s n)) \<subseteq> free_set s'"
    "lru_rep (iname_cache s') (without path l')" "cache_ok N l'" "keys l \<subseteq> keys l'"
    "keys l' \<subseteq> keys l \<union> set (ancestors path)"
    "\<forall>k. inum_ok k \<longrightarrow> k \<noteq> p \<longrightarrow> k \<noteq> n \<longrightarrow> inode_at s' k = inode_at s k"
    "inode_at s' n = (inode_at s n)\<lparr>allocated := False\<rparr>"
    by (rule custom_unlink_ok [OF assms(1,2,6-9,3-5)]) blast
  have sole: "sole_entry N p name n" "p \<in> nodes N" using present_nodes [OF assms(2)] by blast+
  then have "p \<noteq> -1" using volume_node [OF assms(1) sole(2)] by (auto simp: inum_ok_def)
  then have gone: "resolve (leave N p name n) path = -1"
    using assms(2) sole(1) resolve_left by (auto simp: present_in_def)
  have "n \<notin> snd ` set (without path l')"
  proof
    assume "n \<in> snd ` set (without path l')"
    then obtain k where k: "(k, n) \<in> set l'" "k \<noteq> path" by (auto simp: without_def)
    then have "k \<in> keys l \<union> set (ancestors path)" using r(7) by force
    then show False using k assms(10) r(5) by (auto simp: cache_ok_def)
  qed
  with cache_ok_leave [OF sole(1) cache_ok_without [OF r(5)]]
  have "cache_ok (leave N p name n) (without path l')" by blast
  with r gone show ?thesis by blast
qed

theorem unlink_removes_the_name_witness:
  "\<exists>(s :: fstate) s'. custom_unlink 7 s ''/f'' = Some (0, s') \<and> {30000, 30001} \<subseteq> free_set s' \<and>
    inode_at s' 5 = sample_file\<lparr>allocated := False\<rparr>"
proof -
  obtain c where c: "lru_rep c [(''/.'', 2), (''/f'', 5)]"
    "room_for c [(''/.'', 2), (''/f'', 5)] (set (ancestors ''/f''))" by (rule two_paths [of "''/.''" 2]) auto
  obtain s :: fstate where s: "volume_ok s one_file_tree" "iname_cache s = c" "free_set s = {26215, 26216}"
    "inode_at s 2 = sample_dir" "inode_at s 5 = sample_file" "dir_ok s sample_dir [one_file]"
    by (rule one_file_volume [of c])
  note U = one_file_unlinkable [OF s(3-6)]
  have own: "owned (blocks s) (inode_at s 5) = [30000, 30001]"
    unfolding s(5) by (subst owned_direct) (simp_all add: sample_file_def eval_nat_numeral)
  have k: "cache_ok one_file_tree [(''/.'', 2), (''/f'', 5)]" by (simp add: cache_ok_def one_file_resolve)
  have "set (ancestors ''/f'') = {''/f''}" using one_step_path(3) [of "''f''"] by simp
  with unlink_removes_the_name [OF s(1) U(3,1,2), of 7 "[(''/.'', 2), (''/f'', 5)]"] c k s(2,5) own
  show ?thesis by (auto simp: in_s64_def one_file_resolve)
qed

text \<open>
  C13: unlinking removes only the path it was called with from the cache. With a second spelling
  of the path to the file in the cache, such as the one with a slash behind it that lookups below
  a directory leave, the unlink frees the blocks of the file and clears \<open>allocated\<close> of its inode,
  the tree has no path to the inode any more, and the lookup of the second spelling still gives
  its number.
\<close>

theorem unlink_leaves_other_paths_in_the_cache:
  fixes s :: "'a fstate_scheme"
  assumes "volume_ok s N" "present_in N path p name n"
    and "unlinkable s p name n D" "N p = map_of (dir_names D)" "in_s64 now"
    and "lru_rep (iname_cache s) l" "cache_ok N l" "room_for (iname_cache s) l (set (ancestors path))"
    and "(k, n) \<in> set l" "k \<noteq> path"
  shows "\<exists>s' s''. custom_unlink now s path = Some (0, s') \<and>
    volume_ok s' (leave N p name n) \<and> n \<notin> nodes (leave N p name n) \<and>
    read_inode s' n = Some (Some ((inode_at s n)\<lparr>allocated := False\<rparr>)) \<and>
    set (owned (blocks s) (inode_at s n)) \<subseteq> free_set s' \<and>
    get_inode_num_from_path s' k = Some (n, s'')"
proof -
  have other: "\<exists>k \<in> keys l. k \<noteq> path" using assms(9,10) by force
  obtain s' l' where r: "custom_unlink now s path = Some (0, s')"
    "lru_rep (iname_cache s') (without path l')" "cache_ok N l'" "keys l \<subseteq> keys l'"
    "volume_ok s' (leave N p name n)" "free_set s \<union> set (owned (blocks s) (inode_at s n)) \<subseteq> free_set s'"
    "inode_at s' n = (inode_at s n)\<lparr>allocated := False\<rparr>"
    by (rule custom_unlink_ok [OF assms(1,2,6-8) other assms(3-5)]) blast
  have sole: "sole_entry N p name n" using present_nodes [OF assms(2)] by blast
  have kn: "n = resolve N k" "0 < n" using assms(7,9) by (auto simp: cache_ok_def)
  then have root: "k \<noteq> ''/''" using sole resolve_root by (auto simp: sole_entry_def)
  have "k \<in> keys l'" using r(4) assms(9) by force
  then obtain v where "map_of l' k = Some v" by (cases "map_of l' k") (auto simp: map_of_eq_None_iff)
  moreover from this have "v = n" using r(3) kn(1) by (auto simp: cache_ok_def dest: map_of_SomeD)
  ultimately have "map_of (without path l') k = Some n"
    using assms(10) map_of_without_upd [of path l'] by simp
  then obtain c where "get_inode_num_from_path s' k = Some (n, s'\<lparr>iname_cache := c\<rparr>)"
    by (rule cached_lookup [OF r(2) _ kn(2) root])
  moreover have "read_inode s' n = Some (Some (inode_at s' n))"
  proof -
    have "healthy s'" "sb_ok s'" using r(5) by (simp_all add: volume_ok_def fl_inv_def)
    moreover have "inum_ok n" using volume_node [OF assms(1), of n] present_nodes [OF assms(2)] by blast
    ultimately show ?thesis by (rule read_inode_ok)
  qed
  moreover have "n \<notin> nodes (leave N p name n)" using nodes_leave [OF sole] by blast
  ultimately show ?thesis using r(1,5-7) by auto
qed

theorem unlink_leaves_other_paths_in_the_cache_witness:
  "\<exists>(s :: fstate) s' s''. custom_unlink 7 s ''/f'' = Some (0, s') \<and>
    get_inode_num_from_path s' ''/f/'' = Some (5, s'') \<and>
    read_inode s' 5 = Some (Some (sample_file\<lparr>allocated := False\<rparr>))"
proof -
  obtain c where c: "lru_rep c [(''/f/'', 5), (''/f'', 5)]"
    "room_for c [(''/f/'', 5), (''/f'', 5)] (set (ancestors ''/f''))" by (rule two_paths [of "''/f/''" 5]) auto
  obtain s :: fstate where s: "volume_ok s one_file_tree" "iname_cache s = c" "free_set s = {26215, 26216}"
    "inode_at s 2 = sample_dir" "inode_at s 5 = sample_file" "dir_ok s sample_dir [one_file]"
    by (rule one_file_volume [of c])
  note U = one_file_unlinkable [OF s(3-6)]
  have k: "cache_ok one_file_tree [(''/f/'', 5), (''/f'', 5)]" by (simp add: cache_ok_def one_file_resolve)
  from unlink_leaves_other_paths_in_the_cache [OF s(1) U(3,1,2), of 7 "[(''/f/'', 5), (''/f'', 5)]" "''/f/''"] c k s(2,5)
  show ?thesis by (auto simp: in_s64_def)
qed

end
