(* ===== verification/ReadDir.thy ===== *)
theory ReadDir
  imports FuseLayer Unlink
begin

text \<open>
  Listing a directory (\<open>charm_readdir\<close> of \<open>lib/fuse_layer.c\<close>): the walk over the records of its
  blocks hands to the filler each name of the directory, once, with the attributes of its inode.
\<close>

section \<open>One block\<close>

lemma byte_of_char: "char_of (uint (of_char c :: byte)) = c"
proof -
  have "(of_char c :: byte) = of_nat (of_char c)" by (simp add: of_nat_of_char)
  moreover have "(of_char c :: nat) mod 2 ^ 8 = of_char c" by simp
  ultimately have "unat (of_char c :: byte) = of_char c" by (simp add: unat_of_nat)
  then have "uint (of_char c :: byte) = of_char c"
    by (simp add: uint_nat of_nat_of_char)
  then show ?thesis by simp
qed

lemma read_name_ok:
  assumes "\<forall>k < length nm. b (p + int k) = of_char (nm ! k)" "CHR 0x00 \<notin> set nm"
    and "0 \<le> p" "p + int (length nm) \<le> 4096"
  shows "read_name b p (int (length nm)) = Some nm"
proof -
  have "map (\<lambda>i. char_of (uint (b (p + int i)))) [0..<length nm] = nm"
    using assms(1) by (intro nth_equalityI) (simp_all add: byte_of_char)
  moreover have "takeWhile (\<lambda>c. c \<noteq> CHR 0x00) nm = nm" using assms(2) by (auto simp: takeWhile_eq_all_conv)
  ultimately show ?thesis using assms(3,4) by (simp add: read_name_def in_block_def geometry)
qed

text \<open>What the filler gets for a record.\<close>

definition listed :: "'a disk_scheme \<Rightarrow> string \<times> int \<Rightarrow> string \<times> stat" where
  "listed s = (\<lambda>(nm, n). (nm, (inode_to_stdbuff (inode_at s n) empty_stat)\<lparr>st_ino := n\<rparr>))"

text \<open>Every record is in use, refers to an inode of the table, and its name has no NUL.\<close>

definition listable :: "dir_rec list \<Rightarrow> bool" where
  "listable rs \<longleftrightarrow> list_all (\<lambda>(n, nm, d). n \<noteq> 0 \<and> CHR 0x00 \<notin> set nm) rs"

lemma readdir_block_ok:
  assumes "dir_recs b p rs" "0 \<le> p" "listable rs" "\<forall>(nm, n) \<in> set (live rs). inum_ok n"
    and s: "healthy s" "sb_ok s"
  shows "readdir_block s b p acc = Some (acc @ map (listed s) (live rs))"
  using assms(1-4)
proof (induction rs arbitrary: p acc)
  case Nil
  then show ?case by (subst readdir_block.simps) (simp add: geometry)
next
  case (Cons r rs)
  obtain n nm d where r: "r = (n, nm, d)" by (cases r)
  with Cons.prems have R: "ld_s64 b p = n" "ld_s64 b (p + 8) = d" "ld_u16 b (p + 16) = int (length nm)"
    "\<forall>k < length nm. b (p + 18 + int k) = of_char (nm ! k)" "18 + int (length nm) \<le> d"
    "dir_recs b (p + d) rs" by auto
  have e: "p + d \<le> 4096" using R(6) by (rule dir_recs_end)
  have rd: "rd_s64 b p = Some n" "rd_s64 b (p + 8) = Some d" "rd_u16 b (p + 16) = Some (int (length nm))"
    using R(1-3,5) e Cons.prems(2) by (auto simp: rd_s64_def rd_u16_def in_block_def geometry)
  have n: "n \<noteq> 0" "CHR 0x00 \<notin> set nm" "listable rs" using Cons.prems(3) r by (simp_all add: listable_def)
  have name: "read_name b (p + 18) (int (length nm)) = Some nm"
    using read_name_ok [OF R(4) n(2)] R(5) e Cons.prems(2) by simp
  have node: "read_inode s n = Some (Some (inode_at s n))"
    using read_inode_ok [OF s] Cons.prems(4) r n(1) by simp
  have "readdir_block s b (p + d) acc' = Some (acc' @ map (listed s) (live rs))" for acc'
    using Cons.IH [OF R(6) _ n(3)] Cons.prems(2,4) R(5) r by simp
  then show ?case
    using rd name node R(5) e r n(1)
    by (subst readdir_block.simps) (simp add: geometry add.assoc listed_def)
qed

section \<open>All blocks\<close>

lemma readdir_loop_ok:
  assumes d: "dir_ok s i D" and D: "list_all listable D" "\<forall>(nm, n) \<in> set (dir_names D). inum_ok n"
    and s: "healthy s" "sb_ok s"
  shows "for_loop 0 (num_blocks i) (readdir_step s i) [] = Some (Inl (map (listed s) (dir_names D)))"
proof -
  have i: "wf_file s i" "int (length D) = num_blocks i"
    "\<And>k. k < length D \<Longrightarrow> dir_recs (blocks s (fblk (blocks s) i (int k))) 0 (D ! k)"
    using d by (auto simp: dir_ok_def)
  let ?I = "\<lambda>k acc. acc = map (listed s) (dir_names (take (nat k) D))"
  have "\<exists>acc. for_loop 0 (num_blocks i) (readdir_step s i) [] = Some (Inl acc) \<and> ?I (num_blocks i) acc"
  proof (rule for_loop_total [where I = ?I])
    fix k acc assume k: "0 \<le> k" "k < num_blocks i" and I: "?I k acc"
    note F = fetch_block [OF s(1) i(1) k]
    have nk: "nat k < length D" "int (nat k) = k" using k i(2) by simp_all
    then have recs: "dir_recs (blocks s (fblk (blocks s) i k)) 0 (D ! nat k)" using i(3) [of "nat k"] by simp
    have ok: "listable (D ! nat k)" "\<forall>(nm, n) \<in> set (live (D ! nat k)). inum_ok n"
      using D nk(1) by (auto simp: list_all_length dir_names_def)
    have "readdir_step s i k acc = Some (Next (acc @ map (listed s) (live (D ! nat k))))"
      using readdir_block_ok [OF recs _ ok s] F by (simp add: readdir_step_def)
    moreover have "take (nat (k + 1)) D = take (nat k) D @ [D ! nat k]"
      using k nk(1) by (simp add: nat_add_distrib take_Suc_conv_app_nth)
    ultimately show "\<exists>s'. readdir_step s i k acc = Some (Next s') \<and> ?I (k + 1) s'"
      using I by (simp add: dir_names_def)
  qed (use i(2) in \<open>simp_all add: dir_names_def\<close>)
  then show ?thesis using i(2) by auto
qed

lemma readdir_loop_never: "for_loop i hi (readdir_step s j) acc \<noteq> Some (Inr x)"
  by (rule for_loop_Inr_never) (simp add: readdir_step_def bind_eq_Some_conv)

text \<open>Whatever a listing returns, only the lookup changed the state.\<close>

lemma charm_readdir_state:
  fixes s :: "'a fstate_scheme"
  assumes r: "charm_readdir s path = Some (r, filled, s')" and g: "get_inode_num_from_path s path = Some (n, t)"
  shows "s' = t"
proof (cases "n = -1")
  case True
  then show ?thesis using r g by (simp add: charm_readdir_def)
next
  case False
  then obtain i where i: "read_inode t n = Some (Some i)"
    using r g by (auto simp: charm_readdir_def bind_eq_Some_conv)
  show ?thesis
  proof (cases "S_ISDIR (mode i)")
    case False
    then show ?thesis using r g i \<open>n \<noteq> -1\<close> by (simp add: charm_readdir_def)
  next
    case True
    obtain x :: "(string \<times> stat) list + int \<times> (string \<times> stat) list \<times> 'a fstate_scheme" where
      x: "for_loop 0 (num_blocks i) (readdir_step t i) [] = Some x"
        "(case x of Inl filled \<Rightarrow> Some (0, filled, t) | Inr y \<Rightarrow> Some y) = Some (r, filled, s')"
      using r g i True \<open>n \<noteq> -1\<close> by (auto simp: charm_readdir_def bind_eq_Some_conv)
    then show ?thesis by (cases x) (auto simp: readdir_loop_never)
  qed
qed

section \<open>Properties\<close>

text \<open>
  C12: listing a directory calls the filler once for every name of the directory, with the
  number the directory has for it and the attributes of that inode, and changes nothing but the
  cache.
\<close>

theorem readdir_lists_the_directory:
  fixes s :: "'a fstate_scheme"
  assumes "volume_ok s N" "resolve N path = n" "n \<noteq> -1"
    and "dir_ok s (inode_at s n) D" "N n = map_of (dir_names D)" "list_all listable D"
    and "lru_rep (iname_cache s) l" "cache_ok N l" "room_for (iname_cache s) l (set (ancestors path))"
  shows "\<exists>filled c. charm_readdir s path = Some (0, filled, s\<lparr>iname_cache := c\<rparr>) \<and>
    distinct (map fst filled) \<and> map_of (map (\<lambda>(nm, st). (nm, st_ino st)) filled) = N n \<and>
    (\<forall>(nm, st) \<in> set filled. st = (inode_to_stdbuff (inode_at s (st_ino st)) empty_stat)\<lparr>st_ino := st_ino st\<rparr>)"
proof -
  have v: "fl_inv s" "sb_ok s" "tree_ok s N" using assms(1) by (simp_all add: volume_ok_def)
  have d: "distinct (map fst (dir_names D))" "S_ISDIR (mode (inode_at s n))" using assms(4) by (simp_all add: dir_ok_def)
  have n: "inum_ok n" using volume_node [OF assms(1)] resolve_node [of N path] assms(2,3) by blast
  have "inum_ok m" if "(nm, m) \<in> set (dir_names D)" for nm m
  proof -
    have "N n nm = Some m" using that d(1) assms(5) by simp
    then have "m \<in> nodes N" by (auto simp: nodes_def)
    then show ?thesis using volume_node [OF assms(1)] by blast
  qed
  then have inums: "\<forall>(nm, m) \<in> set (dir_names D). inum_ok m" by blast
  obtain c where c: "get_inode_num_from_path s path = Some (n, s\<lparr>iname_cache := c\<rparr>)"
    using lookup_resolves [OF v(1-3) assms(7-9)] assms(2) by auto
  let ?s = "s\<lparr>iname_cache := c\<rparr>"
  have "fl_inv ?s" using v(1) by simp
  then have h': "healthy ?s" by (simp add: fl_inv_def)
  have dir: "dir_ok ?s (inode_at s n) D" and sb: "sb_ok ?s" using assms(4) v(2) by simp_all
  note loop = readdir_loop_ok [OF dir assms(6) inums h' sb]
  have rd: "read_inode ?s n = Some (Some (inode_at s n))" using read_inode_ok [of ?s n] h' v(2) n by simp
  have "charm_readdir s path = Some (0, map (listed ?s) (dir_names D), ?s)"
    using c assms(3) rd d(2) by (simp add: charm_readdir_def loop)
  moreover have "distinct (map fst (map (listed ?s) (dir_names D)))"
    using d(1) by (simp add: listed_def split_def o_def)
  moreover have "map_of (map (\<lambda>(nm, st). (nm, st_ino st)) (map (listed ?s) (dir_names D))) = N n"
    unfolding assms(5) by (simp add: listed_def split_def o_def)
  moreover have "\<forall>(nm, st) \<in> set (map (listed ?s) (dir_names D)).
      st = (inode_to_stdbuff (inode_at s (st_ino st)) empty_stat)\<lparr>st_ino := st_ino st\<rparr>"
    by (simp add: listed_def split_def)
  ultimately show ?thesis by (intro exI conjI)
qed

theorem readdir_lists_the_directory_witness:
  "\<exists>(s :: fstate) filled s'. charm_readdir s ''/'' = Some (0, filled, s') \<and>
    map_of (map (\<lambda>(nm, st). (nm, st_ino st)) filled) = [''.'' \<mapsto> 2, ''..'' \<mapsto> 2, ''f'' \<mapsto> 5]"
proof -
  obtain s :: fstate where s: "volume_ok s one_file_tree" "iname_cache s = empty_cache"
    "inode_at s 2 = sample_dir" "dir_ok s sample_dir [one_file]"
    by (rule one_file_volume [of empty_cache])
  have D: "one_file_tree 2 = map_of (dir_names [one_file])"
    by (simp add: fun_eq_iff dir_names_def one_file_def one_file_tree_def)
  have r: "resolve one_file_tree ''/'' = 2" by (simp add: resolve_root ROOT_INODE_def)
  have k: "cache_ok one_file_tree []" "room_for empty_cache [] (set (ancestors ''/''))"
    using empty_cache_rep(2,3) by (simp_all add: cache_ok_def room_for_def ancestors_root)
  have l: "list_all listable [one_file]" by (simp add: listable_def one_file_def)
  have "dir_ok s (inode_at s 2) [one_file]" using s(3,4) by simp
  from readdir_lists_the_directory [OF s(1) r _ this D l, of "[]"] k s(2) empty_cache_rep(1)
  obtain filled c where "charm_readdir s ''/'' = Some (0, filled, s\<lparr>iname_cache := c\<rparr>)"
    "map_of (map (\<lambda>(nm, st). (nm, st_ino st)) filled) = one_file_tree 2" by auto
  then show ?thesis by (auto simp: one_file_tree_def)
qed

end
