(* ===== verification/Refusals.thy ===== *)
theory Refusals
  imports FuseLayer Unlink
begin

text \<open>
  Callbacks that are refused: a path that leads nowhere, a name that is taken, a directory that
  is not there, a directory that is not empty. Nothing but the cache changes, and the value
  FUSE gets is the one the code returns, which is not always an error.
\<close>

section \<open>One lookup\<close>

lemma lookup_once:
  fixes s :: "'a fstate_scheme"
  assumes "volume_ok s N"
    and "lru_rep (iname_cache s) l" "cache_ok N l" "room_for (iname_cache s) l (set (ancestors path))"
  obtains c l' where "get_inode_num_from_path s path = Some (resolve N path, s\<lparr>iname_cache := c\<rparr>)"
    "cache_after N (iname_cache s) l (set (ancestors path)) c l'"
proof -
  have "fl_inv s" "sb_ok s" "tree_ok s N" using assms(1) by (simp_all add: volume_ok_def)
  from lookup_resolves [OF this assms(2-4)] that show thesis by blast
qed

lemma volume_read:
  fixes s :: "'a fstate_scheme"
  assumes "volume_ok s N" "resolve N path \<noteq> -1"
  shows "read_inode (s\<lparr>iname_cache := c\<rparr>) (resolve N path) = Some (Some (inode_at s (resolve N path)))"
proof -
  have "resolve N path \<in> nodes N" using resolve_node [of N path] assms(2) by blast
  then have "inum_ok (resolve N path)" using volume_node [OF assms(1)] by blast
  moreover have "fl_inv (s\<lparr>iname_cache := c\<rparr>)" "sb_ok s" using assms(1) by (simp_all add: volume_ok_def)
  ultimately show ?thesis using read_inode_ok [of "s\<lparr>iname_cache := c\<rparr>"] by (simp add: fl_inv_def)
qed

lemma root_has_no_parent: "get_parent_path ''/'' (int (length ''/'')) = None"
  by code_simp

text \<open>The lookup of the directory and then of the path itself, as the code does them.\<close>

lemma lookup_twice:
  fixes s :: "'a fstate_scheme"
  assumes v: "volume_ok s N" and q: "get_parent_path path (int (length path)) = Some q"
    and c: "lru_rep (iname_cache s) l" "cache_ok N l" "room_for (iname_cache s) l (set (ancestors path))"
  obtains c1 l1 c2 l2 where "get_inode_num_from_path s q = Some (resolve N q, s\<lparr>iname_cache := c1\<rparr>)"
    "cache_after N (iname_cache s) l (set (ancestors path)) c1 l1"
    "get_inode_num_from_path (s\<lparr>iname_cache := c1\<rparr>) path = Some (resolve N path, s\<lparr>iname_cache := c2\<rparr>)"
    "cache_after N c1 l1 (set (ancestors path)) c2 l2"
proof -
  have "path \<noteq> ''/''" using q root_has_no_parent by auto
  then have sub: "set (ancestors q) \<subseteq> set (ancestors path)" using ancestors_step [of path] q by auto
  obtain c1 l1 where 1: "get_inode_num_from_path s q = Some (resolve N q, s\<lparr>iname_cache := c1\<rparr>)"
    "cache_after N (iname_cache s) l (set (ancestors q)) c1 l1"
    by (rule lookup_once [OF v c(1,2) room_for_mono [OF c(3) sub]]) simp
  have room: "room_for c1 l1 (set (ancestors path))" by (rule room_for_after [OF c(3) 1(2) sub]) simp
  have k: "volume_ok (s\<lparr>iname_cache := c1\<rparr>) N" "lru_rep c1 l1" "cache_ok N l1"
    using v 1(2) by (simp_all add: volume_ok_def cache_after_def)
  obtain c2 l2 where "get_inode_num_from_path (s\<lparr>iname_cache := c1\<rparr>) path = Some (resolve N path, s\<lparr>iname_cache := c2\<rparr>)"
    "cache_after N c1 l1 (set (ancestors path)) c2 l2"
    by (rule lookup_once [OF k(1), of l1 path]) (use k(2,3) room in simp_all)
  then show thesis by (rule that [OF 1(1) cache_after_mono [OF 1(2) sub]])
qed

section \<open>Creating where nothing can be created\<close>

text \<open>The name is taken, or there is no directory to enter it in.\<close>

definition creation_refused :: "'a disk_scheme \<Rightarrow> dir_tree \<Rightarrow> string \<Rightarrow> bool" where
  "creation_refused s N path \<longleftrightarrow> resolve N path \<noteq> -1 \<or>
     (case get_parent_path path (int (length path)) of None \<Rightarrow> True
      | Some q \<Rightarrow> resolve N q = -1 \<or> \<not> S_ISDIR (mode (inode_at s (resolve N q))))"

lemma create_new_file_refused:
  fixes s :: "'a fstate_scheme"
  assumes v: "volume_ok s N" and x: "creation_refused s N path"
    and c: "lru_rep (iname_cache s) l" "cache_ok N l" "room_for (iname_cache s) l (set (ancestors path))"
  obtains e c' l' where "e \<le> -1" "\<And>now m. create_new_file now s path m = Some (e, None, s\<lparr>iname_cache := c'\<rparr>)"
    "lru_rep c' l'" "cache_ok N l'"
proof (cases "get_parent_path path (int (length path))")
  case None
  have "create_new_file now s path m = Some (- ENOENT, None, s\<lparr>iname_cache := iname_cache s\<rparr>)" for now m
    using None by (simp add: create_new_file_def)
  then show thesis by (rule that [OF _ _ c(1,2), rotated]) (simp add: ENOENT_def)
next
  case (Some q)
  obtain c1 l1 c2 l2 where L: "get_inode_num_from_path s q = Some (resolve N q, s\<lparr>iname_cache := c1\<rparr>)"
    "cache_after N (iname_cache s) l (set (ancestors path)) c1 l1"
    "get_inode_num_from_path (s\<lparr>iname_cache := c1\<rparr>) path = Some (resolve N path, s\<lparr>iname_cache := c2\<rparr>)"
    "cache_after N c1 l1 (set (ancestors path)) c2 l2" by (rule lookup_twice [OF v Some c])
  have k: "lru_rep c1 l1" "cache_ok N l1" "lru_rep c2 l2" "cache_ok N l2"
    using L(2,4) by (simp_all add: cache_after_def)
  show thesis
  proof (cases "resolve N q = -1")
    case True
    have "create_new_file now s path m = Some (- ENOENT, None, s\<lparr>iname_cache := c1\<rparr>)" for now m
      using Some L(1) True by (simp add: create_new_file_def)
    then show thesis by (rule that [OF _ _ k(1,2), rotated]) (simp add: ENOENT_def)
  next
    case parent: False
    show thesis
    proof (cases "resolve N path = -1")
      case True
      have "\<not> S_ISDIR (mode (inode_at s (resolve N q)))" using x Some True parent by (simp add: creation_refused_def)
      then have "create_new_file now s path m = Some (- ENOENT, None, s\<lparr>iname_cache := c2\<rparr>)" for now m
        using Some L(1,3) parent True volume_read [OF v parent, of c2] by (simp add: create_new_file_def)
      then show thesis by (rule that [OF _ _ k(3,4), rotated]) (simp add: ENOENT_def)
    next
      case False
      have "create_new_file now s path m = Some (- EEXIST, None, s\<lparr>iname_cache := c2\<rparr>)" for now m
        using Some L(1,3) parent False by (simp add: create_new_file_def)
      then show thesis by (rule that [OF _ _ k(3,4), rotated]) (simp add: EEXIST_def)
    qed
  qed
qed

lemma creation_refused_ok:
  fixes s :: "'a fstate_scheme"
  assumes "volume_ok s N" "creation_refused s N path"
    and "lru_rep (iname_cache s) l" "cache_ok N l" "room_for (iname_cache s) l (set (ancestors path))"
  obtains c l' where "\<And>now m dev. charm_mknod now s path m dev = Some (-1, s\<lparr>iname_cache := c\<rparr>)"
    "\<And>now m. charm_mkdir now s path m = Some (-1, s\<lparr>iname_cache := c\<rparr>)"
    "\<And>now m flags. charm_create now s path m flags = Some (-1, s\<lparr>iname_cache := c\<rparr>)"
    "lru_rep c l'" "cache_ok N l'"
proof -
  obtain e c l' where e: "e \<le> -1" "\<And>now m. create_new_file now s path m = Some (e, None, s\<lparr>iname_cache := c\<rparr>)"
    and l: "lru_rep c l'" "cache_ok N l'" by (rule create_new_file_refused [OF assms]) blast
  show thesis
    by (rule that [OF _ _ _ l])
      (simp_all add: charm_mknod_def charm_mkdir_def charm_create_def custom_mknod_def custom_mkdir_def e)
qed

section \<open>A path that leads nowhere\<close>

lemma missing_path_ok:
  fixes s :: "'a fstate_scheme"
  assumes "volume_ok s N" "resolve N path = -1"
    and "lru_rep (iname_cache s) l" "cache_ok N l" "room_for (iname_cache s) l (set (ancestors path))"
  obtains c l' where "lru_rep c l'" "cache_ok N l'"
    "\<And>m. charm_access s path m = Some (- ENOENT, s\<lparr>iname_cache := c\<rparr>)"
    "\<And>m. charm_chmod s path m = Some (- ENOENT, s\<lparr>iname_cache := c\<rparr>)"
    "charm_getattr s path = Some (- ENOENT, empty_stat, s\<lparr>iname_cache := c\<rparr>)"
    "charm_readdir s path = Some (- ENOENT, [], s\<lparr>iname_cache := c\<rparr>)"
    "\<And>a. charm_truncate s path a = Some (-1, s\<lparr>iname_cache := c\<rparr>)"
    "\<And>now buff k a. charm_write now s path buff k a = Some (-1, s\<lparr>iname_cache := c\<rparr>)"
    "\<And>now buff k a. k \<le> int (length buff) \<Longrightarrow> charm_read now s path buff k a =
       Some (-1, replicate (nat k) 0 @ drop (nat k) buff, s\<lparr>iname_cache := c\<rparr>)"
    "\<And>now. charm_unlink now s path = Some (0, s\<lparr>iname_cache := c\<rparr>)"
    "\<And>now. charm_rmdir now s path = Some (0, s\<lparr>iname_cache := c\<rparr>)"
    "\<And>now errno new. charm_rename now errno s path new = Some (- errno, s\<lparr>iname_cache := c\<rparr>)"
proof -
  obtain c l' where g: "get_inode_num_from_path s path = Some (-1, s\<lparr>iname_cache := c\<rparr>)"
    and l: "lru_rep c l'" "cache_ok N l'"
    using lookup_once [OF assms(1,3-5)] assms(2) unfolding cache_after_def by metis
  have int: "to_int (-1) = -1" by (simp add: to_int_def)
  have u: "custom_unlink now s path = Some (- EEXIST, s\<lparr>iname_cache := c\<rparr>)" for now
    using g by (simp add: custom_unlink_def)
  have a: "charm_access s path m = Some (- ENOENT, s\<lparr>iname_cache := c\<rparr>)" for m
    using g by (simp add: charm_access_def)
  show thesis
    by (rule that [OF l a])
      (simp_all add: charm_chmod_def charm_getattr_def charm_readdir_def charm_truncate_def custom_truncate_def
        charm_write_def custom_write_def charm_read_def custom_read_def charm_unlink_def charm_rmdir_def
        charm_rename_def g u a int EEXIST_def ENOENT_def)
qed

section \<open>A directory that is not empty\<close>

text \<open>A record behind the one for the parent keeps that one from reaching the end of the block.\<close>

lemma dir_find_inner:
  assumes "dir_recs b p (xs @ (n, name, d) # ys)" "0 \<le> p" "ys \<noteq> []" "n \<noteq> 0"
    and "distinct (map fst (live (xs @ (n, name, d) # ys)))"
  obtains q r where "dir_find name p prev (xs @ (n, name, d) # ys) = Found q r" "0 \<le> q" "q + 16 \<le> 4096"
    "q + ld_s64 b (q + 8) \<noteq> 4096"
proof -
  have "\<exists>q r. dir_find name p prev (xs @ (n, name, d) # ys) = Found q r \<and> 0 \<le> q \<and> q + 16 \<le> 4096 \<and>
      q + ld_s64 b (q + 8) \<noteq> 4096"
    using assms
  proof (induction xs arbitrary: p prev)
    case Nil
    then obtain m nm e zs where ys: "ys = (m, nm, e) # zs" by (cases ys) auto
    have R: "ld_s64 b (p + 8) = d" "18 + int (length name) \<le> d" "18 + int (length nm) \<le> e"
      "dir_recs b (p + d + e) zs" using Nil.prems(1) by (simp_all add: ys)
    have "p + d + e \<le> 4096" using R(4) by (rule dir_recs_end)
    then show ?case using R(1-3) Nil.prems(2,4) by simp
  next
    case (Cons x xs)
    obtain m nm e where x: "x = (m, nm, e)" by (cases x)
    have R: "18 + int (length nm) \<le> e" "dir_recs b (p + e) (xs @ (n, name, d) # ys)"
      using Cons.prems(1) by (simp_all add: x)
    have other: "\<not> (m \<noteq> 0 \<and> nm = name)"
      using Cons.prems(4,5) by (auto simp: x live_def)
    have "distinct (map fst (live (xs @ (n, name, d) # ys)))" using Cons.prems(5) by (auto simp: x split: if_splits)
    moreover have "dir_find name p prev ((x # xs) @ (n, name, d) # ys) = dir_find name (p + e) p (xs @ (n, name, d) # ys)"
      using other by (auto simp: x)
    ultimately show ?case using Cons.IH [OF R(2) _ Cons.prems(3,4), of p] R(1) Cons.prems(2) by simp
  qed
  then show thesis using that by blast
qed

text \<open>More than one block, or a record behind the one for the parent.\<close>

definition has_more :: "dir_rec list list \<Rightarrow> bool" where
  "has_more D \<longleftrightarrow> length D > 1 \<or>
     (\<exists>xs n d ys. D = [xs @ (n, ''..'', d) # ys] \<and> ys \<noteq> [] \<and> n \<noteq> 0)"

lemma is_empty_dir_not:
  assumes "fl_inv s" "dir_ok s i D" "has_more D"
  shows "is_empty_dir s i = Some False"
proof (cases "length D > 1")
  case True
  then show ?thesis using assms(2) by (simp add: dir_ok_def is_empty_dir_def)
next
  case False
  then obtain xs n d ys where D: "D = [xs @ (n, ''..'', d) # ys]" "ys \<noteq> []" "n \<noteq> 0"
    using assms(3) by (auto simp: has_more_def)
  let ?rs = "xs @ (n, ''..'', d) # ys"
  have i: "num_blocks i = 1" "distinct (map fst (live ?rs))" "dir_recs (blocks s (fblk (blocks s) i 0)) 0 ?rs"
    using assms(2) by (auto simp: dir_ok_def dir_names_one D(1))
  obtain q r where q: "dir_find ''..'' 0 (-1) ?rs = Found q r" "0 \<le> q" "q + 16 \<le> 4096"
    "q + ld_s64 (blocks s (fblk (blocks s) i 0)) (q + 8) \<noteq> 4096"
    by (rule dir_find_inner [OF i(3) _ D(2,3) i(2)]) simp
  show ?thesis
  proof (cases rule: find_file_cases [OF assms(1,2), of "''..''"])
    case (1 fp)
    have "''..'' \<in> fst ` set (live ?rs)" using D(3) by (force simp: live_def)
    then show ?thesis using 1(3) by (simp add: dir_names_one map_of_eq_None_iff D(1))
  next
    case (2 fp k)
    then show ?thesis using q i(1) D(1)
      by (auto simp: is_empty_dir_def found_at_def rd_s64_def in_block_def geometry)
  qed
qed

lemma unlink_not_empty:
  fixes s :: "'a fstate_scheme"
  assumes v: "volume_ok s N" and n: "resolve N path = n" "n \<noteq> -1" "dir_ok s (inode_at s n) D" "has_more D"
    and c: "lru_rep (iname_cache s) l" "cache_ok N l" "room_for (iname_cache s) l (set (ancestors path))"
  obtains c' l' where "\<And>now. custom_unlink now s path = Some (- ENOTEMPTY, s\<lparr>iname_cache := c'\<rparr>)"
    "lru_rep c' l'" "cache_ok N l'"
proof -
  obtain c' l' where g: "get_inode_num_from_path s path = Some (n, s\<lparr>iname_cache := c'\<rparr>)"
    and l: "lru_rep c' l'" "cache_ok N l'"
    using lookup_once [OF v c] n(1) unfolding cache_after_def by metis
  have "fl_inv (s\<lparr>iname_cache := c'\<rparr>)" "dir_ok (s\<lparr>iname_cache := c'\<rparr>) (inode_at s n) D"
    using v n(3) by (simp_all add: volume_ok_def)
  then have e: "is_empty_dir (s\<lparr>iname_cache := c'\<rparr>) (inode_at s n) = Some False" using n(4) by (rule is_empty_dir_not)
  have d: "S_ISDIR (mode (inode_at s n))" using n(3) by (simp add: dir_ok_def)
  have "custom_unlink now s path = Some (- ENOTEMPTY, s\<lparr>iname_cache := c'\<rparr>)" for now
    using g n(2) volume_read [OF v, of path c'] e d by (simp add: custom_unlink_def n(1))
  then show thesis using l by (rule that)
qed

lemma one_file_empty_cache:
  obtains s :: fstate where "volume_ok s one_file_tree" "lru_rep (iname_cache s) []" "cache_ok one_file_tree []"
    "\<forall>P. card P \<le> 1 \<longrightarrow> finite P \<longrightarrow> room_for (iname_cache s) [] P"
    "dir_ok s (inode_at s 2) [one_file]"
proof -
  obtain s :: fstate where s: "volume_ok s one_file_tree" "iname_cache s = empty_cache" "inode_at s 2 = sample_dir"
    "dir_ok s sample_dir [one_file]" by (rule one_file_volume [of empty_cache])
  have "room_for empty_cache [] P" if "card P \<le> 1" "finite P" for P
  proof -
    have "inj_on f P" for f :: "string \<Rightarrow> nat"
      using that by (simp add: inj_on_def card_le_Suc0_iff_eq)
    then show ?thesis using that(1) empty_cache_rep(2,3) by (simp add: room_for_def)
  qed
  then show thesis
    by (intro that [of s]) (simp_all add: s empty_cache_rep(1) cache_ok_def)
qed

section \<open>Properties\<close>

text \<open>
  C14: a call on a path that leads nowhere changes nothing but the cache. Reading attributes, the
  access check, changing the mode and listing report \<open>-ENOENT\<close>, reading (into a cleared
  buffer), writing and truncating -1; but \<open>charm_unlink\<close> and \<open>charm_rmdir\<close> report success, and
  \<open>charm_rename\<close> whatever \<open>errno\<close> was, negated.
\<close>

theorem missing_paths_are_reported_or_not:
  fixes s :: "'a fstate_scheme"
  assumes "volume_ok s N" "resolve N path = -1" "k \<le> int (length buff)"
    and "lru_rep (iname_cache s) l" "cache_ok N l" "room_for (iname_cache s) l (set (ancestors path))"
  shows "\<exists>c. charm_access s path m = Some (- ENOENT, s\<lparr>iname_cache := c\<rparr>) \<and>
    charm_chmod s path md = Some (- ENOENT, s\<lparr>iname_cache := c\<rparr>) \<and>
    charm_getattr s path = Some (- ENOENT, empty_stat, s\<lparr>iname_cache := c\<rparr>) \<and>
    charm_readdir s path = Some (- ENOENT, [], s\<lparr>iname_cache := c\<rparr>) \<and>
    charm_truncate s path a = Some (-1, s\<lparr>iname_cache := c\<rparr>) \<and>
    charm_write now s path buff k a = Some (-1, s\<lparr>iname_cache := c\<rparr>) \<and>
    charm_read now s path buff k a = Some (-1, replicate (nat k) 0 @ drop (nat k) buff, s\<lparr>iname_cache := c\<rparr>) \<and>
    charm_unlink now s path = Some (0, s\<lparr>iname_cache := c\<rparr>) \<and>
    charm_rmdir now s path = Some (0, s\<lparr>iname_cache := c\<rparr>) \<and>
    charm_rename now errno s path new = Some (- errno, s\<lparr>iname_cache := c\<rparr>)"
proof -
  obtain c l' where "lru_rep c l'" "cache_ok N l'"
    and M: "\<And>m. charm_access s path m = Some (- ENOENT, s\<lparr>iname_cache := c\<rparr>)"
    "\<And>m. charm_chmod s path m = Some (- ENOENT, s\<lparr>iname_cache := c\<rparr>)"
    "charm_getattr s path = Some (- ENOENT, empty_stat, s\<lparr>iname_cache := c\<rparr>)"
    "charm_readdir s path = Some (- ENOENT, [], s\<lparr>iname_cache := c\<rparr>)"
    "\<And>a. charm_truncate s path a = Some (-1, s\<lparr>iname_cache := c\<rparr>)"
    "\<And>now buff k a. charm_write now s path buff k a = Some (-1, s\<lparr>iname_cache := c\<rparr>)"
    "\<And>now buff k a. k \<le> int (length buff) \<Longrightarrow> charm_read now s path buff k a =
       Some (-1, replicate (nat k) 0 @ drop (nat k) buff, s\<lparr>iname_cache := c\<rparr>)"
    "\<And>now. charm_unlink now s path = Some (0, s\<lparr>iname_cache := c\<rparr>)"
    "\<And>now. charm_rmdir now s path = Some (0, s\<lparr>iname_cache := c\<rparr>)"
    "\<And>now errno new. charm_rename now errno s path new = Some (- errno, s\<lparr>iname_cache := c\<rparr>)"
    by (rule missing_path_ok [OF assms(1,2,4-6)]) blast
  show ?thesis by (rule exI [of _ c]) (intro conjI M M(7) assms(3))
qed

theorem missing_paths_are_reported_or_not_witness:
  "\<exists>(s :: fstate) s'. charm_unlink 7 s ''/x'' = Some (0, s') \<and> charm_access s ''/x'' 0 = Some (- ENOENT, s')"
proof -
  obtain s :: fstate where s: "volume_ok s one_file_tree" "lru_rep (iname_cache s) []" "cache_ok one_file_tree []"
    "\<forall>P. card P \<le> 1 \<longrightarrow> finite P \<longrightarrow> room_for (iname_cache s) [] P"
    by (rule one_file_empty_cache) blast
  have "set (ancestors ''/x'') = {''/x''}" using one_step_path(3) [of "''x''"] by simp
  then have room: "room_for (iname_cache s) [] (set (ancestors ''/x''))" using s(4) by simp
  have "resolve one_file_tree ''/x'' = -1"
    using resolve_step [OF _ one_step_path(1,2) [of "''x''"], of one_file_tree]
    by (simp add: resolve_root one_file_tree_def ROOT_INODE_def)
  from missing_paths_are_reported_or_not [OF s(1) this _ s(2,3) room, of 0 "[]" 0 0 0 7 0 "''/y''"] show ?thesis by auto
qed

text \<open>
  C39: creating a node, a directory or a file at a path that exists, or below a path that is
  missing or no directory, reports -1 and changes nothing but the cache.
\<close>

theorem refused_creation_changes_only_the_cache:
  fixes s :: "'a fstate_scheme"
  assumes "volume_ok s N"
    and "resolve N path \<noteq> -1 \<or> get_parent_path path (int (length path)) = Some q \<and>
      (resolve N q = -1 \<or> \<not> S_ISDIR (mode (inode_at s (resolve N q))))"
    and "lru_rep (iname_cache s) l" "cache_ok N l" "room_for (iname_cache s) l (set (ancestors path))"
  shows "\<exists>c. charm_mknod now s path m dev = Some (-1, s\<lparr>iname_cache := c\<rparr>) \<and>
    charm_mkdir now s path m = Some (-1, s\<lparr>iname_cache := c\<rparr>) \<and>
    charm_create now s path m flags = Some (-1, s\<lparr>iname_cache := c\<rparr>)"
proof -
  have r: "creation_refused s N path" using assms(2) by (auto simp: creation_refused_def)
  obtain c l' where M: "\<And>now m dev. charm_mknod now s path m dev = Some (-1, s\<lparr>iname_cache := c\<rparr>)"
    "\<And>now m. charm_mkdir now s path m = Some (-1, s\<lparr>iname_cache := c\<rparr>)"
    "\<And>now m flags. charm_create now s path m flags = Some (-1, s\<lparr>iname_cache := c\<rparr>)"
    by (rule creation_refused_ok [OF assms(1) r assms(3-5)]) blast
  show ?thesis by (rule exI [of _ c]) (intro conjI M)
qed

theorem refused_creation_changes_only_the_cache_witness:
  "\<exists>(s :: fstate) s'. charm_mkdir 7 s ''/f'' 0 = Some (-1, s')"
proof -
  obtain s :: fstate where s: "volume_ok s one_file_tree" "lru_rep (iname_cache s) []" "cache_ok one_file_tree []"
    "\<forall>P. card P \<le> 1 \<longrightarrow> finite P \<longrightarrow> room_for (iname_cache s) [] P"
    by (rule one_file_empty_cache) blast
  have "set (ancestors ''/f'') = {''/f''}" using one_step_path(3) [of "''f''"] by simp
  then have room: "room_for (iname_cache s) [] (set (ancestors ''/f''))" using s(4) by simp
  have "resolve one_file_tree ''/f'' \<noteq> -1" by (simp add: one_file_resolve)
  then have "resolve one_file_tree ''/f'' \<noteq> -1 \<or> get_parent_path ''/f'' (int (length ''/f'')) = Some ''/'' \<and>
      (resolve one_file_tree ''/'' = -1 \<or> \<not> S_ISDIR (mode (inode_at s (resolve one_file_tree ''/''))))" by blast
  from refused_creation_changes_only_the_cache [OF s(1) this s(2,3) room, of 7 0 0 0] show ?thesis by auto
qed

text \<open>
  C40: removing a directory that holds more than its own two entries changes nothing but the
  cache, as it should; but \<open>custom_unlink\<close> says so with \<open>-ENOTEMPTY\<close>, and the callbacks compare
  with -1 only and report success.
\<close>

theorem removing_a_full_directory_reports_success:
  fixes s :: "'a fstate_scheme"
  assumes "volume_ok s N" "resolve N path = n" "n \<noteq> -1" "dir_ok s (inode_at s n) D" "has_more D"
    and "lru_rep (iname_cache s) l" "cache_ok N l" "room_for (iname_cache s) l (set (ancestors path))"
  shows "\<exists>c. charm_rmdir now s path = Some (0, s\<lparr>iname_cache := c\<rparr>) \<and>
    charm_unlink now s path = Some (0, s\<lparr>iname_cache := c\<rparr>)"
proof -
  obtain c l' where "\<And>now. custom_unlink now s path = Some (- ENOTEMPTY, s\<lparr>iname_cache := c\<rparr>)"
    by (rule unlink_not_empty [OF assms]) blast
  then show ?thesis by (auto simp: charm_rmdir_def charm_unlink_def ENOTEMPTY_def)
qed

theorem removing_a_full_directory_reports_success_witness:
  "\<exists>(s :: fstate) s'. charm_rmdir 7 s ''/'' = Some (0, s')"
proof -
  obtain s :: fstate where s: "volume_ok s one_file_tree" "lru_rep (iname_cache s) []" "cache_ok one_file_tree []"
    "\<forall>P. card P \<le> 1 \<longrightarrow> finite P \<longrightarrow> room_for (iname_cache s) [] P"
    "dir_ok s (inode_at s 2) [one_file]" by (rule one_file_empty_cache)
  have r: "resolve one_file_tree ''/'' = 2" by (simp add: resolve_root ROOT_INODE_def)
  have room: "room_for (iname_cache s) [] (set (ancestors ''/''))" using s(4) by (simp add: ancestors_root)
  have "has_more [one_file]"
    unfolding has_more_def one_file_def
    by (intro disjI2 exI [of _ "[(2, ''.'', 19)]"] exI [of _ 2] exI [of _ 20] exI [of _ "[(5, ''f'', 4057)]"]) simp
  from removing_a_full_directory_reports_success [OF s(1) r _ s(5) this s(2,3) room, of 7] show ?thesis by auto
qed

end
