(* ===== verification/Sound.thy ===== *)
theory Sound
  imports Truncate ReadDir Refusals
begin

text \<open>
  The invariant of the running file system, \<open>sound\<close>: a sound volume, a cache that agrees with it,
  sizes that fit the blocks, and no inode taken from the next number on. Every callback keeps it
  and, with the resources it needs, returns.
\<close>

unbundle bit_operations_syntax

section \<open>The invariant\<close>

definition sound :: "fstate \<Rightarrow> dir_tree \<Rightarrow> bool" where
  "sound s N \<longleftrightarrow> volume_ok s N \<and> (\<exists>l. lru_rep (iname_cache s) l \<and> cache_ok N l) \<and>
     (\<forall>n \<in> nodes N. \<not> S_ISDIR (mode (inode_at s n)) \<longrightarrow> size_ok (inode_at s n)) \<and> fresh s N"

lemma soundI:
  assumes "volume_ok s N" "lru_rep (iname_cache s) l" "cache_ok N l"
    and "\<And>n. n \<in> nodes N \<Longrightarrow> \<not> S_ISDIR (mode (inode_at s n)) \<Longrightarrow> size_ok (inode_at s n)"
    and "fresh s N"
  shows "sound s N"
  using assms unfolding sound_def by blast

lemma sound_volume: "sound s N \<Longrightarrow> volume_ok s N"
  by (simp add: sound_def)

lemma sound_size: "sound s N \<Longrightarrow> n \<in> nodes N \<Longrightarrow> \<not> S_ISDIR (mode (inode_at s n)) \<Longrightarrow> size_ok (inode_at s n)"
  by (simp add: sound_def)

lemma sound_fresh: "sound s N \<Longrightarrow> fresh s N"
  by (simp add: sound_def)

lemma sound_next:
  assumes "sound s N" "latest s n" "inum_ok n"
  shows "next_inode s n" "n \<notin> nodes N"
  using fresh_next [OF sound_fresh [OF assms(1)] assms(2,3)] by blast+

lemma fresh_cache [simp]: "fresh (s\<lparr>iname_cache := c\<rparr>) N = fresh s N"
  by (simp add: fresh_def latest_def)

lemma sound_cache:
  assumes "sound s N"
  obtains l where "lru_rep (iname_cache s) l" "cache_ok N l"
  using assms unfolding sound_def by blast

text \<open>Only directories have entries.\<close>

lemma entry_in_directory:
  assumes "volume_ok s N" "N p name = Some n"
  shows "p \<in> nodes N \<longrightarrow> S_ISDIR (mode (inode_at s p))"
proof
  assume "p \<in> nodes N"
  then have "node_ok s (inode_at s p) (N p)" using volume_node [OF assms(1)] by blast
  then show "S_ISDIR (mode (inode_at s p))" using assms(2) by (auto simp: node_ok_def split: if_splits)
qed

section \<open>A file changes\<close>

text \<open>
  The file \<open>n\<close> gets other contents, free blocks, or gives blocks back; the tree is the same.
\<close>

lemma volume_rewrite:
  assumes v: "volume_ok s N" "n \<in> nodes N"
    and s': "fl_inv s'" "sb_ok s'" "free_set s' \<subseteq> free_set s \<union> set (owned (blocks s) (inode_at s n))"
    and b: "\<And>b. data_block b \<Longrightarrow> b \<notin> free_set s \<Longrightarrow> b \<notin> set (owned (blocks s) (inode_at s n)) \<Longrightarrow>
      blocks s' b = blocks s b"
    and i: "\<And>k. inum_ok k \<Longrightarrow> k \<noteq> n \<Longrightarrow> inode_at s' k = inode_at s k"
    and d: "node_ok s' (inode_at s' n) (N n)"
      "set (owned (blocks s') (inode_at s' n)) \<subseteq> set (owned (blocks s) (inode_at s n)) \<union> free_set s"
  shows "volume_ok s' N"
proof -
  let ?own = "\<lambda>s k. set (owned (blocks s) (inode_at s k))"
  note ok = volume_node [OF v(1)]
  have used: "data_block b \<and> b \<notin> free_set s" if "k \<in> nodes N" "b \<in> ?own s k" for k b
    using ok [OF that(1)] that(2) by (auto simp: node_ok_def wf_file_def)
  have old: "node_ok s' (inode_at s' k) (N k) \<and> ?own s' k = ?own s k" if k: "k \<in> nodes N" "k \<noteq> n" for k
  proof -
    have e: "inode_at s' k = inode_at s k" using i ok k by blast
    have apart: "?own s k \<inter> ?own s n = {}" by (rule volume_disjoint [OF v(1) k(1) v(2) k(2)])
    have keep: "blocks s' b = blocks s b" if "b \<in> ?own s k" for b
      using used [OF k(1) that] b apart that by blast
    have "?own s k \<inter> free_set s' = {}" using used [OF k(1)] apart s'(3) by blast
    moreover have "node_ok s (inode_at s k) (N k)" using ok [OF k(1)] by blast
    ultimately show ?thesis using node_kept [of s "inode_at s k" "N k" s'] keep e by simp
  qed
  have apart: "?own s' k \<inter> ?own s' n = {}" if k: "k \<in> nodes N" "k \<noteq> n" for k
  proof -
    have "?own s k \<inter> ?own s n = {}" by (rule volume_disjoint [OF v(1) k(1) v(2) k(2)])
    moreover have "?own s k \<inter> free_set s = {}" using used [OF k(1)] by blast
    ultimately show ?thesis using d(2) old [OF k] by blast
  qed
  show ?thesis
  proof (rule volume_okI [OF s'(1,2)])
    fix k assume k: "k \<in> nodes N"
    then show "inum_ok k \<and> node_ok s' (inode_at s' k) (N k)" using ok [OF k] old d(1) by metis
  next
    fix k m assume km: "k \<in> nodes N" "m \<in> nodes N" "k \<noteq> m"
    show "?own s' k \<inter> ?own s' m = {}"
    proof (cases "k = n \<or> m = n")
      case True
      then show ?thesis using apart [of k] apart [of m] km by blast
    next
      case False
      then show ?thesis using old [of k] old [of m] volume_disjoint [OF v(1) km] km by simp
    qed
  qed
qed

lemma core_after:
  assumes "core t = core (s\<lparr>iname_cache := c\<rparr>)"
  shows "iname_cache t = c" "latest t k = latest s k"
  using core_cache [OF assms] latest_core [OF assms] by (simp_all add: latest_def)

text \<open>The same for the whole invariant, for a regular file.\<close>

lemma sound_rewrite:
  assumes s: "sound s N" "n \<in> nodes N" "\<not> S_ISDIR (mode (inode_at s n))"
    and c: "lru_rep c l" "cache_ok N l" "core s' = core (s\<lparr>iname_cache := c\<rparr>)"
    and s': "fl_inv s'" "sb_ok s'" "free_set s' \<subseteq> free_set s \<union> set (owned (blocks s) (inode_at s n))"
    and b: "\<And>b. data_block b \<Longrightarrow> b \<notin> free_set s \<Longrightarrow> b \<notin> set (owned (blocks s) (inode_at s n)) \<Longrightarrow>
      blocks s' b = blocks s b"
    and i: "\<And>k. inum_ok k \<Longrightarrow> k \<noteq> n \<Longrightarrow> inode_at s' k = inode_at s k"
    and d: "wf_file s' (inode_at s' n)" "size_ok (inode_at s' n)" "mode (inode_at s' n) = mode (inode_at s n)"
      "set (owned (blocks s') (inode_at s' n)) \<subseteq> set (owned (blocks s) (inode_at s n)) \<union> free_set s"
  shows "sound s' N"
proof -
  note v = sound_volume [OF s(1)] sound_size [OF s(1)]
  have empty: "N n = Map.empty" using volume_node [OF v(1) s(2)] s(3) by (simp add: node_ok_def)
  have node: "node_ok s' (inode_at s' n) (N n)" using d(1,3) s(3) by (simp add: node_ok_def empty)
  have vol: "volume_ok s' N" by (rule volume_rewrite [OF v(1) s(2) s' b i node d(4)])
  have rep: "lru_rep (iname_cache s') l" unfolding core_after(1) [OF c(3)] by (rule c(1))
  show ?thesis
  proof (rule soundI [OF vol rep c(2)])
    fix k assume k: "k \<in> nodes N" "\<not> S_ISDIR (mode (inode_at s' k))"
    have "inum_ok k" using volume_node [OF v(1) k(1)] by blast
    then show "size_ok (inode_at s' k)" using k d(2) i v(2) by (cases "k = n") auto
  next
    show "fresh s' N" by (rule fresh_kept [OF sound_fresh [OF s(1)] core_after(2) [OF c(3)]]) (use i s(2) in auto)
  qed
qed

section \<open>What a callback finds\<close>

text \<open>The cache can take the paths a lookup of \<open>path\<close> may store.\<close>

definition cache_space :: "fstate \<Rightarrow> string \<Rightarrow> bool" where
  "cache_space s path \<longleftrightarrow>
     (\<forall>l. lru_rep (iname_cache s) l \<longrightarrow> room_for (iname_cache s) l (set (ancestors path)))"

text \<open>Only \<open>path\<close> leads to file \<open>n\<close>, and the cache holds another path.\<close>

definition only_path :: "fstate \<Rightarrow> dir_tree \<Rightarrow> string \<Rightarrow> int \<Rightarrow> bool" where
  "only_path s N path n \<longleftrightarrow> (\<forall>l. lru_rep (iname_cache s) l \<longrightarrow>
     (\<exists>k \<in> keys l. k \<noteq> path) \<and> (\<forall>k \<in> keys l \<union> set (ancestors path). k \<noteq> path \<longrightarrow> resolve N k \<noteq> n))"

text \<open>\<open>path\<close> leads to the regular file \<open>n\<close>.\<close>

definition regular_at :: "fstate \<Rightarrow> dir_tree \<Rightarrow> string \<Rightarrow> int \<Rightarrow> bool" where
  "regular_at s N path n \<longleftrightarrow> resolve N path = n \<and> n \<in> nodes N \<and> \<not> S_ISDIR (mode (inode_at s n))"

text \<open>
  The file can be cut at \<open>a\<close>: to a position behind its end, which is refused, or of an empty file,
  which does nothing, or by a cut the code gets right while a block is free.
\<close>

definition truncatable :: "fstate \<Rightarrow> iNode \<Rightarrow> int \<Rightarrow> bool" where
  "truncatable s i a \<longleftrightarrow> 0 \<le> a \<and> a < 2 ^ 63 \<and>
     (a \<le> file_size i \<longrightarrow> 0 < file_size i \<longrightarrow> cuttable s i (a div 4096 + 1) \<and> free_set s \<noteq> {})"

text \<open>What reading \<open>k\<close> bytes from \<open>a\<close> on returns.\<close>

definition read_count :: "iNode \<Rightarrow> int \<Rightarrow> int \<Rightarrow> int" where
  "read_count i a k = (if file_size i = 0 then 0 else if file_size i < a then -1 else min k (file_size i - a))"

section \<open>Every callback keeps the invariant\<close>

lemma sound_lookup:
  assumes "sound s N" "cache_space s path"
  obtains c l where "get_inode_num_from_path s path = Some (resolve N path, s\<lparr>iname_cache := c\<rparr>)"
    "lru_rep c l" "cache_ok N l"
proof -
  obtain l where l: "lru_rep (iname_cache s) l" "cache_ok N l" by (rule sound_cache [OF assms(1)])
  have "fl_inv s" "sb_ok s" "tree_ok s N" using sound_volume [OF assms(1)] by (simp_all add: volume_ok_def)
  moreover have "room_for (iname_cache s) l (set (ancestors path))" using assms(2) l(1) by (simp add: cache_space_def)
  ultimately show thesis using lookup_resolves [of s N l path] l that by (auto simp: cache_after_def)
qed

lemma volume_ok_cache [simp]: "volume_ok (s\<lparr>iname_cache := c\<rparr>) N = volume_ok s N"
  by (simp add: volume_ok_def)

lemma sound_after_lookup:
  assumes "sound s N" "lru_rep c l" "cache_ok N l"
  shows "sound (s\<lparr>iname_cache := c\<rparr>) N"
  by (rule soundI [where l = l]) (use assms sound_volume sound_size sound_fresh in auto)

lemma sound_access:
  assumes "sound s N" "charm_access s path m = Some (r, s')" "cache_space s path"
  shows "sound s' N"
proof -
  obtain c l where c: "get_inode_num_from_path s path = Some (resolve N path, s\<lparr>iname_cache := c\<rparr>)"
    "lru_rep c l" "cache_ok N l" by (rule sound_lookup [OF assms(1,3)])
  then have "s' = s\<lparr>iname_cache := c\<rparr>" using assms(2) by (auto simp: charm_access_def split: if_splits)
  then show ?thesis using sound_after_lookup [OF assms(1) c(2,3)] by simp
qed

lemma sound_getattr:
  assumes "sound s N" "charm_getattr s path = Some (r, st, s')" "cache_space s path"
  shows "sound s' N"
proof -
  obtain c l where c: "get_inode_num_from_path s path = Some (resolve N path, s\<lparr>iname_cache := c\<rparr>)"
    "lru_rep c l" "cache_ok N l" by (rule sound_lookup [OF assms(1,3)])
  then have "s' = s\<lparr>iname_cache := c\<rparr>"
    using assms(2) by (auto simp: charm_getattr_def bind_eq_Some_conv split: if_splits)
  then show ?thesis using sound_after_lookup [OF assms(1) c(2,3)] by simp
qed

text \<open>A new node: the sizes of the files that were there are as before.\<close>

lemma sound_enter:
  assumes s: "sound s N" "p \<in> nodes N" "n \<notin> nodes N" "ran M \<subseteq> {n}" "latest s n"
    and v: "volume_ok s' (enter N p name n M)"
    and c: "lru_rep (iname_cache s') l" "cache_ok (enter N p name n M) l"
    and i: "\<forall>k. inum_ok k \<longrightarrow> k \<noteq> p \<longrightarrow> k \<noteq> n \<longrightarrow> inode_at s' k = inode_at s k" "latest s' (n + 1)"
    and n: "S_ISDIR (mode (inode_at s' n)) \<or> size_ok (inode_at s' n)"
  shows "sound s' (enter N p name n M)"
proof (rule soundI [OF v c])
  fix k assume k: "k \<in> nodes (enter N p name n M)" "\<not> S_ISDIR (mode (inode_at s' k))"
  have "enter N p name n M p name = Some n" by (simp add: enter_def)
  from entry_in_directory [OF v this] k have "k \<noteq> p" by auto
  moreover have "k = n \<or> k \<in> nodes N" using nodes_enter [OF s(2-4)] k(1) by blast
  moreover have "inum_ok k" using volume_node [OF v k(1)] by blast
  ultimately show "size_ok (inode_at s' k)" using n k(2) i(1) sound_size [OF s(1), of k] by auto
next
  show "fresh s' (enter N p name n M)"
    by (rule fresh_enter [OF sound_fresh [OF s(1)] s(5) i(2) nodes_enter [OF s(2-4)] s(2) i(1)])
qed

lemma sound_mknod:
  assumes "sound s N" "charm_mknod now s path m dev = Some (r, s')" "cache_space s path" "in_s64 now"
    and "absent_in s N path p name" "latest s n" "inum_ok n"
    and "3 \<le> card (free_set s)" "in_s64 (file_size (inode_at s p) + 4096)"
  shows "sound s' (enter N p name n Map.empty)"
proof -
  obtain l where l: "lru_rep (iname_cache s) l" "cache_ok N l" by (rule sound_cache [OF assms(1)])
  have r: "room_for (iname_cache s) l (set (ancestors path))" using assms(3) l(1) by (simp add: cache_space_def)
  note nn = sound_next [OF assms(1,6,7)]
  obtain t l' where t: "custom_mknod now s path m dev = Some (True, t)" "volume_ok t (enter N p name n Map.empty)"
    "inode_at t n = newborn now m (inode_at s n)" "lru_rep (iname_cache t) l'"
    "cache_ok (enter N p name n Map.empty) l'"
    "\<forall>k. inum_ok k \<longrightarrow> k \<noteq> p \<longrightarrow> k \<noteq> n \<longrightarrow> inode_at t k = inode_at s k" "latest t (n + 1)"
    by (rule custom_mknod_ok [OF sound_volume [OF assms(1)] assms(5) nn l r assms(8,4,9), of m dev]) blast
  have p: "p \<in> nodes N" using assms(5) by (simp add: absent_in_def)
  have "size_ok (inode_at t n)" unfolding t(3) by (simp add: size_ok_def newborn_empty)
  moreover have "s' = t" using t(1) assms(2) by (simp add: charm_mknod_def)
  ultimately show ?thesis using sound_enter [OF assms(1) p nn(2) _ assms(6) t(2,4-7)] by simp
qed

lemma sound_mkdir:
  assumes "sound s N" "charm_mkdir now s path m = Some (r, s')" "cache_space s path" "in_s64 now"
    and "absent_in s N path p name" "latest s n" "inum_ok n" "m AND S_IFMT = 0"
    and "6 \<le> card (free_set s)" "in_s64 (file_size (inode_at s p) + 4096)"
  shows "sound s' (enter N p name n [''.'' \<mapsto> n, ''..'' \<mapsto> n])"
proof -
  obtain l where l: "lru_rep (iname_cache s) l" "cache_ok N l" by (rule sound_cache [OF assms(1)])
  have r: "room_for (iname_cache s) l (set (ancestors path))" using assms(3) l(1) by (simp add: cache_space_def)
  let ?N = "enter N p name n [''.'' \<mapsto> n, ''..'' \<mapsto> n]"
  note nn = sound_next [OF assms(1,6,7)]
  obtain t l' where t: "custom_mkdir now s path m = Some (True, t)" "volume_ok t ?N"
    "mode (inode_at t n) = S_IFDIR OR m" "lru_rep (iname_cache t) l'"
    "cache_ok ?N l'"
    "\<forall>k. inum_ok k \<longrightarrow> k \<noteq> p \<longrightarrow> k \<noteq> n \<longrightarrow> inode_at t k = inode_at s k" "latest t (n + 1)"
    by (rule custom_mkdir_ok [OF sound_volume [OF assms(1)] assms(5) nn l r assms(9,4,10,8)]) blast
  have p: "p \<in> nodes N" using assms(5) by (simp add: absent_in_def)
  have "S_ISDIR (mode (inode_at t n))" unfolding t(3) by (rule mkdir_mode [OF assms(8)])
  moreover have "s' = t" using t(1) assms(2) by (simp add: charm_mkdir_def)
  ultimately show ?thesis using sound_enter [OF assms(1) p nn(2) _ assms(6) t(2,4-7)] by simp
qed

text \<open>What an operation on the regular file at \<open>path\<close> starts from.\<close>

lemma sound_regular:
  assumes "sound s N" "regular_at s N path n" "cache_space s path"
  obtains c l where "get_inode_num_from_path s path = Some (n, s\<lparr>iname_cache := c\<rparr>)"
    "lru_rep c l" "cache_ok N l" "fl_inv s" "sb_ok s" "inum_ok n" "wf_file s (inode_at s n)"
    "size_ok (inode_at s n)" "n \<in> nodes N" "\<not> S_ISDIR (mode (inode_at s n))"
proof -
  have n: "resolve N path = n" "n \<in> nodes N" "\<not> S_ISDIR (mode (inode_at s n))"
    using assms(2) by (simp_all add: regular_at_def)
  note v = sound_volume [OF assms(1)]
  have "fl_inv s" "sb_ok s" using v by (simp_all add: volume_ok_def)
  moreover have "inum_ok n" "wf_file s (inode_at s n)" using volume_node [OF v n(2)] by (simp_all add: node_ok_def)
  moreover have "size_ok (inode_at s n)" by (rule sound_size [OF assms(1) n(2,3)])
  ultimately show thesis using n sound_lookup [OF assms(1,3)] that by metis
qed

lemma sound_written:
  assumes s: "sound s N" "n \<in> nodes N" "\<not> S_ISDIR (mode (inode_at s n))"
    and c: "lru_rep c l" "cache_ok N l"
    and w: "written (s\<lparr>iname_cache := c\<rparr>) (inode_at s n) a k buff i t"
      "\<forall>m. inum_ok m \<longrightarrow> inode_at t m = (if m = n then i else inode_at s m)"
  shows "sound t N" "iname_cache t = c"
proof -
  let ?i = "inode_at s n"
  have W: "fl_inv t" "sb_ok t" "core t = core (s\<lparr>iname_cache := c\<rparr>)" "wf_file t i" "size_ok i"
    "mode i = mode ?i" "free_set t \<subseteq> free_set s" "set (owned (blocks t) i) \<subseteq> set (owned (blocks s) ?i) \<union> free_set s"
    "\<forall>b. data_block b \<longrightarrow> b \<notin> free_set s \<longrightarrow> b \<notin> set (owned (blocks s) ?i) \<longrightarrow> blocks t b = blocks s b"
    using w(1) by (simp_all add: written_def)
  show "iname_cache t = c" by (rule core_after(1) [OF W(3)])
  have "inum_ok n" using volume_node [OF sound_volume [OF s(1)] s(2)] by blast
  then have "inode_at t n = i" using w(2) by simp
  with W w(2) show "sound t N"
    by (intro sound_rewrite [OF s c W(3)]) auto
qed

lemma sound_write:
  assumes "sound s N" "charm_write now s path buff k a = Some (r, s')" "cache_space s path" "in_s64 now"
    and "regular_at s N path n" "0 \<le> a" "0 < k" "k \<le> int (length buff)" "a + k < 2 ^ 62"
  shows "sound s' N"
proof -
  let ?i = "inode_at s n"
  obtain c l where L: "get_inode_num_from_path s path = Some (n, s\<lparr>iname_cache := c\<rparr>)" "lru_rep c l" "cache_ok N l"
    "fl_inv s" "sb_ok s" "inum_ok n" "wf_file s ?i" "size_ok ?i" "n \<in> nodes N" "\<not> S_ISDIR (mode ?i)"
    by (rule sound_regular [OF assms(1,5,3)])
  have u: "u64 a = a" using assms(6,7,9) by (intro u64_id) auto
  have "\<exists>v. custom_write now s path buff k a = Some (v, s')"
    using assms(2) by (auto simp: charm_write_def u bind_eq_Some_conv)
  then obtain v where v: "custom_write now s path buff k a = Some (v, s')" by blast
  from custom_write_ok [OF L(1,4-6) assms(4) refl L(7,8) assms(6-9)] show ?thesis
  proof (elim disjE exE conjE)
    fix t i assume t: "custom_write now s path buff k a = Some (k, t)" "written (s\<lparr>iname_cache := c\<rparr>) ?i a k buff i t"
      "\<forall>m. inum_ok m \<longrightarrow> inode_at t m = (if m = n then i else inode_at s m)"
    have "t = s'" using t(1) v by simp
    then show ?thesis using sound_written(1) [OF assms(1) L(9,10,2,3) t(2,3)] by simp
  next
    fix t assume t: "custom_write now s path buff k a = Some (-1, t)" "not_grown (s\<lparr>iname_cache := c\<rparr>) ?i t"
      "\<forall>m. inum_ok m \<longrightarrow> inode_at t m = inode_at s m"
    have e: "t = s'" using t(1) v by simp
    have W: "fl_inv s'" "core s' = core (s\<lparr>iname_cache := c\<rparr>)" "wf_file s' ?i" "free_set s' \<subseteq> free_set s"
      "\<forall>b. b \<noteq> 0 \<longrightarrow> b \<notin> free_set s \<longrightarrow> b \<notin> set (list_blocks (blocks s) ?i) \<longrightarrow> blocks s' b = blocks s b"
      using t(2) by (simp_all add: not_grown_def e)
    have sb: "sb_ok s'" by (rule core_sb_ok [OF W(2)]) (use L(5) in simp)
    have keep: "blocks s' b = blocks s b" if "data_block b" "b \<notin> free_set s" "b \<notin> set (owned (blocks s) ?i)" for b
      using that W(5) data_block_nonzero by (simp add: owned_def)
    have i: "inode_at s' n = ?i" using t(3) L(6) e by simp
    have own: "set (owned (blocks s') ?i) \<subseteq> set (owned (blocks s) ?i) \<union> free_set s"
      using t(2) by (simp add: not_grown_def e)
    show ?thesis
      by (rule sound_rewrite [OF assms(1) L(9,10,2,3) W(2,1) sb _ keep]) (use W(3,4) L(8) i own t(3) e in auto)
  qed
qed

text \<open>A read only touches the access time.\<close>

lemma sound_touched:
  assumes s: "sound s N" "n \<in> nodes N" "\<not> S_ISDIR (mode (inode_at s n))"
    and c: "lru_rep c l" "cache_ok N l" "core t = core (s\<lparr>iname_cache := c\<rparr>)"
    and t: "fl_inv t" "sb_ok t" "free_set t = free_set s" "\<And>b. data_block b \<Longrightarrow> blocks t b = blocks s b"
      "\<And>m. inum_ok m \<Longrightarrow> inode_at t m =
        (if m = n \<and> file_size (inode_at s n) \<noteq> 0 then (inode_at s n)\<lparr>access_time := now\<rparr> else inode_at s m)"
  shows "sound t N"
    "0 \<le> x \<Longrightarrow> x < num_blocks (inode_at s n) * 4096 \<Longrightarrow> file_byte t (inode_at t n) x = file_byte s (inode_at s n) x"
proof -
  let ?i = "inode_at s n"
  have n: "inum_ok n" "wf_file s ?i" "size_ok ?i"
    using volume_node [OF sound_volume [OF s(1)] s(2)] sound_size [OF s] by (simp_all add: node_ok_def)
  have i: "inode_at t n = ?i \<or> inode_at t n = ?i\<lparr>access_time := now\<rparr>" using t(5) [OF n(1)] by auto
  have sub: "free_set t \<subseteq> free_set s" using t(3) by simp
  have same: "\<And>b. b \<in> set (owned (blocks s) ?i) \<Longrightarrow> blocks t b = blocks s b"
    using n(2) t(4) by (simp add: wf_file_def)
  note F = file_frame [OF n(2) sub same]
  have f: "fblk bs (?i\<lparr>access_time := now\<rparr>) = fblk bs ?i" for bs by (simp add: fblk_def fun_eq_iff)
  have own: "owned bs (?i\<lparr>access_time := now\<rparr>) = owned bs ?i" for bs
    unfolding owned_def data_of_def list_blocks_def f by simp
  have wf: "wf_file t (?i\<lparr>access_time := now\<rparr>)" using F(1) unfolding wf_file_def own by simp
  have node: "wf_file t (inode_at t n)" "size_ok (inode_at t n)" "mode (inode_at t n) = mode ?i"
    "owned (blocks t) (inode_at t n) = owned (blocks s) ?i"
    using i F(1,2) wf own n(3) by (auto simp: size_ok_def)
  show "sound t N"
    by (rule sound_rewrite [OF s c t(1,2)]) (use t(3-5) node in auto)
  assume "0 \<le> x" "x < num_blocks ?i * 4096"
  moreover have "file_byte t (inode_at t n) x = file_byte t ?i x" using i f by (auto simp: file_byte_def)
  ultimately show "file_byte t (inode_at t n) x = file_byte s ?i x" using F(3) by simp
qed

lemma sound_custom_read:
  assumes s: "sound s N" "n \<in> nodes N" "\<not> S_ISDIR (mode (inode_at s n))" "in_s64 now"
    and c: "get_inode_num_from_path s path = Some (n, s\<lparr>iname_cache := c\<rparr>)" "lru_rep c l" "cache_ok N l"
    and a: "0 \<le> a" "0 \<le> k" "k \<le> int (length buff)" "a + k < 2 ^ 64"
  obtains buff' t where "custom_read now s path buff k a = Some (read_count (inode_at s n) a k, buff', t)"
    "sound t N" "iname_cache t = c"
proof -
  let ?i = "inode_at s n"
  have L: "fl_inv s" "sb_ok s" "inum_ok n" "wf_file s ?i" "size_ok ?i"
    using volume_node [OF sound_volume [OF s(1)] s(2)] sound_size [OF s(1-3)] sound_volume [OF s(1)]
    by (simp_all add: node_ok_def volume_ok_def)
  have size: "0 \<le> file_size ?i" "file_size ?i < 2 ^ 63" using wf_file_bytes [OF L(4)] L(5) by (auto simp: size_ok_def)
  show thesis
  proof (cases "a \<le> file_size ?i")
    case True
    obtain t where t: "custom_read now s path buff k a = Some (min k (file_size ?i - a), file_bytes s ?i a
        (min k (file_size ?i - a)) @ replicate (nat (k - min k (file_size ?i - a))) 0 @ drop (nat k) buff, t)"
      "fl_inv t" "sb_ok t" "free_set t = free_set s" "core t = core (s\<lparr>iname_cache := c\<rparr>)"
      "\<And>b. data_block b \<Longrightarrow> blocks t b = blocks s b"
      "\<And>m. inum_ok m \<Longrightarrow> inode_at t m = (if m = n \<and> file_size ?i \<noteq> 0 then ?i\<lparr>access_time := now\<rparr> else inode_at s m)"
      by (rule custom_read_ok [OF c(1) L(1-3) s(4) refl L(4,5) a(1) True a(2-4)]) simp
    have "min k (file_size ?i - a) = read_count ?i a k" using True a by (auto simp: read_count_def)
    moreover have "sound t N" by (rule sound_touched(1) [OF s(1-3) c(2,3) t(5,2-4,6,7)])
    ultimately show thesis using that t(1) core_after(1) [OF t(5)] by simp
  next
    case False
    have "read_inode (s\<lparr>iname_cache := c\<rparr>) n = Some (Some ?i)"
      using read_inode_ok [of "s\<lparr>iname_cache := c\<rparr>" n] L(1-3) by (simp add: fl_inv_def healthy_def device_works_def)
    moreover have "n \<noteq> -1" using L(3) by (auto simp: inum_ok_def)
    ultimately have "custom_read now s path buff k a =
        Some (read_count ?i a k, replicate (nat k) 0 @ drop (nat k) buff, s\<lparr>iname_cache := c\<rparr>)"
      using c(1) a(3) False size by (simp add: custom_read_def read_count_def u64_id)
    then show thesis using that sound_after_lookup [OF s(1) c(2,3)] by simp
  qed
qed

lemma sound_read:
  assumes "sound s N" "charm_read now s path buff k a = Some (r, buff', s')" "cache_space s path" "in_s64 now"
    and "regular_at s N path n" "0 \<le> a" "0 \<le> k" "k \<le> int (length buff)" "a + k < 2 ^ 64"
  shows "sound s' N"
proof -
  obtain c l where L: "get_inode_num_from_path s path = Some (n, s\<lparr>iname_cache := c\<rparr>)" "lru_rep c l" "cache_ok N l"
    "n \<in> nodes N" "\<not> S_ISDIR (mode (inode_at s n))" by (rule sound_regular [OF assms(1,5,3)])
  obtain buff' t where t: "custom_read now s path buff k a = Some (read_count (inode_at s n) a k, buff', t)" "sound t N"
    by (rule sound_custom_read [OF assms(1) L(4,5) assms(4) L(1-3) assms(6-9)])
  have "u64 a = a" using assms(6,7,9) by (intro u64_id) auto
  then show ?thesis using assms(2) t by (simp add: charm_read_def)
qed

lemma sound_custom_truncate:
  assumes s: "sound s N" "n \<in> nodes N" "\<not> S_ISDIR (mode (inode_at s n))"
    and c: "get_inode_num_from_path s path = Some (n, s\<lparr>iname_cache := c\<rparr>)" "lru_rep c l" "cache_ok N l"
    and a: "truncatable s (inode_at s n) a"
  obtains t where "custom_truncate s path a = Some (if a \<le> file_size (inode_at s n) then 0 else -1, t)"
    "sound t N" "iname_cache t = c"
proof -
  let ?i = "inode_at s n"
  have L: "fl_inv s" "sb_ok s" "inum_ok n" "wf_file s ?i" "size_ok ?i"
    using volume_node [OF sound_volume [OF s(1)] s(2)] sound_size [OF s(1-3)] sound_volume [OF s(1)]
    by (simp_all add: node_ok_def volume_ok_def)
  have size: "0 \<le> file_size ?i" "file_size ?i < 2 ^ 63" using wf_file_bytes [OF L(4)] L(5) by (auto simp: size_ok_def)
  have a0: "0 \<le> a" using a by (simp add: truncatable_def)
  have read: "read_inode (s\<lparr>iname_cache := c\<rparr>) n = Some (Some ?i)" "n \<noteq> -1"
    using read_inode_ok [of "s\<lparr>iname_cache := c\<rparr>" n] L(1-3)
    by (auto simp: fl_inv_def healthy_def device_works_def inum_ok_def)
  have looked: "sound (s\<lparr>iname_cache := c\<rparr>) N" by (rule sound_after_lookup [OF s(1) c(2,3)])
  consider "file_size ?i < a" | "a \<le> file_size ?i" "file_size ?i = 0" | "a \<le> file_size ?i" "0 < file_size ?i"
    using size(1) by linarith
  then show thesis
  proof cases
    case 1
    then have "custom_truncate s path a = Some (-1, s\<lparr>iname_cache := c\<rparr>)"
      using c(1) read size by (simp add: custom_truncate_def u64_id)
    then show thesis using that looked 1 by simp
  next
    case 2
    then have "custom_truncate s path a = Some (0, s\<lparr>iname_cache := c\<rparr>)"
      using c(1) read a0 by (simp add: custom_truncate_def u64_id)
    then show thesis using that looked 2 by simp
  next
    case 3
    then have g: "cuttable s ?i (a div 4096 + 1)" "free_set s \<noteq> {}" using a by (simp_all add: truncatable_def)
    obtain i t where t: "custom_truncate s path a = Some (0, t)" "fl_inv t" "sb_ok t" "inode_at t n = i"
      "\<forall>m. inum_ok m \<longrightarrow> m \<noteq> n \<longrightarrow> inode_at t m = inode_at s m" "wf_file t i" "size_ok i"
      "free_set t = free_set s \<union> set (behind s ?i (a div 4096 + 1))"
      "\<forall>b. data_block b \<longrightarrow> b \<notin> free_set t \<longrightarrow> b \<notin> set (data_of (blocks s) ?i) \<longrightarrow> blocks t b = blocks s b"
      "mode i = mode ?i" "set (owned (blocks t) i) \<subseteq> set (owned (blocks s) ?i)"
      "core t = core (s\<lparr>iname_cache := c\<rparr>)"
      by (rule custom_truncate_ok [OF c(1) L(1-3) g(2) refl L(4,5) g(1) a0 3])
    have "0 \<le> a div 4096 + 1" using a0 by (simp add: pos_imp_zdiv_nonneg_iff)
    then have sub: "free_set t \<subseteq> free_set s \<union> set (owned (blocks s) ?i)" using t(8) behind_owned by blast
    then have keep: "blocks t b = blocks s b" if "data_block b" "b \<notin> free_set s" "b \<notin> set (owned (blocks s) ?i)" for b
      using that t(9) by (auto simp: owned_def)
    have "sound t N"
      by (rule sound_rewrite [OF s c(2,3) t(12,2,3) sub keep]) (use t(4-7,10,11) in auto)
    then show thesis using that t(1) core_after(1) [OF t(12)] 3(1) by simp
  qed
qed

lemma sound_truncate:
  assumes "sound s N" "charm_truncate s path a = Some (r, s')" "cache_space s path"
    and "regular_at s N path n" "truncatable s (inode_at s n) a"
  shows "sound s' N"
proof -
  obtain c l where L: "get_inode_num_from_path s path = Some (n, s\<lparr>iname_cache := c\<rparr>)" "lru_rep c l" "cache_ok N l"
    "n \<in> nodes N" "\<not> S_ISDIR (mode (inode_at s n))" by (rule sound_regular [OF assms(1,4,3)])
  obtain t where t: "custom_truncate s path a = Some (if a \<le> file_size (inode_at s n) then 0 else -1, t)" "sound t N"
    by (rule sound_custom_truncate [OF assms(1) L(4,5,1-3) assms(5)])
  have "u64 a = a" using assms(5) by (intro u64_id) (simp_all add: truncatable_def)
  then show ?thesis using assms(2) t by (auto simp: charm_truncate_def split: if_splits)
qed

lemma sound_unlink:
  assumes "sound s N" "charm_unlink now s path = Some (r, s')" "cache_space s path" "in_s64 now"
    and "present_in N path p name n" "unlinkable s p name n D" "N p = map_of (dir_names D)" "only_path s N path n"
  shows "sound s' (leave N p name n)"
proof -
  let ?N = "leave N p name n"
  note v = sound_volume [OF assms(1)]
  obtain l where l: "lru_rep (iname_cache s) l" "cache_ok N l" by (rule sound_cache [OF assms(1)])
  have room: "room_for (iname_cache s) l (set (ancestors path))" using assms(3) l(1) by (simp add: cache_space_def)
  have other: "\<exists>k \<in> keys l. k \<noteq> path" using assms(8) l(1) by (simp add: only_path_def)
  obtain t l' where t: "custom_unlink now s path = Some (0, t)" "volume_ok t ?N"
    "lru_rep (iname_cache t) (without path l')" "cache_ok N l'" "keys l' \<subseteq> keys l \<union> set (ancestors path)"
    "\<forall>k. inum_ok k \<longrightarrow> k \<noteq> p \<longrightarrow> k \<noteq> n \<longrightarrow> inode_at t k = inode_at s k" "S_ISDIR (mode (inode_at t p))"
    "\<And>k. latest t k = latest s k"
    by (rule custom_unlink_ok [OF v assms(5) l room other assms(6,7,4)]) blast
  have e: "s' = t" using assms(2) t(1) by (simp add: charm_unlink_def)
  note pn = present_nodes [OF assms(5)]
  have "cache_ok ?N (without path l')"
  proof (rule cache_ok_leave)
    show "n \<notin> snd ` set (without path l')"
    proof
      assume "n \<in> snd ` set (without path l')"
      then obtain k where k: "(k, n) \<in> set l'" "k \<noteq> path" by (auto simp: without_def)
      then have "k \<in> keys l \<union> set (ancestors path)" using t(5) by force
      moreover have "resolve N k = n" using k(1) t(4) by (auto simp: cache_ok_def)
      ultimately show False using k(2) assms(8) l(1) unfolding only_path_def by blast
    qed
  qed (use pn cache_ok_without [OF t(4)] in blast)+
  moreover have "size_ok (inode_at t k)" if k: "k \<in> nodes ?N" "\<not> S_ISDIR (mode (inode_at t k))" for k
  proof -
    have kn: "k \<in> nodes N" "k \<noteq> n" using nodes_leave [of N p name n] k(1) pn by blast+
    have "k \<noteq> p" using k(2) t(7) by auto
    then have "inode_at t k = inode_at s k" using t(6) volume_node [OF v kn(1)] kn(2) by blast
    then show ?thesis using k(2) sound_size [OF assms(1) kn(1)] by simp
  qed
  moreover have "fresh t ?N"
  proof (rule fresh_kept [OF sound_fresh [OF assms(1)] t(8)])
    show "nodes ?N \<subseteq> nodes N" using nodes_leave [of N p name n] pn by blast
  qed (use t(6) pn in blast)
  ultimately show ?thesis unfolding e by (rule soundI [OF t(2,3)])
qed

lemma sound_room:
  assumes "sound s N" "cache_space s path"
  obtains l where "volume_ok s N" "lru_rep (iname_cache s) l" "cache_ok N l"
    "room_for (iname_cache s) l (set (ancestors path))"
proof -
  obtain l where l: "lru_rep (iname_cache s) l" "cache_ok N l" by (rule sound_cache [OF assms(1)])
  moreover have "room_for (iname_cache s) l (set (ancestors path))" using assms(2) l(1) by (simp add: cache_space_def)
  ultimately show thesis using that sound_volume [OF assms(1)] by blast
qed

lemma charm_create_mknod:
  "charm_create now s path m flags =
     charm_mknod now s path (if flags AND O_CREAT \<noteq> 0 then S_IFREG OR m else S_IFREG OR 509) (-1)"
  by (simp add: charm_create_def charm_mknod_def)

lemma sound_create:
  assumes "sound s N" "charm_create now s path m flags = Some (r, s')" "cache_space s path" "in_s64 now"
    and "absent_in s N path p name" "latest s n" "inum_ok n"
    and "3 \<le> card (free_set s)" "in_s64 (file_size (inode_at s p) + 4096)"
  shows "sound s' (enter N p name n Map.empty)"
  using sound_mknod [OF assms(1) _ assms(3-9)] assms(2) unfolding charm_create_mknod by blast

lemma sound_rmdir:
  assumes "sound s N" "charm_rmdir now s path = Some (r, s')" "cache_space s path" "in_s64 now"
    and "present_in N path p name n" "unlinkable s p name n D" "N p = map_of (dir_names D)" "only_path s N path n"
  shows "sound s' (leave N p name n)"
proof -
  have "charm_unlink now s path = Some (r, s')" using assms(2) by (simp add: charm_rmdir_def charm_unlink_def)
  then show ?thesis by (rule sound_unlink [OF assms(1) _ assms(3-8)])
qed

text \<open>Callbacks that only look up.\<close>

lemma sound_open:
  assumes "sound s N" "charm_open now s path flags = Some (r, s')" "cache_space s path"
    and "resolve N path \<noteq> -1 \<or> flags AND O_CREAT = 0" "flags AND O_TRUNC = 0"
  shows "sound s' N"
proof -
  obtain c l where c: "get_inode_num_from_path s path = Some (resolve N path, s\<lparr>iname_cache := c\<rparr>)"
    "lru_rep c l" "cache_ok N l" by (rule sound_lookup [OF assms(1,3)])
  have "0 < resolve N path" if "resolve N path \<noteq> -1"
  proof -
    have "resolve N path \<in> nodes N" using resolve_node [of N path] that by blast
    then show ?thesis using volume_node [OF sound_volume [OF assms(1)]] by (auto simp: inum_ok_def)
  qed
  then have "\<not> (flags AND O_CREAT \<noteq> 0 \<and> resolve N path \<le> -1)" using assms(4) by auto
  then have "s' = s\<lparr>iname_cache := c\<rparr>"
    using assms(2,5) c(1) by (auto simp: charm_open_def custom_open_def split: if_splits)
  then show ?thesis using sound_after_lookup [OF assms(1) c(2,3)] by simp
qed

lemma sound_readdir:
  assumes "sound s N" "charm_readdir s path = Some (r, filled, s')" "cache_space s path"
  shows "sound s' N"
proof -
  obtain c l where c: "get_inode_num_from_path s path = Some (resolve N path, s\<lparr>iname_cache := c\<rparr>)"
    "lru_rep c l" "cache_ok N l" by (rule sound_lookup [OF assms(1,3)])
  have "s' = s\<lparr>iname_cache := c\<rparr>" by (rule charm_readdir_state [OF assms(2) c(1)])
  then show ?thesis using sound_after_lookup [OF assms(1) c(2,3)] by simp
qed

text \<open>Callbacks that are refused.\<close>

lemma sound_missing:
  assumes "sound s N" "resolve N path = -1" "cache_space s path"
    and "charm_unlink now s path = Some (r, s') \<or>
      charm_rmdir now s path = Some (r, s') \<or> charm_truncate s path a = Some (r, s') \<or>
      charm_write now s path buff k a = Some (r, s') \<or>
      k \<le> int (length buff) \<and> charm_read now s path buff k a = Some (r, buff', s') \<or>
      charm_rename now errno s path new = Some (r, s')"
  shows "sound s' N"
proof -
  obtain l where l: "volume_ok s N" "lru_rep (iname_cache s) l" "cache_ok N l"
    "room_for (iname_cache s) l (set (ancestors path))" by (rule sound_room [OF assms(1,3)])
  obtain c l' where c: "lru_rep c l'" "cache_ok N l'"
    and M: "\<And>a. charm_truncate s path a = Some (-1, s\<lparr>iname_cache := c\<rparr>)"
    "\<And>now buff k a. charm_write now s path buff k a = Some (-1, s\<lparr>iname_cache := c\<rparr>)"
    "\<And>now buff k a. k \<le> int (length buff) \<Longrightarrow> charm_read now s path buff k a =
       Some (-1, replicate (nat k) 0 @ drop (nat k) buff, s\<lparr>iname_cache := c\<rparr>)"
    "\<And>now. charm_unlink now s path = Some (0, s\<lparr>iname_cache := c\<rparr>)"
    "\<And>now. charm_rmdir now s path = Some (0, s\<lparr>iname_cache := c\<rparr>)"
    "\<And>now errno new. charm_rename now errno s path new = Some (- errno, s\<lparr>iname_cache := c\<rparr>)"
    by (rule missing_path_ok [OF l(1) assms(2) l(2-4)]) blast
  have "s' = s\<lparr>iname_cache := c\<rparr>" using assms(4) by (auto simp: M)
  then show ?thesis using sound_after_lookup [OF assms(1) c] by simp
qed

lemma sound_refused:
  assumes "sound s N" "creation_refused s N path" "cache_space s path"
    and "charm_mknod now s path m dev = Some (r, s') \<or> charm_mkdir now s path m = Some (r, s') \<or>
      charm_create now s path m flags = Some (r, s')"
  shows "sound s' N"
proof -
  obtain l where l: "volume_ok s N" "lru_rep (iname_cache s) l" "cache_ok N l"
    "room_for (iname_cache s) l (set (ancestors path))" by (rule sound_room [OF assms(1,3)])
  obtain c l' where M: "\<And>now m dev. charm_mknod now s path m dev = Some (-1, s\<lparr>iname_cache := c\<rparr>)"
    "\<And>now m. charm_mkdir now s path m = Some (-1, s\<lparr>iname_cache := c\<rparr>)"
    "\<And>now m flags. charm_create now s path m flags = Some (-1, s\<lparr>iname_cache := c\<rparr>)"
    and c: "lru_rep c l'" "cache_ok N l'"
    by (rule creation_refused_ok [OF l(1) assms(2) l(2-4)]) blast
  have "s' = s\<lparr>iname_cache := c\<rparr>" using assms(4) by (auto simp: M)
  then show ?thesis using sound_after_lookup [OF assms(1) c] by simp
qed

lemma sound_full:
  assumes "sound s N" "resolve N path \<noteq> -1" "dir_ok s (inode_at s (resolve N path)) D" "has_more D"
    and "cache_space s path" "charm_unlink now s path = Some (r, s') \<or> charm_rmdir now s path = Some (r, s')"
  shows "sound s' N"
proof -
  obtain l where l: "volume_ok s N" "lru_rep (iname_cache s) l" "cache_ok N l"
    "room_for (iname_cache s) l (set (ancestors path))" by (rule sound_room [OF assms(1,5)])
  obtain c l' where u: "\<And>now. custom_unlink now s path = Some (- ENOTEMPTY, s\<lparr>iname_cache := c\<rparr>)"
    and c: "lru_rep c l'" "cache_ok N l'"
    by (rule unlink_not_empty [OF l(1) refl assms(2-4) l(2-4)]) blast
  have "s' = s\<lparr>iname_cache := c\<rparr>"
    using assms(6) by (auto simp: charm_unlink_def charm_rmdir_def u ENOTEMPTY_def)
  then show ?thesis using sound_after_lookup [OF assms(1) c] by simp
qed

text \<open>Changing the mode, but not between file and directory.\<close>

lemma node_ok_mode:
  assumes "S_ISDIR m = S_ISDIR (mode i)"
  shows "node_ok s (i\<lparr>mode := m\<rparr>) M = node_ok s i M" "owned bs (i\<lparr>mode := m\<rparr>) = owned bs i"
proof -
  have f: "fblk bs (i\<lparr>mode := m\<rparr>) = fblk bs i" for bs by (rule ext) (simp add: fblk_def)
  show o: "owned bs (i\<lparr>mode := m\<rparr>) = owned bs i" for bs
    by (simp add: owned_def data_of_def list_blocks_def f)
  have w: "wf_file s (i\<lparr>mode := m\<rparr>) = wf_file s i" by (simp add: wf_file_def o)
  have "dir_ok s (i\<lparr>mode := m\<rparr>) D = dir_ok s i D" for D by (simp add: dir_ok_def w f assms)
  then show "node_ok s (i\<lparr>mode := m\<rparr>) M = node_ok s i M" by (simp add: node_ok_def w assms)
qed

lemma sound_chmod:
  assumes "sound s N" "charm_chmod s path m = Some (r, s')" "cache_space s path"
    and "resolve N path = -1 \<or> S_ISDIR m = S_ISDIR (mode (inode_at s (resolve N path)))"
  shows "sound s' N"
proof (cases "resolve N path = -1")
  case True
  obtain c l where c: "get_inode_num_from_path s path = Some (resolve N path, s\<lparr>iname_cache := c\<rparr>)"
    "lru_rep c l" "cache_ok N l" by (rule sound_lookup [OF assms(1,3)])
  then have "s' = s\<lparr>iname_cache := c\<rparr>" using assms(2) True by (simp add: charm_chmod_def)
  then show ?thesis using sound_after_lookup [OF assms(1) c(2,3)] by simp
next
  case False
  let ?n = "resolve N path" and ?i = "inode_at s (resolve N path)"
  note v = sound_volume [OF assms(1)]
  obtain c l where c: "get_inode_num_from_path s path = Some (?n, s\<lparr>iname_cache := c\<rparr>)"
    "lru_rep c l" "cache_ok N l" by (rule sound_lookup [OF assms(1,3)])
  let ?t = "s\<lparr>iname_cache := c\<rparr>"
  have d: "S_ISDIR m = S_ISDIR (mode ?i)" using assms(4) False by blast
  have n: "?n \<in> nodes N" using resolve_node [of N path] False by blast
  then have ok: "inum_ok ?n" "node_ok s ?i (N ?n)" using volume_node [OF v] by blast+
  have t: "fl_inv ?t" "sb_ok ?t" using v by (simp_all add: volume_ok_def)
  have wf: "wf_inode (?i\<lparr>mode := m\<rparr>)"
    using wf_get_inode [of "blocks s (inode_block ?n)" "inode_slot ?n"] by (simp add: inode_at_def wf_inode_def)
  obtain u where u: "write_inode ?t ?n (?i\<lparr>mode := m\<rparr>) = Some (True, u)" "fl_inv u" "sb_ok u" "core u = core ?t"
    "free_set u = free_set s" "\<And>b. data_block b \<Longrightarrow> blocks u b = blocks s b"
    "\<And>k. inum_ok k \<Longrightarrow> inode_at u k = (if k = ?n then ?i\<lparr>mode := m\<rparr> else inode_at s k)"
    by (rule store_inode [OF t ok(1) wf]) simp
  have e: "s' = u" using assms(2) c(1) volume_read [OF v False, of c] u(1) False by (simp add: charm_chmod_def)
  have own: "b \<in> set (owned (blocks s) ?i) \<Longrightarrow> data_block b \<and> b \<notin> free_set s" for b
    using ok(2) by (auto simp: node_ok_def wf_file_def)
  have i: "inode_at u ?n = ?i\<lparr>mode := m\<rparr>" using u(7) [OF ok(1)] by simp
  have K: "node_ok u ?i (N ?n)" "owned (blocks u) ?i = owned (blocks s) ?i"
    by (rule node_kept [OF ok(2)]; use own u(5,6) in blast)+
  have vol: "volume_ok u N"
  proof (rule volume_rewrite [OF v n u(2,3)])
    show "free_set u \<subseteq> free_set s \<union> set (owned (blocks s) ?i)" using u(5) by blast
    show "node_ok u (inode_at u ?n) (N ?n)" unfolding i node_ok_mode(1) [OF d] by (rule K(1))
    show "set (owned (blocks u) (inode_at u ?n)) \<subseteq> set (owned (blocks s) ?i) \<union> free_set s"
      unfolding i node_ok_mode(2) [OF d] K(2) by blast
  qed (simp_all add: u(6,7))
  note cu = core_after [OF u(4)]
  show ?thesis
    unfolding e
  proof (rule soundI [OF vol])
    fix k assume k: "k \<in> nodes N" "\<not> S_ISDIR (mode (inode_at u k))"
    have "inum_ok k" using volume_node [OF v k(1)] by blast
    then show "size_ok (inode_at u k)"
      using u(7) [of k] k d sound_size [OF assms(1) k(1)] by (auto simp: size_ok_def split: if_splits)
  next
    show "fresh u N" by (rule fresh_kept [OF sound_fresh [OF assms(1)] cu(2)]) (use u(7) n in auto)
  qed (use c(2,3) cu(1) in simp_all)
qed

section \<open>Every callback returns\<close>

text \<open>With the resources of a step the callback has a result: no undefined behaviour, no endless loop.\<close>

lemma returns_lookup:
  assumes "sound s N" "cache_space s path"
  defines "n \<equiv> resolve N path"
  shows "\<exists>s'. charm_access s path m = Some (if n = -1 then - ENOENT else 0, s')"
    "\<exists>s'. charm_getattr s path = Some (if n = -1 then (- ENOENT, empty_stat, s')
       else (0, (inode_to_stdbuff (inode_at s n) empty_stat)\<lparr>st_ino := n\<rparr>, s'))"
    "\<exists>s'. charm_chmod s path md = Some (if n = -1 then - ENOENT else 0, s')"
proof -
  obtain c l where c: "get_inode_num_from_path s path = Some (n, s\<lparr>iname_cache := c\<rparr>)"
    unfolding n_def by (rule sound_lookup [OF assms(1,2)])
  note v = sound_volume [OF assms(1)]
  have read: "read_inode (s\<lparr>iname_cache := c\<rparr>) n = Some (Some (inode_at s n))" if "n \<noteq> -1"
    using volume_read [OF v, of path c] that by (simp add: n_def)
  show "\<exists>s'. charm_access s path m = Some (if n = -1 then - ENOENT else 0, s')" using c by (simp add: charm_access_def)
  show "\<exists>s'. charm_getattr s path = Some (if n = -1 then (- ENOENT, empty_stat, s')
       else (0, (inode_to_stdbuff (inode_at s n) empty_stat)\<lparr>st_ino := n\<rparr>, s'))"
    using c read by (cases "n = -1") (simp_all add: charm_getattr_def)
  show "\<exists>s'. charm_chmod s path md = Some (if n = -1 then - ENOENT else 0, s')"
  proof (cases "n = -1")
    case True
    then show ?thesis using c by (simp add: charm_chmod_def)
  next
    case False
    then have n: "n \<in> nodes N" using resolve_node [of N path] by (simp add: n_def)
    have t: "fl_inv (s\<lparr>iname_cache := c\<rparr>)" "sb_ok (s\<lparr>iname_cache := c\<rparr>)" "inum_ok n"
      using v volume_node [OF v n] by (simp_all add: volume_ok_def)
    have "wf_inode ((inode_at s n)\<lparr>mode := md\<rparr>)"
      using wf_get_inode [of "blocks s (inode_block n)" "inode_slot n"] by (simp add: inode_at_def wf_inode_def)
    then obtain u where "write_inode (s\<lparr>iname_cache := c\<rparr>) n ((inode_at s n)\<lparr>mode := md\<rparr>) = Some (True, u)"
      by (rule store_inode [OF t])
    then show ?thesis using c read False by (simp add: charm_chmod_def)
  qed
qed

lemma returns_create:
  assumes "sound s N" "cache_space s path" "in_s64 now"
    and "absent_in s N path p name" "latest s n" "inum_ok n" "in_s64 (file_size (inode_at s p) + 4096)"
  shows "3 \<le> card (free_set s) \<Longrightarrow> \<exists>s'. charm_mknod now s path m dev = Some (0, s')"
    and "6 \<le> card (free_set s) \<Longrightarrow> md AND S_IFMT = 0 \<Longrightarrow> \<exists>s'. charm_mkdir now s path md = Some (0, s')"
proof -
  obtain l where l: "volume_ok s N" "lru_rep (iname_cache s) l" "cache_ok N l"
    "room_for (iname_cache s) l (set (ancestors path))" by (rule sound_room [OF assms(1,2)])
  note nn = sound_next [OF assms(1,5,6)]
  show "\<exists>s'. charm_mknod now s path m dev = Some (0, s')" if b: "3 \<le> card (free_set s)"
  proof -
    obtain t where "custom_mknod now s path m dev = Some (True, t)"
      by (rule custom_mknod_ok [OF l(1) assms(4) nn l(2-4) b assms(3,7), of m dev]) blast
    then show ?thesis by (simp add: charm_mknod_def)
  qed
  show "\<exists>s'. charm_mkdir now s path md = Some (0, s')" if b: "6 \<le> card (free_set s)" "md AND S_IFMT = 0"
  proof -
    obtain t where "custom_mkdir now s path md = Some (True, t)"
      by (rule custom_mkdir_ok [OF l(1) assms(4) nn l(2-4) b(1) assms(3,7) b(2)]) blast
    then show ?thesis by (simp add: charm_mkdir_def)
  qed
qed

lemma returns_regular:
  assumes "sound s N" "cache_space s path" "in_s64 now" "regular_at s N path n"
  shows "0 \<le> a \<Longrightarrow> 0 < k \<Longrightarrow> k \<le> int (length buff) \<Longrightarrow> a + k < 2 ^ 62 \<Longrightarrow>
      \<exists>s'. charm_write now s path buff k a = Some (to_int k, s') \<or>
        int (card (free_set s)) < 3 * wanted (inode_at s n) (a + k) \<and> charm_write now s path buff k a = Some (-1, s')"
    and "0 \<le> a \<Longrightarrow> 0 \<le> k \<Longrightarrow> k \<le> int (length buff) \<Longrightarrow> a + k < 2 ^ 64 \<Longrightarrow>
      \<exists>b s'. charm_read now s path buff k a = Some (to_int (read_count (inode_at s n) a k), b, s')"
    and "truncatable s (inode_at s n) a \<Longrightarrow>
      \<exists>s'. charm_truncate s path a = Some (if a \<le> file_size (inode_at s n) then 0 else -1, s')"
proof -
  let ?i = "inode_at s n"
  obtain c l where L: "get_inode_num_from_path s path = Some (n, s\<lparr>iname_cache := c\<rparr>)" "lru_rep c l" "cache_ok N l"
    "fl_inv s" "sb_ok s" "inum_ok n" "wf_file s ?i" "size_ok ?i" "n \<in> nodes N" "\<not> S_ISDIR (mode ?i)"
    by (rule sound_regular [OF assms(1,4,2)])
  show "\<exists>s'. charm_write now s path buff k a = Some (to_int k, s') \<or>
      int (card (free_set s)) < 3 * wanted ?i (a + k) \<and> charm_write now s path buff k a = Some (-1, s')"
    if k: "0 \<le> a" "0 < k" "k \<le> int (length buff)" "a + k < 2 ^ 62"
  proof -
    have u: "u64 a = a" using k by (intro u64_id) auto
    from custom_write_full [OF L(1,4-6) assms(3) refl L(7,8) k] obtain v t where
      "custom_write now s path buff k a = Some (v, t)"
      "v = k \<or> v = -1 \<and> int (card (free_set s)) < 3 * wanted ?i (a + k)" by blast
    then show ?thesis by (auto simp: charm_write_def u to_int_def)
  qed
  show "\<exists>b s'. charm_read now s path buff k a = Some (to_int (read_count ?i a k), b, s')"
    if k: "0 \<le> a" "0 \<le> k" "k \<le> int (length buff)" "a + k < 2 ^ 64"
  proof -
    have u: "u64 a = a" using k by (intro u64_id) auto
    obtain b t where "custom_read now s path buff k a = Some (read_count ?i a k, b, t)"
      by (rule sound_custom_read [OF assms(1) L(9,10) assms(3) L(1-3) k])
    then show ?thesis by (simp add: charm_read_def u)
  qed
  show "\<exists>s'. charm_truncate s path a = Some (if a \<le> file_size ?i then 0 else -1, s')" if k: "truncatable s ?i a"
  proof -
    have u: "u64 a = a" using k by (intro u64_id) (simp_all add: truncatable_def)
    obtain t where "custom_truncate s path a = Some (if a \<le> file_size ?i then 0 else -1, t)"
      by (rule sound_custom_truncate [OF assms(1) L(9,10,1-3) k])
    then show ?thesis by (auto simp: charm_truncate_def u)
  qed
qed

lemma returns_unlink:
  assumes "sound s N" "cache_space s path" "in_s64 now"
    and "present_in N path p name n" "unlinkable s p name n D" "N p = map_of (dir_names D)" "only_path s N path n"
  shows "\<exists>s'. charm_unlink now s path = Some (0, s')"
proof -
  obtain l where l: "volume_ok s N" "lru_rep (iname_cache s) l" "cache_ok N l"
    "room_for (iname_cache s) l (set (ancestors path))" by (rule sound_room [OF assms(1,2)])
  have other: "\<exists>k \<in> keys l. k \<noteq> path" using assms(7) l(2) by (simp add: only_path_def)
  obtain t where "custom_unlink now s path = Some (0, t)"
    by (rule custom_unlink_ok [OF l(1) assms(4) l(2-4) other assms(5,6,3)]) blast
  then show ?thesis by (simp add: charm_unlink_def)
qed

section \<open>The start\<close>

lemma sound_root:
  assumes "volume_ok s root_tree" "lru_rep (iname_cache s) []" "fresh s root_tree"
  shows "sound s root_tree"
proof -
  have "root_tree ROOT_INODE ''.'' = Some ROOT_INODE" by (simp add: root_tree_def)
  then have "S_ISDIR (mode (inode_at s ROOT_INODE))"
    using entry_in_directory [OF assms(1)] by (simp add: root_nodes)
  then show ?thesis by (intro soundI [OF assms(1,2) _ _ assms(3)]) (auto simp: cache_ok_def root_nodes)
qed

lemma sound_start:
  fixes s0 :: fstate
  assumes "init_file_layer now junk s0 = Some (True, s)" "device_works s0" "wf_inode junk" "in_s64 now"
    and "\<forall>a \<ge> brk (iname_cache s0). heap (iname_cache s0) a = None"
  shows "sound s root_tree"
proof -
  obtain s' where s': "init_file_layer now junk s0 = Some (True, s')" "volume_ok s' root_tree"
    "lru_rep (iname_cache s') []" "fresh s' root_tree"
    by (rule init_file_layer_full [OF assms(2-5)]) blast
  then have e: "s' = s" using assms(1) by simp
  then show ?thesis using sound_root [of s] s'(2-4) by simp
qed

end
