(* ===== verification/Rename.thy ===== *)
theory Rename
  imports Sound
begin

text \<open>
  Renaming (\<open>charm_rename\<close> of \<open>lib/fuse_layer.c\<close>): the code makes a new file, copies the bytes
  block by block and unlinks the old name. The copy is shown to be the same file, and the old file
  to be there until the unlink.
\<close>

unbundle bit_operations_syntax

section \<open>The cache\<close>

text \<open>The cache agrees with the tree and has room for the paths of \<open>Q\<close>.\<close>

definition cached :: "fstate \<Rightarrow> dir_tree \<Rightarrow> string set \<Rightarrow> bool" where
  "cached s N Q \<longleftrightarrow> (\<exists>l. lru_rep (iname_cache s) l \<and> cache_ok N l \<and> room_for (iname_cache s) l Q)"

lemma cached_cong: "iname_cache t = iname_cache s \<Longrightarrow> cached t N Q = cached s N Q"
  by (simp add: cached_def)

lemma lookup_cached:
  assumes "volume_ok s N" "cached s N Q" "set (ancestors path) \<subseteq> Q" "finite Q"
  obtains c l where "get_inode_num_from_path s path = Some (resolve N path, s\<lparr>iname_cache := c\<rparr>)"
    "cached (s\<lparr>iname_cache := c\<rparr>) N Q" "lru_rep c l" "cache_ok N l"
proof -
  obtain l where l: "lru_rep (iname_cache s) l" "cache_ok N l" "room_for (iname_cache s) l Q"
    using assms(2) by (auto simp: cached_def)
  obtain c l' where c: "get_inode_num_from_path s path = Some (resolve N path, s\<lparr>iname_cache := c\<rparr>)"
    "cache_after N (iname_cache s) l (set (ancestors path)) c l'"
    by (rule lookup_once [OF assms(1) l(1,2) room_for_mono [OF l(3) assms(3,4)]])
  have "room_for c l' Q" by (rule room_for_after [OF l(3) c(2) assms(3,4)])
  with c(2) have "cached (s\<lparr>iname_cache := c\<rparr>) N Q" "lru_rep c l'" "cache_ok N l'"
    by (auto simp: cached_def cache_after_def)
  then show thesis by (rule that [OF c(1)])
qed

lemma sound_cached: "sound s N \<Longrightarrow> cached (s\<lparr>iname_cache := c\<rparr>) N Q \<Longrightarrow> sound (s\<lparr>iname_cache := c\<rparr>) N"
  using sound_after_lookup by (auto simp: cached_def)

lemma regular_node:
  assumes "sound s N" "n \<in> nodes N" "\<not> S_ISDIR (mode (inode_at s n))"
  shows "inum_ok n" "wf_file s (inode_at s n)" "size_ok (inode_at s n)" "fl_inv s" "sb_ok s"
  using volume_node [OF sound_volume [OF assms(1)] assms(2)] sound_size [OF assms] sound_volume [OF assms(1)]
  by (simp_all add: node_ok_def volume_ok_def)

section \<open>The new file\<close>

lemma absent_in_cache: "absent_in (s\<lparr>iname_cache := c\<rparr>) N path p name = absent_in s N path p name"
  by (simp add: absent_in_def)

lemma absent_unresolved: "absent_in s N path p name \<Longrightarrow> resolve N path = -1"
  by (auto simp: absent_in_def resolve_step)

lemma open_new:
  assumes s: "sound s N" and a: "absent_in s N new p name" and m: "next_inode s m" "m \<notin> nodes N"
    and c: "cached s N Q" "set (ancestors new) \<subseteq> Q" "finite Q"
    and r: "3 \<le> card (free_set s)" "in_s64 now" "in_s64 (file_size (inode_at s p) + 4096)"
    and flags: "flags AND O_CREAT \<noteq> 0"
  obtains t where "charm_open now s new flags = Some (0, t)"
    "sound t (enter N p name m Map.empty)" "cached t (enter N p name m Map.empty) Q"
    "inode_at t m = newborn now (S_IFREG OR DEFAULT_PERMS) (inode_at s m)"
    "\<forall>k \<in> nodes N. k \<noteq> p \<longrightarrow> inode_at t k = inode_at s k" "card (free_set s) \<le> card (free_set t) + 3"
    "free_set t \<subseteq> free_set s"
    "\<forall>b. data_block b \<longrightarrow> b \<notin> free_set s \<longrightarrow> b \<notin> set (owned (blocks s) (inode_at s p)) \<longrightarrow> blocks t b = blocks s b"
    "\<forall>k. inum_ok k \<longrightarrow> k \<noteq> p \<longrightarrow> k \<noteq> m \<longrightarrow> inode_at t k = inode_at s k"
    "latest t (m + 1)"
    "file_size (inode_at t p) \<le> file_size (inode_at s p) + 4096"
proof -
  let ?N = "enter N p name m Map.empty"
  let ?M = "S_IFREG OR DEFAULT_PERMS"
  let ?i = "newborn now ?M (inode_at s m)"
  note v = sound_volume [OF s]
  obtain c0 where 0: "get_inode_num_from_path s new = Some (-1, s\<lparr>iname_cache := c0\<rparr>)"
    "cached (s\<lparr>iname_cache := c0\<rparr>) N Q"
    using lookup_cached [OF v c] absent_unresolved [OF a] by metis
  let ?s = "s\<lparr>iname_cache := c0\<rparr>"
  obtain l0 where l0: "lru_rep (iname_cache ?s) l0" "cache_ok N l0" "room_for (iname_cache ?s) l0 Q"
    using 0(2) unfolding cached_def by blast
  have pre: "volume_ok ?s N" "absent_in ?s N new p name" "next_inode ?s m" "3 \<le> card (free_set ?s)"
    "in_s64 (file_size (inode_at ?s p) + 4096)"
    using v a m(1) r by (simp_all add: absent_in_cache next_inode_def)
  obtain t l1 where t: "create_new_file now ?s new ?M = Some (m, Some (newborn now ?M (inode_at ?s m)), t)"
    "file_entered ?s N p name m t" "lru_rep (iname_cache t) l1" "cache_ok N l1" "room_for (iname_cache t) l1 Q"
    by (rule create_new_file_room [OF pre(1-3) m(2) l0 c(2,3) pre(4) r(2) pre(5)])
  have pd: "p \<in> nodes N" "N p name = None" using a by (simp_all add: absent_in_def)
  have m0: "inum_ok m" "0 < m" using m by (auto simp: next_inode_def inum_ok_def)
  have wf: "wf_inode ?i" using m(1) r(2) by (intro newborn_wf) (simp_all add: next_inode_def inode_at_def)
  then have z: "length (direct_blocks ?i) = 10" by (simp add: wf_inode_def)
  note E = empty_node [OF newborn_empty(1) z, of t]
  have F: "fl_inv t" "sb_ok t" "free_set t \<subseteq> free_set s" "card (free_set s) \<le> card (free_set t) + 3"
    "\<forall>b. data_block b \<longrightarrow> b \<notin> free_set s \<longrightarrow> b \<notin> set (owned (blocks s) (inode_at s p)) \<longrightarrow> blocks t b = blocks s b"
    using t(2) by (simp_all add: file_entered_def)
  obtain u where u: "write_inode t m ?i = Some (True, u)" "volume_ok u ?N" "inode_at u m = ?i"
    "iname_cache u = iname_cache t"
    "\<forall>k. inum_ok k \<longrightarrow> k \<noteq> p \<longrightarrow> k \<noteq> m \<longrightarrow> inode_at u k = inode_at s k" "latest u (m + 1)"
    using store_child [OF pre(1) pd(1) m(2) m0(1) t(2) F(1) refl _ _ wf E(1)] E(2) by auto
  obtain u' where u': "write_inode t m ?i = Some (True, u')" "free_set u' = free_set t"
    "\<And>b. data_block b \<Longrightarrow> blocks u' b = blocks t b" "core u' = core t"
    "\<And>k. inum_ok k \<Longrightarrow> inode_at u' k = (if k = m then ?i else inode_at t k)"
    using store_inode [OF F(1,2) m0(1) wf] by metis
  have "u' = u" using u(1) u'(1) by simp
  note u'' = u'(2-5) [unfolded this]
  have old: "\<forall>k \<in> nodes N. k \<noteq> p \<longrightarrow> inode_at u k = inode_at s k"
    using u(5) volume_node [OF v] m(2) by metis
  have lm: "latest s m" using m(1) by (simp add: next_inode_def latest_def)
  have "inum_ok p" "p \<noteq> m" using volume_node [OF v pd(1)] pd(1) m(2) by auto
  then have grows: "file_size (inode_at u p) \<le> file_size (inode_at s p) + 4096"
    using t(2) u''(4) by (simp add: file_entered_def)
  have cu: "cached u ?N Q" using t(3-5) cache_ok_enter [OF t(4) pd(2) m(2)] u(4) by (auto simp: cached_def)
  obtain q where q: "new \<noteq> ''/''" "get_parent_path new (int (length new)) = Some q" "resolve N q = p"
    "get_child_name new (int (length new)) = Some name" using a by (auto simp: absent_in_def)
  have "p \<noteq> -1" using volume_node [OF v pd(1)] by (auto simp: inum_ok_def)
  then have res: "resolve ?N new = m" by (rule resolve_entered [OF pd(2) m(2) q(1) _ q(2,4,3)])
  obtain c3 where 3: "get_inode_num_from_path u new = Some (m, u\<lparr>iname_cache := c3\<rparr>)"
    "cached (u\<lparr>iname_cache := c3\<rparr>) ?N Q"
    using lookup_cached [OF u(2) cu c(2,3)] res by metis
  have "resolve ?N new \<noteq> -1" using res m0(2) by simp
  from volume_read [OF u(2) this, of c3] have "read_inode (u\<lparr>iname_cache := c3\<rparr>) m = Some (Some ?i)"
    by (simp add: res u(3))
  then have tr: "custom_truncate u new 0 = Some (0, u\<lparr>iname_cache := c3\<rparr>)"
    using 3(1) m0(2) by (simp add: custom_truncate_def newborn_empty u64_id)
  define w where "w = (if flags AND O_TRUNC \<noteq> 0 then u\<lparr>iname_cache := c3\<rparr> else u)"
  have "custom_open now s new flags = Some (m, w)"
    unfolding custom_open_def using 0(1) t(1) u(1) tr m0(2) flags by (simp add: w_def)
  then have o: "charm_open now s new flags = Some (0, w)"
    using m0(2) by (simp add: charm_open_def)
  have "size_ok (inode_at u m)" unfolding u(3) by (simp add: size_ok_def newborn_empty)
  then have su: "sound u ?N"
    using sound_enter [OF s pd(1) m(2) _ lm u(2) _ cache_ok_enter [OF t(4) pd(2) m(2)] u(5,6)] t(3) u(4) by simp
  then have "sound (u\<lparr>iname_cache := c3\<rparr>) ?N" using 3(2) by (rule sound_cached)
  then have "sound w ?N" "cached w ?N Q" using su cu 3(2) by (simp_all add: w_def)
  then show thesis
    by (rule that [OF o]) (use u(3,5,6) old F(3-5) u''(1,2) grows in \<open>simp_all add: latest_def w_def\<close>)
qed

lemma rename_flags: "(1 OR O_CREAT OR O_TRUNC) AND O_CREAT \<noteq> 0"
  by (simp add: O_CREAT_def O_TRUNC_def)

text \<open>Opening an existing file to be cut to nothing.\<close>

lemma truncatable_cache [simp]: "truncatable (s\<lparr>iname_cache := c\<rparr>) i a = truncatable s i a"
  by (simp add: truncatable_def cuttable_def clean_list_def clean_double_def)

lemma open_existing:
  assumes s: "sound s N" "cached s N (set (ancestors path))" "regular_at s N path n" "truncatable s (inode_at s n) 0"
    and flags: "flags AND O_TRUNC \<noteq> 0"
  obtains t where "charm_open now s path flags = Some (0, t)" "sound t N"
proof -
  have n: "resolve N path = n" "n \<in> nodes N" "\<not> S_ISDIR (mode (inode_at s n))"
    using s(3) by (simp_all add: regular_at_def)
  note I = regular_node [OF s(1) n(2,3)]
  obtain c1 where 1: "get_inode_num_from_path s path = Some (n, s\<lparr>iname_cache := c1\<rparr>)"
    "cached (s\<lparr>iname_cache := c1\<rparr>) N (set (ancestors path))"
    using lookup_cached [OF sound_volume [OF s(1)] s(2)] n(1) by (metis List.finite_set order_refl)
  let ?s = "s\<lparr>iname_cache := c1\<rparr>"
  have s1: "sound ?s N" by (rule sound_cached [OF s(1) 1(2)])
  obtain c2 l where 2: "get_inode_num_from_path ?s path = Some (n, ?s\<lparr>iname_cache := c2\<rparr>)" "lru_rep c2 l" "cache_ok N l"
    using lookup_cached [OF sound_volume [OF s1] 1(2)] n(1) by (metis List.finite_set order_refl)
  have p: "\<not> S_ISDIR (mode (inode_at ?s n))" "truncatable ?s (inode_at ?s n) 0" using n(3) s(4) by simp_all
  obtain t where t: "custom_truncate ?s path 0 = Some (if 0 \<le> file_size (inode_at ?s n) then 0 else -1, t)" "sound t N"
    by (rule sound_custom_truncate [OF s1 n(2) p(1) 2 p(2)])
  have "0 \<le> file_size (inode_at s n)" using I(3) by (auto simp: size_ok_def)
  then have "custom_truncate ?s path 0 = Some (0, t)" using t(1) by simp
  moreover have "0 < n" using I(1) by (simp add: inum_ok_def)
  ultimately have "charm_open now s path flags = Some (0, t)"
    using 1(1) flags by (simp add: charm_open_def custom_open_def)
  then show thesis using t(2) by (rule that)
qed

section \<open>The copy\<close>

text \<open>
  The state while the copy is at position \<open>x\<close>: file \<open>n\<close> still has its \<open>L\<close> bytes \<open>f\<close>, file \<open>m\<close> has
  the first \<open>x\<close> of them, and of \<open>K\<close> free blocks three per block of \<open>m\<close> may be gone.
\<close>

definition copying ::
  "dir_tree \<Rightarrow> string set \<Rightarrow> int \<Rightarrow> int \<Rightarrow> (int \<Rightarrow> byte) \<Rightarrow> int \<Rightarrow> int \<Rightarrow> fstate \<Rightarrow> int \<Rightarrow> bool" where
  "copying N Q n m f L K s x \<longleftrightarrow> sound s N \<and> cached s N Q \<and>
     \<not> S_ISDIR (mode (inode_at s n)) \<and> \<not> S_ISDIR (mode (inode_at s m)) \<and>
     file_size (inode_at s n) = L \<and> (\<forall>y. 0 \<le> y \<longrightarrow> y < L \<longrightarrow> file_byte s (inode_at s n) y = f y) \<and>
     file_size (inode_at s m) = x \<and> (\<forall>y. 0 \<le> y \<longrightarrow> y < x \<longrightarrow> file_byte s (inode_at s m) y = f y) \<and>
     num_blocks (inode_at s m) \<le> (if x = 0 then 0 else x div 4096 + 1) \<and>
     K \<le> int (card (free_set s)) + 3 * num_blocks (inode_at s m)"

lemma size_bound: "size_ok i \<Longrightarrow> 0 \<le> y \<Longrightarrow> y < file_size i \<Longrightarrow> y < num_blocks i * 4096"
  by (auto simp: size_ok_def)

lemma kept_bytes:
  assumes "wf_file s i" "size_ok i" "set (owned (blocks s) i) \<inter> free_set t = {}"
    and "\<And>b. b \<in> set (owned (blocks s) i) \<Longrightarrow> blocks t b = blocks s b" "0 \<le> y" "y < file_size i"
  shows "file_byte t i y = file_byte s i y"
  by (rule file_kept(3) [OF assms(1,3,4,5) size_bound [OF assms(2,5,6)]])

lemma copy_read:
  assumes c: "copying N Q n m f L K s x" and x: "0 \<le> x" "x \<le> L" and b: "length buff = 4096"
    and p: "resolve N old = n" "set (ancestors old) \<subseteq> Q" "finite Q" "n \<in> nodes N" "m \<in> nodes N" "n \<noteq> m"
    and now: "in_s64 now"
  obtains t buff' where "custom_read now s old buff 4096 x = Some (min 4096 (L - x), buff', t)"
    "length buff' = 4096" "\<forall>k < nat (min 4096 (L - x)). buff' ! k = f (x + int k)" "copying N Q n m f L K t x"
proof -
  let ?i = "inode_at s n" and ?j = "inode_at s m" and ?r = "min 4096 (L - x)"
  have C: "sound s N" "cached s N Q" "\<not> S_ISDIR (mode ?i)" "\<not> S_ISDIR (mode ?j)" "file_size ?i = L"
    "\<forall>y. 0 \<le> y \<longrightarrow> y < L \<longrightarrow> file_byte s ?i y = f y" "file_size ?j = x"
    "\<forall>y. 0 \<le> y \<longrightarrow> y < x \<longrightarrow> file_byte s ?j y = f y"
    "num_blocks ?j \<le> (if x = 0 then 0 else x div 4096 + 1)" "K \<le> int (card (free_set s)) + 3 * num_blocks ?j"
    using c by (simp_all add: copying_def)
  note I = regular_node [OF C(1) p(4) C(3)]
  note J = regular_node [OF C(1) p(5) C(4)]
  obtain cc l where look: "get_inode_num_from_path s old = Some (n, s\<lparr>iname_cache := cc\<rparr>)"
    "cached (s\<lparr>iname_cache := cc\<rparr>) N Q" "lru_rep cc l" "cache_ok N l"
    using lookup_cached [OF sound_volume [OF C(1)] C(2) p(2,3)] p(1) by metis
  have "L < 2 ^ 62" using wf_file_bytes [OF I(2)] I(3) C(5) by (auto simp: size_ok_def)
  then have a: "x \<le> file_size ?i" "(0 :: int) \<le> 4096" "4096 \<le> int (length buff)" "x + 4096 < 2 ^ 64"
    using x b C(5) by simp_all
  obtain t where t: "custom_read now s old buff 4096 x = Some (?r, file_bytes s ?i x ?r @
      replicate (nat (4096 - ?r)) 0 @ drop (nat 4096) buff, t)"
    "fl_inv t" "sb_ok t" "free_set t = free_set s" "core t = core (s\<lparr>iname_cache := cc\<rparr>)"
    "\<And>b. data_block b \<Longrightarrow> blocks t b = blocks s b"
    "\<And>k. inum_ok k \<Longrightarrow> inode_at t k = (if k = n \<and> file_size ?i \<noteq> 0 then ?i\<lparr>access_time := now\<rparr> else inode_at s k)"
    by (rule custom_read_ok [OF look(1) I(4,5,1) now refl I(2,3) x(1) a]) (simp add: C(5))
  have T1: "sound t N" by (rule sound_touched(1) [OF C(1) p(4) C(3) look(3,4) t(5,2-4,6,7)])
  have T2: "file_byte t (inode_at t n) y = file_byte s ?i y" if "0 \<le> y" "y < num_blocks ?i * 4096" for y
    by (rule sound_touched(2) [OF C(1) p(4) C(3) look(3,4) t(5,2-4,6,7) that])
  have m: "inode_at t m = ?j" using t(7) [OF J(1)] p(6) by simp
  have n: "mode (inode_at t n) = mode ?i" "file_size (inode_at t n) = L" using t(7) [OF I(1)] C(5) by auto
  have cache: "cached t N Q" using look(2) cached_cong [of t "s\<lparr>iname_cache := cc\<rparr>"] core_after(1) [OF t(5)] by simp
  have jb: "file_byte t ?j y = file_byte s ?j y" if "0 \<le> y" "y < x" for y
    by (rule kept_bytes [OF J(2,3)]) (use J(2) t(4,6) that C(7) in \<open>auto simp: wf_file_def\<close>)
  have ib: "file_byte t (inode_at t n) y = f y" if "0 \<le> y" "y < L" for y
    using T2 [OF that(1)] size_bound [OF I(3) that(1)] C(5,6) that by simp
  have "copying N Q n m f L K t x"
    unfolding copying_def m using T1 cache C(3,4,7-10) n ib jb t(4) by simp
  moreover have "length (file_bytes s ?i x ?r @ replicate (nat (4096 - ?r)) 0 @ drop (nat 4096) buff) = 4096"
    using x b by (simp add: file_bytes_def)
  moreover have "\<forall>k < nat ?r. (file_bytes s ?i x ?r @ replicate (nat (4096 - ?r)) 0 @ drop (nat 4096) buff) ! k = f (x + int k)"
    using x C(6) by (auto simp: file_bytes_def nth_append)
  ultimately show thesis using that t(1) by blast
qed

lemma copy_write:
  assumes c: "copying N Q n m f L K s x" and x: "0 \<le> x" "x + r \<le> L" and r: "0 < r" "r \<le> 4096"
    and b: "length buff = 4096" "\<forall>k < nat r. buff ! k = f (x + int k)"
    and p: "resolve N new = m" "set (ancestors new) \<subseteq> Q" "finite Q" "n \<in> nodes N" "m \<in> nodes N" "n \<noteq> m"
    and now: "in_s64 now" and room: "3 * (L div 4096 + 1) \<le> K"
  obtains t where "custom_write now s new buff r x = Some (r, t)" "copying N Q n m f L K t (x + r)"
proof -
  let ?i = "inode_at s n" and ?j = "inode_at s m"
  have C: "sound s N" "cached s N Q" "\<not> S_ISDIR (mode ?i)" "\<not> S_ISDIR (mode ?j)" "file_size ?i = L"
    "\<forall>y. 0 \<le> y \<longrightarrow> y < L \<longrightarrow> file_byte s ?i y = f y" "file_size ?j = x"
    "\<forall>y. 0 \<le> y \<longrightarrow> y < x \<longrightarrow> file_byte s ?j y = f y"
    "num_blocks ?j \<le> (if x = 0 then 0 else x div 4096 + 1)" "K \<le> int (card (free_set s)) + 3 * num_blocks ?j"
    using c by (simp_all add: copying_def)
  note v = sound_volume [OF C(1)]
  note I = regular_node [OF C(1) p(4) C(3)]
  note J = regular_node [OF C(1) p(5) C(4)]
  obtain cc l where look: "get_inode_num_from_path s new = Some (m, s\<lparr>iname_cache := cc\<rparr>)"
    "cached (s\<lparr>iname_cache := cc\<rparr>) N Q" "lru_rep cc l" "cache_ok N l"
    using lookup_cached [OF v C(2) p(2,3)] p(1) by metis
  have "L < 2 ^ 61" using wf_file_bytes [OF I(2)] I(3) C(5) by (auto simp: size_ok_def)
  then have a: "r \<le> int (length buff)" "x + r < 2 ^ 62" using x r b(1) by simp_all
  have mono: "x div 4096 \<le> (x + r) div 4096" "(x + r) div 4096 \<le> L div 4096" "0 \<le> x div 4096"
    using x r by (simp_all add: zdiv_mono1 pos_imp_zdiv_nonneg_iff)
  have nb: "num_blocks ?j \<le> x div 4096 + 1" using C(9) mono(3) by (auto split: if_splits)
  have "wanted ?j (x + r) = max 0 ((x + r) div 4096 - num_blocks ?j + 1)" using r(1) C(7) by (simp add: wanted_def)
  with nb mono have w: "num_blocks ?j + wanted ?j (x + r) = (x + r) div 4096 + 1" by auto
  then have enough: "\<not> int (card (free_set s)) < 3 * wanted ?j (x + r)" using C(10) room mono(2) by simp
  obtain t i where t: "custom_write now s new buff r x = Some (r, t)" "written (s\<lparr>iname_cache := cc\<rparr>) ?j x r buff i t"
    "num_blocks i = num_blocks ?j + wanted ?j (x + r)"
    "\<forall>k. inum_ok k \<longrightarrow> inode_at t k = (if k = m then i else inode_at s k)"
    using custom_write_full [OF look(1) J(4,5,1) now refl J(2,3) x(1) r(1) a] enough by blast
  note S = sound_written [OF C(1) p(5) C(4) look(3,4) t(2,4)]
  have W: "mode i = mode ?j" "file_size i = max (file_size ?j) (x + r)" "size_ok i" "free_set t \<subseteq> free_set s"
    "int (card (free_set s)) \<le> int (card (free_set t)) + 3 * (num_blocks i - num_blocks ?j)"
    "\<forall>b. data_block b \<longrightarrow> b \<notin> free_set s \<longrightarrow> b \<notin> set (owned (blocks s) ?j) \<longrightarrow> blocks t b = blocks s b"
    "\<forall>y. 0 \<le> y \<and> y < num_blocks i * 4096 \<longrightarrow> file_byte t i y =
        (if x \<le> y \<and> y < x + r then buff ! nat (y - x)
         else if y < num_blocks ?j * 4096 then file_byte (s\<lparr>iname_cache := cc\<rparr>) ?j y else 0)"
    using t(2) by (simp_all add: written_def)
  have n: "inode_at t n = ?i" and m: "inode_at t m = i" using t(4) I(1) J(1) p(6) by simp_all
  have size: "file_size i = x + r" using W(2) C(7) r(1) by simp
  have same: "file_byte (s\<lparr>iname_cache := cc\<rparr>) ?j = file_byte s ?j" by (simp add: file_byte_def fun_eq_iff)
  have jb: "file_byte t i y = f y" if y: "0 \<le> y" "y < x + r" for y
  proof -
    have "y < num_blocks i * 4096" by (rule size_bound [OF W(3) y(1)]) (simp add: size y(2))
    then have e: "file_byte t i y = (if x \<le> y \<and> y < x + r then buff ! nat (y - x)
         else if y < num_blocks ?j * 4096 then file_byte s ?j y else 0)" using W(7) y(1) by (simp add: same)
    show ?thesis
    proof (cases "x \<le> y")
      case True
      then have "buff ! nat (y - x) = f (x + int (nat (y - x)))" using b(2) y(2) by simp
      then show ?thesis using e True y(2) by simp
    next
      case False
      then have "y < num_blocks ?j * 4096" using size_bound [OF J(3) y(1)] C(7) by simp
      then show ?thesis using e False C(8) y(1) by simp
    qed
  qed
  have own: "data_block b \<and> b \<notin> free_set s \<and> b \<notin> set (owned (blocks s) ?j)" if "b \<in> set (owned (blocks s) ?i)" for b
    using that I(2) volume_disjoint [OF v p(4,5,6)] by (auto simp: wf_file_def)
  have ib: "file_byte t ?i y = f y" if y: "0 \<le> y" "y < L" for y
  proof -
    have "file_byte t ?i y = file_byte s ?i y"
      by (rule kept_bytes [OF I(2,3) _ _ y(1)]) (use own W(4,6) y(2) C(5) in auto)
    then show ?thesis using C(6) y by simp
  qed
  have cache: "cached t N Q" using look(2) cached_cong [of t "s\<lparr>iname_cache := cc\<rparr>"] S(2) by simp
  have "copying N Q n m f L K t (x + r)"
    unfolding copying_def n m using S(1) cache C(3-5,10) W(1,5) size jb ib t(3) w r(1) x(1) by simp
  with t(1) show thesis by (rule that)
qed

lemma copy_all:
  assumes "copying N Q n m f L K s x" "0 \<le> x" "x \<le> L" "length buff = 4096"
    and p: "resolve N old = n" "set (ancestors old) \<subseteq> Q" "resolve N new = m" "set (ancestors new) \<subseteq> Q" "finite Q"
      "n \<in> nodes N" "m \<in> nodes N" "n \<noteq> m"
    and k: "in_s64 now" "3 * (L div 4096 + 1) \<le> K"
  shows "\<exists>t. rename_copy now s old new buff x = Some (True, t) \<and> copying N Q n m f L K t L"
  using assms(1-4)
proof (induction "nat (L - x)" arbitrary: s x buff rule: less_induct)
  case less
  let ?r = "min 4096 (L - x)"
  obtain t buff' where t: "custom_read now s old buff 4096 x = Some (?r, buff', t)"
    "length buff' = 4096" "\<forall>k < nat ?r. buff' ! k = f (x + int k)" "copying N Q n m f L K t x"
    by (rule copy_read [OF less.prems p(1,2,5-8) k(1)])
  show ?case
  proof (cases "x = L")
    case True
    then have "rename_copy now s old new buff x = Some (True, t)"
      using t(1) by (subst rename_copy.simps) (simp add: geometry u64_id)
    then show ?thesis using t(4) True by blast
  next
    case False
    then have r: "0 < ?r" "?r \<le> 4096" "x + ?r \<le> L" using less.prems(3) by simp_all
    obtain u where u: "custom_write now t new buff' ?r x = Some (?r, u)" "copying N Q n m f L K u (x + ?r)"
      by (rule copy_write [OF t(4) less.prems(2) r(3,1,2) t(2,3) p(3-8) k])
    have "sound s N" "\<not> S_ISDIR (mode (inode_at s n))" "file_size (inode_at s n) = L"
      using less.prems(1) by (simp_all add: copying_def)
    note I = regular_node [OF this(1) p(6) this(2)] this(3)
    have L: "L < 2 ^ 62" using wf_file_bytes [OF I(2)] I(3,6) by (auto simp: size_ok_def)
    then have e: "u64 ?r = ?r" "u64 (x + ?r) = x + ?r" using r less.prems(2) by (simp_all add: u64_id)
    have "nat (L - (x + ?r)) < nat (L - x)" "0 \<le> x + ?r" using r less.prems(2) by simp_all
    then obtain w where w: "rename_copy now u old new buff' (x + ?r) = Some (True, w)" "copying N Q n m f L K w L"
      using less.hyps [OF _ u(2) _ r(3) t(2)] by blast
    have "rename_copy now s old new buff x = Some (True, w)"
      using t(1) u(1) w(1) r(1) e by (subst rename_copy.simps) (simp add: geometry Let_def)
    then show ?thesis using w(2) by blast
  qed
qed

section \<open>The whole operation\<close>

text \<open>The state in which the copy is complete and the old name still there.\<close>

definition rename_copied :: "int \<Rightarrow> fstate \<Rightarrow> string \<Rightarrow> string \<Rightarrow> fstate option" where
  "rename_copied now s old new = do {
     (r, s) \<leftarrow> charm_access s old 0;
     (r, s) \<leftarrow> charm_access s new 193;
     (r, s) \<leftarrow> charm_open now s new (1 OR O_CREAT OR O_TRUNC);
     (ok, s) \<leftarrow> rename_copy now s old new (replicate 4096 0) 0;
     Some s }"

lemma charm_rename_ok:
  assumes s: "sound s N" and o: "resolve N old = n" "n \<noteq> -1" "\<not> S_ISDIR (mode (inode_at s n))"
    and a: "absent_in s N new p name" and m: "next_inode s m" "m \<notin> nodes N"
    and c: "cached s N (set (ancestors old) \<union> set (ancestors new))"
    and r: "3 * (file_size (inode_at s n) div 4096 + 2) \<le> int (card (free_set s))" "in_s64 now"
      "in_s64 (file_size (inode_at s p) + 4096)"
  obtains t where "rename_copied now s old new = Some t" "sound t (enter N p name m Map.empty)"
    "cached t (enter N p name m Map.empty) (set (ancestors old) \<union> set (ancestors new))"
    "resolve (enter N p name m Map.empty) new = m" "resolve (enter N p name m Map.empty) old = n"
    "\<not> S_ISDIR (mode (inode_at t m))" "file_size (inode_at t m) = file_size (inode_at s n)"
    "file_size (inode_at t n) = file_size (inode_at s n)"
    "\<And>x. 0 \<le> x \<Longrightarrow> x < file_size (inode_at s n) \<Longrightarrow>
       file_byte t (inode_at t m) x = file_byte s (inode_at s n) x \<and>
       file_byte t (inode_at t n) x = file_byte s (inode_at s n) x"
    "charm_rename now errno s old new = (case custom_unlink now t old of None \<Rightarrow> None
       | Some (r, u) \<Rightarrow> Some (if r = -1 then - errno else 0, u))"
proof -
  let ?N = "enter N p name m Map.empty" and ?Q = "set (ancestors old) \<union> set (ancestors new)"
  let ?i = "inode_at s n"
  define L where "L = file_size ?i"
  define f where "f = file_byte s ?i"
  note v = sound_volume [OF s]
  have Q: "set (ancestors old) \<subseteq> ?Q" "set (ancestors new) \<subseteq> ?Q" "finite ?Q" by auto
  have n: "n \<in> nodes N" using resolve_node [of N old] o by blast
  note I = regular_node [OF s n o(3)]
  have pd: "p \<in> nodes N" "N p name = None" "S_ISDIR (mode (inode_at s p))" using a by (simp_all add: absent_in_def)
  have np: "n \<noteq> p" "n \<noteq> m" using pd(3) o(3) n m(2) by auto
  have "0 \<le> L div 4096" using I(3) by (auto simp: L_def size_ok_def pos_imp_zdiv_nonneg_iff)
  then have three: "3 \<le> card (free_set s)" using r(1) by (simp add: L_def)
  obtain c1 where 1: "get_inode_num_from_path s old = Some (n, s\<lparr>iname_cache := c1\<rparr>)"
    "cached (s\<lparr>iname_cache := c1\<rparr>) N ?Q" using lookup_cached [OF v c Q(1,3)] o(1) by metis
  let ?s1 = "s\<lparr>iname_cache := c1\<rparr>"
  have s1: "sound ?s1 N" by (rule sound_cached [OF s 1(2)])
  obtain c2 where 2: "get_inode_num_from_path ?s1 new = Some (-1, ?s1\<lparr>iname_cache := c2\<rparr>)"
    "cached (?s1\<lparr>iname_cache := c2\<rparr>) N ?Q"
    using lookup_cached [OF sound_volume [OF s1] 1(2) Q(2,3)] absent_unresolved [OF a] by metis
  let ?s2 = "s\<lparr>iname_cache := c2\<rparr>"
  have s2: "sound ?s2 N" using sound_cached [OF s1 2(2)] by simp
  have pre: "absent_in ?s2 N new p name" "next_inode ?s2 m" "cached ?s2 N ?Q" "3 \<le> card (free_set ?s2)"
    "in_s64 (file_size (inode_at ?s2 p) + 4096)"
    using a m(1) 2(2) three r(3) by (simp_all add: absent_in_cache next_inode_def)
  obtain t where t: "charm_open now ?s2 new (1 OR O_CREAT OR O_TRUNC) = Some (0, t)"
    "sound t ?N" "cached t ?N ?Q" "inode_at t m = newborn now (S_IFREG OR DEFAULT_PERMS) (inode_at ?s2 m)"
    "\<forall>k \<in> nodes N. k \<noteq> p \<longrightarrow> inode_at t k = inode_at ?s2 k" "card (free_set ?s2) \<le> card (free_set t) + 3"
    "free_set t \<subseteq> free_set ?s2"
    "\<forall>b. data_block b \<longrightarrow> b \<notin> free_set ?s2 \<longrightarrow> b \<notin> set (owned (blocks ?s2) (inode_at ?s2 p)) \<longrightarrow>
       blocks t b = blocks ?s2 b"
    by (rule open_new [OF s2 pre(1,2) m(2) pre(3) Q(2,3) pre(4) r(2) pre(5) rename_flags]) blast
  have ro: "resolve ?N old = n" using resolve_enter [OF pd(2) m(2), of old] o(1,2) by simp
  obtain q where q: "new \<noteq> ''/''" "get_parent_path new (int (length new)) = Some q" "resolve N q = p"
    "get_child_name new (int (length new)) = Some name" using a by (auto simp: absent_in_def)
  have p1: "p \<noteq> -1" "m \<noteq> -1" using volume_node [OF v pd(1)] m(1) by (auto simp: inum_ok_def next_inode_def)
  have rm: "resolve ?N new = m" by (rule resolve_entered [OF pd(2) m(2) q(1) p1(1) q(2,4,3)])
  have nodes: "n \<in> nodes ?N" "m \<in> nodes ?N"
    using resolve_node [of ?N old] resolve_node [of ?N new] ro rm o(2) p1(2) by auto
  have tn: "inode_at t n = ?i" using t(5) n np(1) by simp
  have own: "data_block b \<and> b \<notin> free_set s \<and> b \<notin> set (owned (blocks s) (inode_at s p))" if "b \<in> set (owned (blocks s) ?i)" for b
    using that I(2) volume_disjoint [OF v n pd(1) np(1)] by (auto simp: wf_file_def)
  have bytes: "file_byte t ?i y = f y" if "0 \<le> y" "y < L" for y
    unfolding f_def by (rule kept_bytes [OF I(2,3) _ _ that(1)]) (use own t(7,8) that(2) L_def in auto)
  have "\<not> S_ISDIR (S_IFREG OR DEFAULT_PERMS)"
    by (simp add: S_ISDIR_def S_IFREG_def S_IFDIR_def S_IFMT_def DEFAULT_PERMS_def)
  then have start: "copying ?N ?Q n m f L (int (card (free_set t))) t 0"
    unfolding copying_def using t(2,3) o(3) bytes by (simp add: tn t(4) newborn_empty L_def)
  have room: "3 * (L div 4096 + 1) \<le> int (card (free_set t))" using r(1) t(6) by (simp add: L_def)
  have "0 \<le> L" using I(3) by (auto simp: L_def size_ok_def)
  from copy_all [OF start _ this _ ro Q(1) rm Q(2,3) nodes np(2) r(2) room, of "replicate 4096 0"]
  obtain w where w: "rename_copy now t old new (replicate 4096 0) 0 = Some (True, w)"
    "copying ?N ?Q n m f L (int (card (free_set t))) w L" by auto
  have run: "rename_copied now s old new = Some w"
    "charm_rename now errno s old new = (case custom_unlink now w old of None \<Rightarrow> None
       | Some (r, u) \<Rightarrow> Some (if r = -1 then - errno else 0, u))"
  proof -
    have "charm_access s old 0 = Some (0, ?s1)" using 1(1) o(2) by (simp add: charm_access_def)
    moreover have "charm_access ?s1 new 193 = Some (- ENOENT, ?s2)" using 2(1) by (simp add: charm_access_def)
    ultimately show "rename_copied now s old new = Some w"
      "charm_rename now errno s old new = (case custom_unlink now w old of None \<Rightarrow> None
         | Some (r, u) \<Rightarrow> Some (if r = -1 then - errno else 0, u))"
      using t(1) w(1) by (auto simp: charm_rename_def rename_copied_def ENOENT_def split: option.split)
  qed
  show thesis
    by (rule that [OF run(1) _ _ rm ro _ _ _ _ run(2)]) (use w(2) in \<open>auto simp: copying_def L_def f_def\<close>)
qed

text \<open>What the callback then does to the tree, and returns.\<close>

lemma sound_rename:
  assumes s: "sound s N" "regular_at s N old n" "absent_in s N new p name" "latest s m" "inum_ok m"
    and c: "cached s N (set (ancestors old) \<union> set (ancestors new))"
    and r: "3 * (file_size (inode_at s n) div 4096 + 2) \<le> int (card (free_set s))" "in_s64 now"
      "in_s64 (file_size (inode_at s p) + 4096)"
    and t: "rename_copied now s old new = Some t" "cache_space t old"
      "present_in (enter N p name m Map.empty) old q oname n" "unlinkable t q oname n D"
      "enter N p name m Map.empty q = map_of (dir_names D)" "only_path t (enter N p name m Map.empty) old n"
  obtains s' where "charm_rename now errno s old new = Some (0, s')"
    "sound s' (leave (enter N p name m Map.empty) q oname n)"
proof -
  let ?N = "enter N p name m Map.empty"
  have n: "resolve N old = n" "n \<noteq> -1" "\<not> S_ISDIR (mode (inode_at s n))"
    using s(2) volume_node [OF sound_volume [OF s(1)], of n] by (auto simp: regular_at_def inum_ok_def)
  obtain t' where "rename_copied now s old new = Some t'" "sound t' ?N"
    and run: "charm_rename now errno s old new = (case custom_unlink now t' old of None \<Rightarrow> None
       | Some (r, u) \<Rightarrow> Some (if r = -1 then - errno else 0, u))"
    by (rule charm_rename_ok [OF s(1) n s(3) sound_next [OF s(1,4,5)] c r]) blast
  then have e: "t' = t" and st: "sound t ?N" using t(1) by simp_all
  obtain u where u: "charm_unlink now t old = Some (0, u)"
    using returns_unlink [OF st t(2) r(2) t(3-6)] by blast
  then obtain v where "custom_unlink now t old = Some (v, u)" "v \<noteq> -1"
    by (auto simp: charm_unlink_def bind_eq_Some_conv split: if_splits)
  then have "charm_rename now errno s old new = Some (0, u)" using run by (simp add: e)
  moreover have "sound u (leave ?N q oname n)" by (rule sound_unlink [OF st u t(2) r(2) t(3-6)])
  ultimately show thesis by (rule that)
qed

text \<open>A target that exists is refused.\<close>

lemma sound_rename_refused:
  assumes s: "sound s N" "resolve N old \<noteq> -1" "resolve N new \<noteq> -1"
    and c: "cached s N (set (ancestors old) \<union> set (ancestors new))"
  obtains s' where "charm_rename now errno s old new = Some (- errno, s')" "sound s' N"
proof -
  let ?Q = "set (ancestors old) \<union> set (ancestors new)"
  have Q: "set (ancestors old) \<subseteq> ?Q" "set (ancestors new) \<subseteq> ?Q" "finite ?Q" by auto
  obtain c1 where 1: "get_inode_num_from_path s old = Some (resolve N old, s\<lparr>iname_cache := c1\<rparr>)"
    "cached (s\<lparr>iname_cache := c1\<rparr>) N ?Q" using lookup_cached [OF sound_volume [OF s(1)] c Q(1,3)] by metis
  let ?s = "s\<lparr>iname_cache := c1\<rparr>"
  have s1: "sound ?s N" by (rule sound_cached [OF s(1) 1(2)])
  obtain c2 where 2: "get_inode_num_from_path ?s new = Some (resolve N new, ?s\<lparr>iname_cache := c2\<rparr>)"
    "cached (?s\<lparr>iname_cache := c2\<rparr>) N ?Q" using lookup_cached [OF sound_volume [OF s1] 1(2) Q(2,3)] by metis
  have "charm_rename now errno s old new = Some (- errno, ?s\<lparr>iname_cache := c2\<rparr>)"
    using 1(1) 2(1) s(2,3) by (simp add: charm_rename_def charm_access_def)
  then show thesis by (rule that) (rule sound_cached [OF s1 2(2)])
qed

section \<open>A file to rename, for a closed example\<close>

lemma rename_slots: "slot CACHE_SIZE ''/a'' \<noteq> slot CACHE_SIZE ''/b''"
  by code_simp

lemma started_cached:
  obtains s :: fstate where "sound s root_tree" "cached s root_tree {''/a'', ''/b''}" "next_inode s 3"
    "235923 \<le> card (free_set s)" "file_size (inode_at s ROOT_INODE) \<le> 8192"
proof -
  obtain s :: fstate where s: "volume_ok s root_tree" "lru_rep (iname_cache s) []"
    "csize (iname_cache s) = 0" "capacity (iname_cache s) = CACHE_SIZE" "next_inode s 3"
    "235923 \<le> card (free_set s)" "file_size (inode_at s ROOT_INODE) \<le> 8192"
    "init_file_layer 0 (blank_inode (inode_at sample_volume 4)) (file_state empty_cache) = Some (True, s)"
    "fresh s root_tree" by (rule started_fresh)
  have "sound s root_tree" by (rule sound_root [OF s(1,2,9)])
  moreover have "cached s root_tree {''/a'', ''/b''}"
    using s(2-4) rename_slots by (auto simp: cached_def cache_ok_def room_for_def CACHE_SIZE_def)
  ultimately show thesis using that s(5-7) by blast
qed

abbreviation a_tree :: dir_tree where
  "a_tree \<equiv> enter root_tree ROOT_INODE ''a'' 3 Map.empty"

lemma file_to_rename:
  obtains u where "sound u a_tree" "cached u a_tree (set (ancestors ''/a'') \<union> set (ancestors ''/b''))"
    "resolve a_tree ''/a'' = 3" "\<not> S_ISDIR (mode (inode_at u 3))" "file_size (inode_at u 3) = 3"
    "file_byte u (inode_at u 3) 1 = 2" "next_inode u 4" "4 \<notin> nodes a_tree" "9 \<le> card (free_set u)"
    "in_s64 (file_size (inode_at u ROOT_INODE) + 4096)" "absent_in u a_tree ''/b'' ROOT_INODE ''b''"
proof -
  obtain s :: fstate where s: "sound s root_tree" "cached s root_tree {''/a'', ''/b''}" "next_inode s 3"
    "235923 \<le> card (free_set s)" "file_size (inode_at s ROOT_INODE) \<le> 8192" by (rule started_cached)
  have anc: "set (ancestors ''/a'') = {''/a''}" "set (ancestors ''/b'') = {''/b''}"
    using one_step_path(3) [of "''a''"] one_step_path(3) [of "''b''"] by simp_all
  have absent: "absent_in s root_tree ''/a'' ROOT_INODE ''a''"
    using absent_in_root [of "''a''"] sound_volume [OF s(1)] by simp
  have new: "3 \<notin> nodes root_tree" by (simp add: root_nodes ROOT_INODE_def)
  have wf: "wf_inode (inode_at x k)" for x :: fstate and k by (simp add: inode_at_def)
  have size: "in_s64 (file_size (inode_at s ROOT_INODE) + 4096)"
    using s(5) wf [of s ROOT_INODE] by (simp add: wf_inode_def in_s64_def)
  have time: "in_s64 0" by (simp add: in_s64_def)
  have three: "3 \<le> card (free_set s)" using s(4) by simp
  have sub: "set (ancestors ''/a'') \<subseteq> {''/a'', ''/b''}" "finite {''/a'', ''/b''}" by (simp_all add: anc)
  obtain t where t: "sound t a_tree" "cached t a_tree {''/a'', ''/b''}"
    "inode_at t 3 = newborn 0 (S_IFREG OR DEFAULT_PERMS) (inode_at s 3)"
    "card (free_set s) \<le> card (free_set t) + 3"
    "\<forall>k. inum_ok k \<longrightarrow> k \<noteq> ROOT_INODE \<longrightarrow> k \<noteq> 3 \<longrightarrow> inode_at t k = inode_at s k"
    "latest t (3 + 1)"
    "file_size (inode_at t ROOT_INODE) \<le> file_size (inode_at s ROOT_INODE) + 4096"
    by (rule open_new [OF s(1) absent s(3) new s(2) sub three time size rename_flags]) blast
  have res: "resolve a_tree ''/a'' = 3"
    using resolve_step [OF _ one_step_path(1,2) [of "''a''"], of a_tree]
    by (simp add: resolve_root enter_def ROOT_INODE_def)
  then have n3: "3 \<in> nodes a_tree" using resolve_node [of a_tree "''/a''"] by simp
  have reg: "\<not> S_ISDIR (mode (inode_at t 3))"
    by (simp add: t(3) newborn_empty S_ISDIR_def S_IFREG_def S_IFDIR_def S_IFMT_def DEFAULT_PERMS_def)
  note R = regular_node [OF t(1) n3 reg]
  obtain c l where c: "get_inode_num_from_path t ''/a'' = Some (3, t\<lparr>iname_cache := c\<rparr>)"
    "cached (t\<lparr>iname_cache := c\<rparr>) a_tree {''/a'', ''/b''}" "lru_rep c l" "cache_ok a_tree l"
    using lookup_cached [OF sound_volume [OF t(1)] t(2) sub] res by metis
  have one: "wanted (inode_at t 3) (0 + 3) = 1" by (simp add: wanted_def t(3) newborn_empty)
  obtain u i where u: "written (t\<lparr>iname_cache := c\<rparr>) (inode_at t 3) 0 3 [1, 2, 3] i u"
    "num_blocks i = num_blocks (inode_at t 3) + 1"
    "\<forall>k. inum_ok k \<longrightarrow> inode_at u k = (if k = 3 then i else inode_at t k)"
    using custom_write_full [OF c(1) R(4,5,1) time refl R(2,3), of 0 3 "[1, 2, 3]"] s(4) t(4) one by auto
  note S = sound_written [OF t(1) n3 reg c(3,4) u(1,3)]
  have ok: "inum_ok 3" "inum_ok 4" "inum_ok ROOT_INODE" by (simp_all add: inum_ok_def geometry ROOT_INODE_def)
  have i: "inode_at u 3 = i" "inode_at u ROOT_INODE = inode_at t ROOT_INODE"
    using u(3) t(5) ok by (simp_all add: ROOT_INODE_def)
  have W: "core u = core (t\<lparr>iname_cache := c\<rparr>)" "mode i = mode (inode_at t 3)" "file_size i = 3"
    "card (free_set t) \<le> card (free_set u) + 3" "file_byte u i 1 = 2"
    using u(1,2) by (simp_all add: written_def t(3) newborn_empty)
  have "latest u 4" using t(6) core_after(2) [OF W(1)] by (simp add: latest_def)
  note next4 = sound_next [OF S(1) this ok(2)]
  have root: "S_ISDIR (mode (inode_at u ROOT_INODE))"
    using entry_in_directory [OF sound_volume [OF S(1)], of ROOT_INODE "''a''" 3] by (simp add: enter_def nodes_def)
  have absent: "absent_in u a_tree ''/b'' ROOT_INODE ''b''"
    using one_step_path(1,2) [of "''b''"] root
    by (simp add: absent_in_def resolve_root nodes_def enter_def root_tree_def ROOT_INODE_def)
  have cu: "cached u a_tree (set (ancestors ''/a'') \<union> set (ancestors ''/b''))"
    using c(2) cached_cong [of u "t\<lparr>iname_cache := c\<rparr>"] S(2) by (simp add: anc insert_commute)
  show thesis
    by (rule that [OF S(1) cu res _ _ _ next4 _ _ absent])
      (use reg W i s(4,5) t(4,7) wf [of t ROOT_INODE] in \<open>auto simp: wf_inode_def in_s64_def\<close>)
qed

section \<open>Property\<close>

text \<open>
  C9: renaming a file to a new name, with blocks enough for a copy, first makes a second file of
  the same size and bytes under the new name, with the volume sound and the old file still there
  under its old name; what it then does and returns is unlinking the old name.
\<close>

theorem rename_copies_the_file_before_the_unlink:
  assumes "sound s N" "resolve N old = n" "n \<noteq> -1" "\<not> S_ISDIR (mode (inode_at s n))"
    and "absent_in s N new p name" "next_inode s m" "m \<notin> nodes N"
    and "cached s N (set (ancestors old) \<union> set (ancestors new))"
    and "3 * (file_size (inode_at s n) div 4096 + 2) \<le> int (card (free_set s))" "in_s64 now"
    and "in_s64 (file_size (inode_at s p) + 4096)"
  shows "\<exists>t. volume_ok t (enter N p name m Map.empty) \<and>
    resolve (enter N p name m Map.empty) new = m \<and> resolve (enter N p name m Map.empty) old = n \<and>
    \<not> S_ISDIR (mode (inode_at t m)) \<and> file_size (inode_at t m) = file_size (inode_at s n) \<and>
    (\<forall>x. 0 \<le> x \<longrightarrow> x < file_size (inode_at s n) \<longrightarrow>
       file_byte t (inode_at t m) x = file_byte s (inode_at s n) x \<and>
       file_byte t (inode_at t n) x = file_byte s (inode_at s n) x) \<and>
    charm_rename now errno s old new = (case custom_unlink now t old of None \<Rightarrow> None
       | Some (r, u) \<Rightarrow> Some (if r = -1 then - errno else 0, u))"
proof -
  obtain t where t: "sound t (enter N p name m Map.empty)"
    "resolve (enter N p name m Map.empty) new = m" "resolve (enter N p name m Map.empty) old = n"
    "\<not> S_ISDIR (mode (inode_at t m))" "file_size (inode_at t m) = file_size (inode_at s n)"
    "\<And>x. 0 \<le> x \<Longrightarrow> x < file_size (inode_at s n) \<Longrightarrow>
       file_byte t (inode_at t m) x = file_byte s (inode_at s n) x \<and>
       file_byte t (inode_at t n) x = file_byte s (inode_at s n) x"
    "charm_rename now errno s old new = (case custom_unlink now t old of None \<Rightarrow> None
       | Some (r, u) \<Rightarrow> Some (if r = -1 then - errno else 0, u))"
    by (rule charm_rename_ok [OF assms]) blast
  have "volume_ok t (enter N p name m Map.empty)" by (rule sound_volume [OF t(1)])
  then show ?thesis using t(2-7) by blast
qed

theorem rename_copies_the_file_before_the_unlink_witness:
  "\<exists>(s :: fstate) t. charm_rename 0 5 s ''/a'' ''/b'' = (case custom_unlink 0 t ''/a'' of None \<Rightarrow> None
       | Some (r, u) \<Rightarrow> Some (if r = -1 then -5 else 0, u)) \<and>
    file_size (inode_at t 4) = 3 \<and> file_byte t (inode_at t 4) 1 = 2"
proof -
  obtain u where u: "sound u a_tree" "cached u a_tree (set (ancestors ''/a'') \<union> set (ancestors ''/b''))"
    "resolve a_tree ''/a'' = 3" "\<not> S_ISDIR (mode (inode_at u 3))" "file_size (inode_at u 3) = 3"
    "file_byte u (inode_at u 3) 1 = 2" "next_inode u 4" "4 \<notin> nodes a_tree" "9 \<le> card (free_set u)"
    "in_s64 (file_size (inode_at u ROOT_INODE) + 4096)" "absent_in u a_tree ''/b'' ROOT_INODE ''b''"
    by (rule file_to_rename)
  have free: "3 * (file_size (inode_at u 3) div 4096 + 2) \<le> int (card (free_set u))" using u(5,9) by simp
  have "in_s64 0" by (simp add: in_s64_def)
  from rename_copies_the_file_before_the_unlink [OF u(1,3) _ u(4,11,7,8,2) free this u(10), of 5]
  obtain t where t: "file_size (inode_at t 4) = 3"
    "\<forall>x. 0 \<le> x \<longrightarrow> x < 3 \<longrightarrow> file_byte t (inode_at t 4) x = file_byte u (inode_at u 3) x"
    "charm_rename 0 5 u ''/a'' ''/b'' = (case custom_unlink 0 t ''/a'' of None \<Rightarrow> None
       | Some (r, u) \<Rightarrow> Some (if r = -1 then -5 else 0, u))" unfolding u(5) by auto
  have "file_byte t (inode_at t 4) 1 = 2" using t(2) u(6) by simp
  then show ?thesis using t(1,3) by blast
qed

end
