(* ===== verification/Session.thy ===== *)
theory Session
  imports Rename
begin

text \<open>
  Sessions: the file system is started once and then serves callbacks. \<open>fs_step\<close> is one callback
  on the state, with the tree the volume stands for before and after; its premises say which
  resources the callback finds. \<open>session\<close> are the reachable states; \<open>sound\<close> is their invariant.
\<close>

unbundle bit_operations_syntax

section \<open>Callbacks as steps\<close>

inductive fs_step :: "fstate \<Rightarrow> dir_tree \<Rightarrow> fstate \<Rightarrow> dir_tree \<Rightarrow> bool" where
  step_access: "charm_access s path m = Some (r, s') \<Longrightarrow> cache_space s path \<Longrightarrow> fs_step s N s' N"
| step_getattr: "charm_getattr s path = Some (r, st, s') \<Longrightarrow> cache_space s path \<Longrightarrow> fs_step s N s' N"
| step_mknod: "charm_mknod now s path m dev = Some (r, s') \<Longrightarrow> cache_space s path \<Longrightarrow> in_s64 now \<Longrightarrow>
    absent_in s N path p name \<Longrightarrow> latest s n \<Longrightarrow> inum_ok n \<Longrightarrow> \<not> S_ISDIR m \<Longrightarrow>
    3 \<le> card (free_set s) \<Longrightarrow> in_s64 (file_size (inode_at s p) + 4096) \<Longrightarrow>
    fs_step s N s' (enter N p name n Map.empty)"
| step_mkdir: "charm_mkdir now s path m = Some (r, s') \<Longrightarrow> cache_space s path \<Longrightarrow> in_s64 now \<Longrightarrow>
    absent_in s N path p name \<Longrightarrow> latest s n \<Longrightarrow> inum_ok n \<Longrightarrow> m AND S_IFMT = 0 \<Longrightarrow>
    6 \<le> card (free_set s) \<Longrightarrow> in_s64 (file_size (inode_at s p) + 4096) \<Longrightarrow>
    fs_step s N s' (enter N p name n [''.'' \<mapsto> n, ''..'' \<mapsto> n])"
| step_write: "charm_write now s path buff k a = Some (r, s') \<Longrightarrow> cache_space s path \<Longrightarrow> in_s64 now \<Longrightarrow>
    regular_at s N path n \<Longrightarrow> 0 \<le> a \<Longrightarrow> 0 < k \<Longrightarrow> k \<le> int (length buff) \<Longrightarrow> a + k < 2 ^ 62 \<Longrightarrow>
    fs_step s N s' N"
| step_read: "charm_read now s path buff k a = Some (r, buff', s') \<Longrightarrow> cache_space s path \<Longrightarrow> in_s64 now \<Longrightarrow>
    regular_at s N path n \<Longrightarrow> 0 \<le> a \<Longrightarrow> 0 \<le> k \<Longrightarrow> k \<le> int (length buff) \<Longrightarrow> a + k < 2 ^ 64 \<Longrightarrow>
    fs_step s N s' N"
| step_truncate: "charm_truncate s path a = Some (r, s') \<Longrightarrow> cache_space s path \<Longrightarrow>
    regular_at s N path n \<Longrightarrow> truncatable s (inode_at s n) a \<Longrightarrow> fs_step s N s' N"
| step_unlink: "charm_unlink now s path = Some (r, s') \<Longrightarrow> cache_space s path \<Longrightarrow> in_s64 now \<Longrightarrow>
    present_in N path p name n \<Longrightarrow> unlinkable s p name n D \<Longrightarrow> N p = map_of (dir_names D) \<Longrightarrow>
    only_path s N path n \<Longrightarrow> fs_step s N s' (leave N p name n)"
| step_rmdir: "charm_rmdir now s path = Some (r, s') \<Longrightarrow> cache_space s path \<Longrightarrow> in_s64 now \<Longrightarrow>
    present_in N path p name n \<Longrightarrow> unlinkable s p name n D \<Longrightarrow> N p = map_of (dir_names D) \<Longrightarrow>
    only_path s N path n \<Longrightarrow> fs_step s N s' (leave N p name n)"
| step_create: "charm_create now s path m flags = Some (r, s') \<Longrightarrow> cache_space s path \<Longrightarrow> in_s64 now \<Longrightarrow>
    absent_in s N path p name \<Longrightarrow> latest s n \<Longrightarrow> inum_ok n \<Longrightarrow>
    3 \<le> card (free_set s) \<Longrightarrow> in_s64 (file_size (inode_at s p) + 4096) \<Longrightarrow>
    fs_step s N s' (enter N p name n Map.empty)"
| step_open: "charm_open now s path flags = Some (r, s') \<Longrightarrow> cache_space s path \<Longrightarrow>
    resolve N path \<noteq> -1 \<or> flags AND O_CREAT = 0 \<Longrightarrow> flags AND O_TRUNC = 0 \<Longrightarrow> fs_step s N s' N"
| step_open_new: "charm_open now s path flags = Some (r, s') \<Longrightarrow> cached s N (set (ancestors path)) \<Longrightarrow> in_s64 now \<Longrightarrow>
    flags AND O_CREAT \<noteq> 0 \<Longrightarrow> absent_in s N path p name \<Longrightarrow> latest s n \<Longrightarrow> inum_ok n \<Longrightarrow>
    3 \<le> card (free_set s) \<Longrightarrow> in_s64 (file_size (inode_at s p) + 4096) \<Longrightarrow>
    fs_step s N s' (enter N p name n Map.empty)"
| step_open_cut: "charm_open now s path flags = Some (r, s') \<Longrightarrow> cached s N (set (ancestors path)) \<Longrightarrow>
    flags AND O_TRUNC \<noteq> 0 \<Longrightarrow> regular_at s N path n \<Longrightarrow> truncatable s (inode_at s n) 0 \<Longrightarrow> fs_step s N s' N"
| step_rename: "charm_rename now errno s old new = Some (r, s') \<Longrightarrow> regular_at s N old n \<Longrightarrow>
    absent_in s N new p name \<Longrightarrow> latest s m \<Longrightarrow> inum_ok m \<Longrightarrow>
    cached s N (set (ancestors old) \<union> set (ancestors new)) \<Longrightarrow>
    3 * (file_size (inode_at s n) div 4096 + 2) \<le> int (card (free_set s)) \<Longrightarrow> in_s64 now \<Longrightarrow>
    in_s64 (file_size (inode_at s p) + 4096) \<Longrightarrow> rename_copied now s old new = Some t \<Longrightarrow> cache_space t old \<Longrightarrow>
    present_in (enter N p name m Map.empty) old q oname n \<Longrightarrow> unlinkable t q oname n D \<Longrightarrow>
    enter N p name m Map.empty q = map_of (dir_names D) \<Longrightarrow> only_path t (enter N p name m Map.empty) old n \<Longrightarrow>
    fs_step s N s' (leave (enter N p name m Map.empty) q oname n)"
| step_rename_refused: "charm_rename now errno s old new = Some (r, s') \<Longrightarrow> resolve N old \<noteq> -1 \<Longrightarrow>
    resolve N new \<noteq> -1 \<Longrightarrow> cached s N (set (ancestors old) \<union> set (ancestors new)) \<Longrightarrow> fs_step s N s' N"
| step_chmod: "charm_chmod s path m = Some (r, s') \<Longrightarrow> cache_space s path \<Longrightarrow>
    resolve N path = -1 \<or> S_ISDIR m = S_ISDIR (mode (inode_at s (resolve N path))) \<Longrightarrow> fs_step s N s' N"
| step_chown: "charm_chown s path uid gid = Some (r, s') \<Longrightarrow> fs_step s N s' N"
| step_utimens: "charm_utimens s path = Some (r, s') \<Longrightarrow> fs_step s N s' N"
| step_readdir: "charm_readdir s path = Some (r, filled, s') \<Longrightarrow> cache_space s path \<Longrightarrow> fs_step s N s' N"
| step_missing: "resolve N path = -1 \<Longrightarrow> cache_space s path \<Longrightarrow> charm_unlink now s path = Some (r, s') \<or>
    charm_rmdir now s path = Some (r, s') \<or> charm_truncate s path a = Some (r, s') \<or>
    charm_write now s path buff k a = Some (r, s') \<or>
    k \<le> int (length buff) \<and> charm_read now s path buff k a = Some (r, buff', s') \<or>
    charm_rename now errno s path new = Some (r, s') \<Longrightarrow> fs_step s N s' N"
| step_refused: "creation_refused s N path \<Longrightarrow> cache_space s path \<Longrightarrow> charm_mknod now s path m dev = Some (r, s') \<or>
    charm_mkdir now s path m = Some (r, s') \<or> charm_create now s path m flags = Some (r, s') \<Longrightarrow> fs_step s N s' N"
| step_full: "resolve N path \<noteq> -1 \<Longrightarrow> dir_ok s (inode_at s (resolve N path)) D \<Longrightarrow> has_more D \<Longrightarrow> cache_space s path \<Longrightarrow>
    charm_unlink now s path = Some (r, s') \<or> charm_rmdir now s path = Some (r, s') \<Longrightarrow> fs_step s N s' N"

section \<open>Sessions\<close>

inductive session :: "fstate \<Rightarrow> dir_tree \<Rightarrow> bool" where
  start: "init_file_layer now junk s0 = Some (True, s) \<Longrightarrow> device_works s0 \<Longrightarrow> wf_inode junk \<Longrightarrow> in_s64 now \<Longrightarrow>
    \<forall>a \<ge> brk (iname_cache s0). heap (iname_cache s0) a = None \<Longrightarrow> session s root_tree"
| call: "session s N \<Longrightarrow> fs_step s N s' N' \<Longrightarrow> session s' N'"

lemma sound_step: "fs_step s N s' N' \<Longrightarrow> sound s N \<Longrightarrow> sound s' N'"
proof (induction rule: fs_step.induct)
  case (step_access s path m r s' N)
  show ?case by (rule sound_access [OF step_access.prems step_access.hyps])
next
  case (step_getattr s path r st s' N)
  show ?case by (rule sound_getattr [OF step_getattr.prems step_getattr.hyps])
next
  case (step_mknod now s path m dev r s' N p name n)
  show ?case by (rule sound_mknod [OF step_mknod.prems step_mknod.hyps(1-6,8,9)])
next
  case (step_mkdir now s path m r s' N p name n)
  show ?case by (rule sound_mkdir [OF step_mkdir.prems step_mkdir.hyps])
next
  case (step_write now s path buff k a r s' N n)
  show ?case by (rule sound_write [OF step_write.prems step_write.hyps])
next
  case (step_read now s path buff k a r buff' s' N n)
  show ?case by (rule sound_read [OF step_read.prems step_read.hyps])
next
  case (step_truncate s path a r s' N n)
  show ?case by (rule sound_truncate [OF step_truncate.prems step_truncate.hyps])
next
  case (step_unlink now s path r s' N p name n D)
  show ?case by (rule sound_unlink [OF step_unlink.prems step_unlink.hyps])
next
  case (step_rmdir now s path r s' N p name n D)
  show ?case by (rule sound_rmdir [OF step_rmdir.prems step_rmdir.hyps])
next
  case (step_create now s path m flags r s' N p name n)
  show ?case by (rule sound_create [OF step_create.prems step_create.hyps])
next
  case (step_open now s path flags r s' N)
  show ?case by (rule sound_open [OF step_open.prems step_open.hyps])
next
  case (step_open_new now s path flags r s' N p name n)
  note nn = sound_next [OF step_open_new.prems step_open_new.hyps(6,7)]
  obtain t where "charm_open now s path flags = Some (0, t)" "sound t (enter N p name n Map.empty)"
    by (rule open_new [OF step_open_new.prems step_open_new.hyps(5) nn step_open_new.hyps(2) subset_refl
          List.finite_set step_open_new.hyps(8,3,9,4)])
  then show ?case using step_open_new.hyps(1) by simp
next
  case (step_open_cut now s path flags r s' N n)
  obtain t where "charm_open now s path flags = Some (0, t)" "sound t N"
    by (rule open_existing [OF step_open_cut.prems step_open_cut.hyps(2,4,5,3)])
  then show ?case using step_open_cut.hyps(1) by simp
next
  case (step_rename now errno s old new r s' N n p name m t q oname D)
  obtain u where "charm_rename now errno s old new = Some (0, u)"
    "sound u (leave (enter N p name m Map.empty) q oname n)"
    by (rule sound_rename [OF step_rename.prems step_rename.hyps(2-15)])
  then show ?case using step_rename.hyps(1) by simp
next
  case (step_rename_refused now errno s old new r s' N)
  obtain u where "charm_rename now errno s old new = Some (- errno, u)" "sound u N"
    by (rule sound_rename_refused [OF step_rename_refused.prems step_rename_refused.hyps(2-4)])
  then show ?case using step_rename_refused.hyps(1) by simp
next
  case (step_chmod s path m r s' N)
  show ?case by (rule sound_chmod [OF step_chmod.prems step_chmod.hyps])
next
  case (step_readdir s path r filled s' N)
  show ?case by (rule sound_readdir [OF step_readdir.prems step_readdir.hyps])
next
  case (step_missing N path s now r s' a buff k buff' errno new)
  show ?case by (rule sound_missing [OF step_missing.prems step_missing.hyps])
next
  case (step_refused s N path now m dev r s' flags)
  show ?case by (rule sound_refused [OF step_refused.prems step_refused.hyps])
next
  case (step_full N path s D now r s')
  show ?case by (rule sound_full [OF step_full.prems step_full.hyps])
next
  case (step_chown s path uid gid r s' N)
  then show ?case by (simp add: charm_chown_def)
next
  case (step_utimens s path r s' N)
  then show ?case by (simp add: charm_utimens_def)
qed

lemma sound_session: "session s N \<Longrightarrow> sound s N"
proof (induction rule: session.induct)
  case (start now junk s0 s)
  then show ?case by (rule sound_start)
next
  case (call s N s' N')
  then show ?case using sound_step by blast
qed

text \<open>The start of a session, and a session of one call, for closed examples.\<close>

lemma first_session:
  obtains s where "session s root_tree" "cache_space s ''/a''" "absent_in s root_tree ''/a'' ROOT_INODE ''a''"
    "latest s 3" "inum_ok 3" "in_s64 (file_size (inode_at s ROOT_INODE) + 4096)" "6 \<le> card (free_set s)"
    "cache_space s ''/.''" "cache_space s ''/''"
proof -
  obtain s :: fstate where s: "volume_ok s root_tree" "lru_rep (iname_cache s) []"
    "csize (iname_cache s) = 0" "capacity (iname_cache s) = CACHE_SIZE" "next_inode s 3"
    "235923 \<le> card (free_set s)" "file_size (inode_at s ROOT_INODE) \<le> 8192"
    "init_file_layer 0 (blank_inode (inode_at sample_volume 4)) (file_state empty_cache) = Some (True, s)"
    by (rule started)
  have start: "session s root_tree"
  proof (rule session.start [OF s(8)])
    show "device_works (file_state empty_cache)"
      using file_state_facts(1) by (simp add: fl_inv_def healthy_def)
    show "wf_inode (blank_inode (inode_at sample_volume 4))"
      by (rule blank_inode_wf) (simp add: inode_at_def)
    show "\<forall>a \<ge> brk (iname_cache (file_state empty_cache)). heap (iname_cache (file_state empty_cache)) a = None"
      unfolding file_state_facts(6) by (simp add: empty_cache_def create_cache_def)
  qed (simp add: in_s64_def)
  have "absent_in s root_tree (''/'' @ ''a'') ROOT_INODE ''a''"
    by (rule absent_in_root [OF _ _ _ _ _ s(1)]) simp_all
  then have absent: "absent_in s root_tree ''/a'' ROOT_INODE ''a''" by simp
  have new: "latest s 3" "inum_ok 3" using s(5) by (simp_all add: next_inode_def latest_def)
  have anc: "set (ancestors ''/a'') = {''/a''}" "set (ancestors ''/.'') = {''/.''}" "set (ancestors ''/'') = {}"
    using one_step_path(3) [of "''a''"] one_step_path(3) [of "''.''"] by (simp_all add: ancestors_root)
  have "wf_inode (inode_at s ROOT_INODE)" unfolding inode_at_def by (rule wf_get_inode)
  then have "in_s64 (file_size (inode_at s ROOT_INODE))" by (simp add: wf_inode_def)
  with s(7) have size: "in_s64 (file_size (inode_at s ROOT_INODE) + 4096)" by (simp add: in_s64_def)
  have "l = []" if "lru_rep (iname_cache s) l" for l using that s(3) by (auto simp: lru_rep_def)
  moreover have "room_for (iname_cache s) [] {}" using s(3,4) by (simp add: room_for_def CACHE_SIZE_def)
  ultimately have space: "cache_space s ''/a''" "cache_space s ''/.''" "cache_space s ''/''"
    unfolding cache_space_def anc using room_for_one [OF s(3,4)] by blast+
  show thesis by (rule that [OF start space(1) absent new size _ space(2,3)]) (use s(6) in simp)
qed

lemma file_session:
  obtains s where "session s (enter root_tree ROOT_INODE ''a'' 3 Map.empty)"
    "resolve (enter root_tree ROOT_INODE ''a'' 3 Map.empty) ''/a'' = 3"
proof -
  obtain s where s: "session s root_tree" "cache_space s ''/a''" "absent_in s root_tree ''/a'' ROOT_INODE ''a''"
    "latest s 3" "inum_ok 3" "in_s64 (file_size (inode_at s ROOT_INODE) + 4096)" "6 \<le> card (free_set s)"
    by (rule first_session)
  have time: "in_s64 0" by (simp add: in_s64_def)
  have "3 \<le> card (free_set s)" using s(7) by simp
  from returns_create(1) [OF sound_session [OF s(1)] s(2) time s(3-6) this, of 0 0] obtain t where
    t: "charm_mknod 0 s ''/a'' 0 0 = Some (0, t)" by blast
  have "fs_step s root_tree t (enter root_tree ROOT_INODE ''a'' 3 Map.empty)"
    by (rule step_mknod [OF t s(2) time s(3-5) _ \<open>3 \<le> card (free_set s)\<close> s(6)]) (simp add: S_ISDIR_def S_IFDIR_def)
  then have "session t (enter root_tree ROOT_INODE ''a'' 3 Map.empty)" by (rule session.call [OF s(1)])
  moreover have "resolve (enter root_tree ROOT_INODE ''a'' 3 Map.empty) ''/a'' = 3"
    using resolve_step [OF _ one_step_path(1,2) [of "''a''"], of "enter root_tree ROOT_INODE ''a'' 3 Map.empty"]
    by (simp add: resolve_root enter_def ROOT_INODE_def)
  ultimately show thesis by (rule that)
qed

section \<open>Properties\<close>

text \<open>
  C1: in every state reached from the start by callbacks each of which finds what its rule of
  \<open>fs_step\<close> asks for, the volume is sound for a tree of directories (free list well formed, every
  directory on the device as in the tree, files and directories with blocks of their own, all in
  use), the cache agrees with the tree, the size of every regular file fits its blocks, and no
  inode from the next number on is allocated or in the tree. There is a rule for every callback,
  and rules for calls on missing paths, refused creations, removals of full directories and
  renames onto existing names. They ask for blocks, cache slots and inode numbers, and for what
  the code needs to be right: reads, writes, cuts and renames of regular files; an unlink of a
  file with tidy list blocks, one name, one link and one cached path; a cut that releases no whole
  block, or of a file of at most 10 blocks, or to at most 522 blocks with tidy list blocks; a mode that keeps the file type.
\<close>

theorem sessions_keep_the_volume_sound:
  assumes "session s N"
  shows "volume_ok s N \<and> (\<exists>l. lru_rep (iname_cache s) l \<and> cache_ok N l) \<and>
    (\<forall>n \<in> nodes N. \<not> S_ISDIR (mode (inode_at s n)) \<longrightarrow> size_ok (inode_at s n)) \<and>
    (\<forall>n \<in> nodes N. set (owned (blocks s) (inode_at s n)) \<inter> free_set s = {}) \<and>
    (\<exists>n. latest s n \<and> (\<forall>k. inum_ok k \<longrightarrow> n \<le> k \<longrightarrow> \<not> allocated (inode_at s k) \<and> k \<notin> nodes N))"
proof -
  note S = sound_session [OF assms]
  have "set (owned (blocks s) (inode_at s n)) \<inter> free_set s = {}" if "n \<in> nodes N" for n
    using volume_node [OF sound_volume [OF S] that] by (auto simp: node_ok_def wf_file_def)
  moreover have "\<exists>n. latest s n \<and> (\<forall>k. inum_ok k \<longrightarrow> n \<le> k \<longrightarrow> \<not> allocated (inode_at s k) \<and> k \<notin> nodes N)"
    using sound_fresh [OF S] unfolding fresh_def by blast
  ultimately show ?thesis using S unfolding sound_def by blast
qed

theorem sessions_keep_the_volume_sound_witness:
  "\<exists>s N. session s N \<and> resolve N ''/a'' = 3 \<and> volume_ok s N"
proof -
  obtain s where s: "session s (enter root_tree ROOT_INODE ''a'' 3 Map.empty)"
    "resolve (enter root_tree ROOT_INODE ''a'' 3 Map.empty) ''/a'' = 3" by (rule file_session)
  with sessions_keep_the_volume_sound [OF s(1)] show ?thesis by blast
qed

text \<open>
  C10: in every state a session reaches, the lookup of a path, through the cache, gives what the
  record for its last name in its directory on the device says: the inode number in the record
  \<open>find_file\<close> finds, or -1 when it finds none. A number given is that of an inode in the table, and
  only inodes of directories give any.
\<close>

theorem lookups_follow_the_records:
  assumes "session s N" "cache_space s path" "cache_space s q" "path \<noteq> ''/''"
    and "get_parent_path path (int (length path)) = Some q" "get_child_name path (int (length path)) = Some c"
    and "get_inode_num_from_path s q = Some (p, s1)" "p \<noteq> -1"
  shows "\<exists>fp n s2. find_file s c (inode_at s p) = Some fp \<and> get_inode_num_from_path s path = Some (n, s2) \<and>
    n = (case found_inum fp of None \<Rightarrow> -1 | Some m \<Rightarrow> m) \<and> (n = -1 \<longleftrightarrow> found_inum fp = None) \<and>
    (n \<noteq> -1 \<longrightarrow> inum_ok n \<and> S_ISDIR (mode (inode_at s p)) \<and> read_inode s2 n = Some (Some (inode_at s n)))"
proof -
  note S = sound_session [OF assms(1)]
  note v = sound_volume [OF S]
  obtain c1 l1 where "get_inode_num_from_path s q = Some (resolve N q, s\<lparr>iname_cache := c1\<rparr>)"
    by (rule sound_lookup [OF S assms(3)])
  then have p: "resolve N q = p" using assms(7) by simp
  then have pn: "p \<in> nodes N" using resolve_node [of N q] assms(8) by blast
  have R: "resolve N path = (case N p c of None \<Rightarrow> -1 | Some n \<Rightarrow> n)"
    using resolve_step [OF assms(4-6), of N] p assms(8) by simp
  obtain c2 l2 where 2: "get_inode_num_from_path s path = Some (resolve N path, s\<lparr>iname_cache := c2\<rparr>)"
    by (rule sound_lookup [OF S assms(2)])
  have "fl_inv s" "tree_ok s N" using v by (simp_all add: volume_ok_def)
  then obtain fp where fp: "find_file s c (inode_at s p) = Some fp" "found_inum fp = N p c"
    using pn by (rule find_in_node)
  have "inum_ok (resolve N path) \<and> S_ISDIR (mode (inode_at s p)) \<and>
      read_inode (s\<lparr>iname_cache := c2\<rparr>) (resolve N path) = Some (Some (inode_at s (resolve N path)))"
    if n: "resolve N path \<noteq> -1"
  proof -
    have "resolve N path \<in> nodes N" using resolve_node [of N path] n by blast
    moreover obtain m where "N p c = Some m" using R n by (cases "N p c") auto
    ultimately show ?thesis using volume_node [OF v] entry_in_directory [OF v] pn volume_read [OF v n] by blast
  qed
  moreover have "resolve N path = -1 \<longleftrightarrow> N p c = None"
  proof (cases "N p c")
    case (Some m)
    then have "m \<in> nodes N" by (auto simp: nodes_def)
    then have "m \<noteq> -1" using volume_node [OF v, of m] by (auto simp: inum_ok_def)
    then show ?thesis using Some R by simp
  qed (use R in simp)
  ultimately show ?thesis using fp 2 R by auto
qed

theorem lookups_follow_the_records_witness:
  "\<exists>s N fp s2. session s N \<and> find_file s ''.'' (inode_at s ROOT_INODE) = Some fp \<and>
    found_inum fp = Some ROOT_INODE \<and> get_inode_num_from_path s ''/.'' = Some (ROOT_INODE, s2)"
proof -
  obtain s where s: "session s root_tree" "cache_space s ''/.''" "cache_space s ''/''" by (rule first_session)
  have look: "get_inode_num_from_path s ''/'' = Some (ROOT_INODE, s)" by (subst get_inode_num_from_path.simps) simp
  have p: "get_parent_path ''/.'' (int (length ''/.'')) = Some ''/''" "get_child_name ''/.'' (int (length ''/.'')) = Some ''.''"
    using one_step_path(1,2) [of "''.''"] by simp_all
  have pos: "ROOT_INODE \<noteq> -1" by (simp add: ROOT_INODE_def)
  have path: "''/.'' \<noteq> ''/''" by simp
  from lookups_follow_the_records [OF s path p look pos] obtain fp n s2 where
    f: "find_file s ''.'' (inode_at s ROOT_INODE) = Some fp" "get_inode_num_from_path s ''/.'' = Some (n, s2)"
    "n = (case found_inum fp of None \<Rightarrow> -1 | Some m \<Rightarrow> m)" "n = -1 \<longleftrightarrow> found_inum fp = None" by (elim exE conjE) (rule that)
  obtain c l where "get_inode_num_from_path s ''/.'' = Some (resolve root_tree ''/.'', s\<lparr>iname_cache := c\<rparr>)"
    by (rule sound_lookup [OF sound_session [OF s(1)] s(2)])
  moreover have "resolve root_tree ''/.'' = ROOT_INODE"
    using resolve_step [OF path p, of root_tree] by (simp add: resolve_root root_tree_def ROOT_INODE_def)
  ultimately have "n = ROOT_INODE" using f(2) by simp
  moreover from this f(3,4) pos have "found_inum fp = Some ROOT_INODE" by (cases "found_inum fp") auto
  ultimately show ?thesis using s(1) f(1,2) by blast
qed



end
