(* ===== verification/Spec2Isabelle.thy ===== *)
theory Spec2Isabelle
  imports HashTable Session
begin

text \<open>
  A model of the FUSE file system of this repository, and the theorems that say what its layers
  promise each other.

  The program. A file system in one block device. \<open>lib/disk_layer.c\<close> reads and writes blocks of
  4096 bytes; \<open>lib/block_layer.c\<close> keeps a super block, a table of inodes and a list of free data
  blocks on them; \<open>lib/file_layer.c\<close> builds files, directories and paths from inodes and data
  blocks, with the cache of \<open>lib/lru_cache.c\<close> from paths to inode numbers; \<open>lib/fuse_layer.c\<close>
  hands its operations to FUSE as callbacks. Every layer calls the one below it directly and
  shares state through globals: the device, \<open>super_block\<close> and \<open>iname_cache\<close>. The functions are
  modelled with those globals as one state that is passed along: the records \<open>disk\<close>, \<open>bstate\<close>
  (which adds the super block in memory) and \<open>fstate\<close> (which adds the cache). The functions of a
  layer are written for any extension of the record of that layer, so the layers above use them
  unchanged, and a function leaves the fields it does not know alone by its type.

  How code becomes a definition. Every definition has the name of its C function. A struct is a
  record, a local struct that is changed through a pointer is returned changed. \<open>None\<close> is
  undefined behaviour (a null or freed pointer, an index out of range, a division by zero) or a
  call that does not return; \<open>false\<close>, \<open>-1\<close>, \<open>NULL\<close> and the error numbers are ordinary results.
  Blocks are functions from offsets to bytes; integers are stored in them as the compiler lays
  them out and come back from there; \<open>ssize_t\<close> is an integer, conversions from and to
  \<open>size_t\<close> are the functions \<open>u64\<close> and \<open>s64\<close>, hashes and modes are words. The body of a loop is a
  definition of its own.
\<close>

text \<open>
  The theories, and the code they model.

  \<^item> \<open>Prelude\<close>: byte buffers, the layout of C's integers, \<open>memcpy\<close> and \<open>memset\<close>, and \<open>for_loop\<close>, C's
    \<open>for\<close> with early exits, with its rules.
  \<^item> \<open>DiskLayer\<close>: \<open>lib/disk_layer.c\<close> in the build of the Makefile (\<open>-DDISK\<close>). Locale \<open>block_store\<close>
    states what a store of blocks promises; it is interpreted here for blocks and in \<open>Allocator\<close> for
    data blocks.
  \<^item> \<open>BlockTypes\<close>: the structs and constants of \<open>include/block_layer.h\<close>, the super block.
  \<^item> \<open>FreeList\<close>, \<open>Allocator\<close>, \<open>FreeListInit\<close>: \<open>init_freelist\<close>, \<open>create_new_dblock\<close>, \<open>read_dblock\<close>,
    \<open>write_dblock\<close>, \<open>free_dblock\<close> of \<open>lib/block_layer.c\<close>. \<open>free_set\<close> is the set of free blocks the list on
    the device stands for; the locale \<open>block_allocator\<close> states the contract on that set.
  \<^item> \<open>InodeTable\<close>, \<open>InodeAlloc\<close>: the inode functions of \<open>lib/block_layer.c\<close>; locale \<open>inode_store\<close>.
  \<^item> \<open>MakeFs\<close>, \<open>FreeInode\<close>: \<open>make_fs\<close>, \<open>free_dblocks_from_inode\<close>, \<open>free_inode\<close>.
  \<^item> \<open>InodeBlocks\<close>, \<open>FileBlocks\<close>: the block map of a file (\<open>fblock_num_to_dblock_num\<close>,
    \<open>write_dblock_to_inode\<close>, \<open>add_dblock_to_inode\<close>, \<open>remove_dblocks_from_inode\<close> of \<open>lib/file_layer.c\<close>). The
    abstraction is \<open>fblk\<close>, with \<open>wf_file\<close> for files whose blocks are distinct and in use; locale
    \<open>block_file\<close>.
  \<^item> \<open>PathNames\<close>: \<open>get_parent_id\<close>, \<open>get_parent_path\<close>, \<open>get_child_name\<close>.
  \<^item> \<open>LruCache\<close>, \<open>LruRefine\<close>, \<open>LruSpec\<close>: \<open>lib/lru_cache.c\<close> on an explicit heap of nodes. \<open>lru_rep\<close>
    relates it to a list of keys and values by last use; locale \<open>recency_cache\<close>.
  \<^item> \<open>HashTable\<close>: \<open>lib/hash_table.c\<close>, which the program does not link.
  \<^item> \<open>Directory\<close>, \<open>DirectorySpec\<close>, \<open>Removal\<close>: the records of directories (\<open>find_file\<close>, \<open>add_new_entry\<close>,
    \<open>is_empty_dir\<close>, and the part of \<open>custom_unlink\<close> that takes a record out). The abstraction is the list of
    records of each block, and \<open>dir_names\<close>, the pairs of name and number.
  \<^item> \<open>FileLayer\<close>: the operations by path of \<open>lib/file_layer.c\<close> (\<open>get_inode_num_from_path\<close>,
    \<open>create_new_file\<close>, the \<open>custom_\<close> functions, \<open>init_file_layer\<close>).
  \<^item> \<open>FileData\<close>, \<open>ListRelease\<close>, \<open>Truncate\<close>: what reading, writing and shortening do to the bytes of a
    file (\<open>file_byte\<close>), and which data and list blocks shortening gives back.
  \<^item> \<open>PathSpec\<close>, \<open>VolumeSpec\<close>, \<open>RootDir\<close>, \<open>Unlink\<close>: the tree of directories \<open>dir_tree\<close> a volume stands for
    (\<open>volume_ok\<close>), and lookup, creation, start and removal as changes of the tree (\<open>resolve\<close>, \<open>enter\<close>,
    \<open>root_tree\<close>, \<open>leave\<close>).
  \<^item> \<open>FuseLayer\<close>: the callbacks of \<open>lib/fuse_layer.c\<close> and \<open>main\<close>.
  \<^item> \<open>ReadDir\<close>, \<open>Refusals\<close>: listing a directory; calls the code refuses and what it then reports.
  \<^item> \<open>Sound\<close>: the invariant \<open>sound\<close> of a running file system (volume, cache, sizes, inode numbers still to
    be handed out), and that each callback keeps it and returns.
  \<^item> \<open>Rename\<close>: \<open>charm_open\<close> on a new and on an existing name, and \<open>charm_rename\<close> as the composition of
    lookups, creation, reads, writes and an unlink.
  \<^item> \<open>Session\<close>: the file system as a state machine. \<open>fs_step\<close> is one callback, \<open>session\<close> the states
    reachable from \<open>init_file_layer\<close>.
\<close>

text \<open>
  What is shown. Bottom up: the free list is a set that allocation and release change as they
  should; an inode read is the one written; a file's block map grows by appending; reading returns
  the bytes that were written; a directory is a map that \<open>find_file\<close> looks up, \<open>add_new_entry\<close> extends
  and \<open>remove_record\<close> shortens; a lookup through the cache is the lookup in the tree. On top of that
  sessions: as long as each callback finds what its rule of \<open>fs_step\<close> asks for, no block belongs to two
  files or is free and in use, the tree is the one on the device, the cache agrees with it, lookups
  give the numbers in the records on the device, and the callbacks return the results they should.
  A rename, the longest composition of the program, copies the file byte by byte before it gives
  up the old name.

  Where the code breaks the contract one would write, the contract of the locale carries the
  condition under which it holds, and a theorem shows what happens without it: releasing a block
  on a full volume, removing the only cache entry, evicting, a table full of inodes, an inode that
  is handed out twice, a path cached under two spellings, the entry for the parent of a new
  directory, released blocks left in a list block, errors reported as success.

  The guards of \<open>fs_step\<close> are those conditions: the cache has room and no collision for the paths a
  lookup stores (\<open>cache_space\<close>; \<open>cached\<close> for the several lookups of an open or a rename), the number
  \<open>create_new_inode\<close> hands out next is within the table (\<open>latest\<close>, \<open>inum_ok\<close>), three or six blocks are free
  for a new name, reads, writes, cuts and renames are of regular files (\<open>regular_at\<close>), a cut releases no
  whole block, or the file has direct blocks only, or it leaves at most 522 blocks and the list
  blocks hold nothing behind the end (\<open>cuttable\<close>, \<open>truncatable\<close>), an unlink finds another block free, another
  path in the cache, tidy list blocks, one link, one name and one cached spelling (\<open>unlinkable\<close>,
  \<open>only_path\<close>), a rename finds blocks for the copy, a mode change keeps the file type.

  Termination. \<open>for_loop\<close> ends because its bound is fixed; the loops over records move on by a
  positive distance (measure: what is left of the block); the walk up a path shortens it. Loops
  that may not end in the code are partial functions whose value is then \<open>None\<close>: the search for a
  free inode (which a theorem shows not to end on a full table), walking the cache's list, listing a
  block whose records do not move on, and the copying loop of a rename. The theorems about these
  state that they return. No definition uses fuel.

  Parameters. What the device answers, \<open>time(NULL)\<close> (\<open>now\<close>), \<open>errno\<close>, the fields of a stack
  variable \<open>init_inode_list\<close> copies without setting them (\<open>junk\<close>), FUSE's \<open>fuse_main\<close>. FUSE's \<open>filler\<close> is
  represented by the list of its calls. Callers' buffers are byte lists of their real length.

  Not modelled. \<open>printf\<close> and the debug macro of \<open>include/debug.h\<close> (output only), freeing of buffers,
  the \<open>malloc\<close>-backed build of the disk layer (not the one the Makefile builds), the Makefile, the
  README and the test drivers. Running out of memory is not a behaviour of the model. Files that
  reach the triple indirect level are modelled, but a volume has fewer blocks than such a file
  needs, so \<open>wf_file\<close> does not describe them.

  Left out of sessions, with the calls that lack resources: a cut of a file of more than 10 blocks
  that leaves more than 522 of them and releases some (\<open>remove_dblocks_from_inode\<close> counts the lists to
  release wrongly there), a cut of such a file over words an earlier cut left in its list blocks, a
  mode change that turns a file into a directory or back, an unlink while a second spelling of the
  path is cached, and reading, writing, cutting or renaming a directory as if it were a file.
\<close>

end
